(* ===== verification/Prelude.thy ===== *)
theory Prelude
  imports Main "HOL-Library.Word"
begin

text \<open>
  What every component of the model shares: the faults a C program can run into
  (the source has no exceptions, so a memory error is the only way a call can fail to
  return), the result type that carries them and its sequencing operator, reads and
  writes of a C array, the machine integers of an LP64 target, and the collections of
  rewrite rules the component theories extend.
\<close>

section \<open>Collections of rules\<close>

named_theorems res_simps "sequencing of results that may be faults"
named_theorems int_simps "conversions between the integer types of C"

section \<open>Faults and results\<close>

text \<open>A pointer is a number, the null pointer is \<open>None\<close> of an optional pointer.\<close>

type_synonym addr = nat

text \<open>
  A fault stands for undefined behaviour: a read or write through the null pointer,
  through a pointer to memory that has been freed, past the end of an array, or of a
  cell that was never written, or a counter of type \<open>int\<close> that passes its maximum. \<open>Diverges\<close> is the outcome of a loop that never ends.
\<close>

datatype fault = NullDeref | UseAfterFree addr | OutOfBounds | Uninitialised | SignedOverflow | Diverges

type_synonym 'a res = "fault + 'a"

definition and_then :: "'a res \<Rightarrow> ('a \<Rightarrow> 'b res) \<Rightarrow> 'b res" where
  "and_then m f = (case m of Inl e \<Rightarrow> Inl e | Inr x \<Rightarrow> f x)"

definition ok :: "'a res \<Rightarrow> bool" where
  "ok m = (case m of Inl e \<Rightarrow> False | Inr x \<Rightarrow> True)"

lemma and_then_Inl [simp, res_simps]: "and_then (Inl e) f = Inl e"
  by (simp add: and_then_def)

lemma and_then_Inr [simp, res_simps]: "and_then (Inr x) f = f x"
  by (simp add: and_then_def)

lemma and_then_eq_Inr:
  "and_then m f = Inr y \<longleftrightarrow> (\<exists>x. m = Inr x \<and> f x = Inr y)"
  by (cases m) auto

lemma and_then_InrE [elim]:
  assumes "and_then m f = Inr y"
  obtains x where "m = Inr x" and "f x = Inr y"
  using assms by (auto simp: and_then_eq_Inr)

lemma and_then_cong [fundef_cong]:
  "m = m' \<Longrightarrow> (\<And>x. m' = Inr x \<Longrightarrow> f x = g x) \<Longrightarrow> and_then m f = and_then m' g"
  by (cases m') auto

lemma and_then_assoc:
  "and_then (and_then m f) g = and_then m (\<lambda>x. and_then (f x) g)"
  by (cases m) auto

lemma ok_Inl [simp]: "\<not> ok (Inl e)"
  by (simp add: ok_def)

lemma ok_Inr [simp]: "ok (Inr x)"
  by (simp add: ok_def)

lemma ok_iff: "ok m \<longleftrightarrow> (\<exists>x. m = Inr x)"
  by (cases m) auto

section \<open>Arrays\<close>

text \<open>
  \<open>peek\<close> and \<open>poke\<close> are \<open>a[i]\<close> and \<open>a[i] = v\<close>: an index past the end is a fault,
  never a default value.
\<close>

definition peek :: "'a list \<Rightarrow> nat \<Rightarrow> 'a res" where
  "peek a i = (if i < length a then Inr (a ! i) else Inl OutOfBounds)"

definition poke :: "'a list \<Rightarrow> nat \<Rightarrow> 'a \<Rightarrow> 'a list res" where
  "poke a i v = (if i < length a then Inr (a[i := v]) else Inl OutOfBounds)"

lemma peek_in [simp]: "i < length a \<Longrightarrow> peek a i = Inr (a ! i)"
  by (simp add: peek_def)

lemma poke_in [simp]: "i < length a \<Longrightarrow> poke a i v = Inr (a[i := v])"
  by (simp add: poke_def)

lemma poke_InrD: "poke a i v = Inr b \<Longrightarrow> i < length a \<and> b = a[i := v]"
  by (simp add: poke_def split: if_splits)

lemma length_poke: "poke a i v = Inr b \<Longrightarrow> length b = length a"
  by (auto dest: poke_InrD)

lemma take_list_update_snoc:
  "i < length a \<Longrightarrow> take (Suc i) (a[i := v]) = take i a @ [v]"
  by (simp add: take_Suc_conv_app_nth)

lemma drop_ConsD:
  assumes "drop i xs = y # ys"
  shows "i < length xs" and "xs ! i = y" and "drop (Suc i) xs = ys"
proof -
  show i: "i < length xs" using assms by (cases "i < length xs") auto
  then have "drop i xs = xs ! i # drop (Suc i) xs" by (rule Cons_nth_drop_Suc [symmetric])
  with assms show "xs ! i = y" and "drop (Suc i) xs = ys" by simp_all
qed

lemma drop_suffix: "i \<le> j \<Longrightarrow> \<exists>u. drop i xs = u @ drop j xs"
proof -
  assume "i \<le> j"
  then have "drop j xs = drop (j - i) (drop i xs)" by simp
  then show ?thesis by (metis append_take_drop_id)
qed

lemma distinct_snoc [simp]: "distinct (xs @ [x]) \<longleftrightarrow> distinct xs \<and> x \<notin> set xs"
  by auto

lemma takeWhile_all_append:
  assumes "list_all P xs" and "ys = [] \<or> \<not> P (hd ys)"
  shows "takeWhile P (xs @ ys) = xs" and "dropWhile P (xs @ ys) = ys"
  using assms by (induction xs; cases ys; auto)+

section \<open>Machine integers\<close>

text \<open>
  The target is LP64: \<open>int\<close> has 32 bits, \<open>long\<close> and \<open>size_t\<close> have 64. Values of the
  signed types are kept as \<open>int\<close>, and a conversion to a narrower type is written out;
  reference counts, where a decrement of zero would matter, are 64-bit words.
\<close>

type_synonym size_t = "64 word"

definition INT_MIN :: int where "INT_MIN = - (2 ^ 31)"
definition INT_MAX :: int where "INT_MAX = 2 ^ 31 - 1"
definition LONG_MIN :: int where "LONG_MIN = - (2 ^ 63)"
definition LONG_MAX :: int where "LONG_MAX = 2 ^ 63 - 1"
definition ULONG_MAX :: int where "ULONG_MAX = 2 ^ 64 - 1"

lemmas int_limits = INT_MIN_def INT_MAX_def LONG_MIN_def LONG_MAX_def ULONG_MAX_def

text \<open>Conversion of a wider integer to \<open>int\<close>: the low 32 bits, read as two's complement.\<close>

definition int32 :: "int \<Rightarrow> int" where
  "int32 x = (x + 2 ^ 31) mod 2 ^ 32 - 2 ^ 31"

definition clamp_long :: "int \<Rightarrow> int" where
  "clamp_long x = (if x < LONG_MIN then LONG_MIN else if LONG_MAX < x then LONG_MAX else x)"

lemma int32_id [int_simps]: "INT_MIN \<le> x \<Longrightarrow> x \<le> INT_MAX \<Longrightarrow> int32 x = x"
  by (simp add: int32_def int_limits)

lemma int32_range: "INT_MIN \<le> int32 x" "int32 x \<le> INT_MAX"
  using pos_mod_bound [of "2 ^ 32 :: int" "x + 2 ^ 31"]
  by (auto simp: int32_def int_limits)

lemma int32_wrap: "int32 (x + 2 ^ 32 * k) = int32 x"
proof -
  have "x + 2 ^ 32 * k + 2 ^ 31 = (x + 2 ^ 31) + k * 2 ^ 32" by simp
  then show ?thesis unfolding int32_def by (metis mod_mult_self1)
qed

lemma clamp_long_id [int_simps]: "LONG_MIN \<le> x \<Longrightarrow> x \<le> LONG_MAX \<Longrightarrow> clamp_long x = x"
  by (simp add: clamp_long_def)

lemma clamp_long_int [int_simps]: "INT_MIN \<le> x \<Longrightarrow> x \<le> INT_MAX \<Longrightarrow> clamp_long x = x"
  by (rule clamp_long_id) (simp_all add: int_limits)

lemma clamp_long_range: "LONG_MIN \<le> clamp_long x" "clamp_long x \<le> LONG_MAX"
  by (auto simp: clamp_long_def int_limits)

text \<open>Counts of type \<open>size_t\<close> are kept as \<open>nat\<close>, with the wrap-around of \<open>n + 1\<close> and \<open>n - 1\<close>.\<close>

definition sz_succ :: "nat \<Rightarrow> nat" where
  "sz_succ m = (m + 1) mod 2 ^ 64"

definition sz_pred :: "nat \<Rightarrow> nat" where
  "sz_pred m = (m + 2 ^ 64 - 1) mod 2 ^ 64"

lemma sz_succ_small [simp]: "m < 2 ^ 64 - 1 \<Longrightarrow> sz_succ m = Suc m"
  by (simp add: sz_succ_def)

lemma sz_pred_pos [simp]: "0 < m \<Longrightarrow> m < 2 ^ 64 \<Longrightarrow> sz_pred m = m - 1"
proof -
  assume "0 < m" "m < 2 ^ 64"
  then have "m + 2 ^ 64 - 1 = (m - 1) + 2 ^ 64" and "m - 1 < 2 ^ 64" by simp_all
  then show ?thesis unfolding sz_pred_def by (metis mod_add_self2 mod_less)
qed

section \<open>Memory blocks\<close>

text \<open>
  A memory is a map from addresses to blocks of one type. What \<open>malloc\<close> returns is an
  argument of the operations that call it: \<open>None\<close>, or an address in the address space that is not the null
  pointer and not in use.
\<close>

definition valid_addr :: "addr \<Rightarrow> bool" where
  "valid_addr a \<longleftrightarrow> 0 < a \<and> a < 2 ^ 64"

definition malloc_ok :: "(addr \<rightharpoonup> 'b) \<Rightarrow> addr \<Rightarrow> bool" where
  "malloc_ok mem a \<longleftrightarrow> valid_addr a \<and> mem a = None"

definition load :: "(addr \<rightharpoonup> 'b) \<Rightarrow> addr \<Rightarrow> 'b res" where
  "load mem a = (case mem a of None \<Rightarrow> Inl (UseAfterFree a) | Some b \<Rightarrow> Inr b)"

lemma load_Some [simp]: "mem a = Some b \<Longrightarrow> load mem a = Inr b"
  by (simp add: load_def)

lemma load_None [simp]: "mem a = None \<Longrightarrow> load mem a = Inl (UseAfterFree a)"
  by (simp add: load_def)

lemma load_InrD: "load mem a = Inr b \<Longrightarrow> mem a = Some b"
  by (simp add: load_def split: option.splits)

lemma distinct_addrs_bound:
  assumes "distinct as" and "\<forall>a \<in> set as. valid_addr a"
  shows "length as < 2 ^ 64"
proof -
  have "set as \<subseteq> {1..<2 ^ 64}" using assms(2) by (auto simp: valid_addr_def)
  then have "card (set as) \<le> card {1..<2 ^ 64 :: nat}" by (intro card_mono) auto
  then show ?thesis using distinct_card [OF assms(1)] by simp
qed

section \<open>Transition systems\<close>

text \<open>
  A machine that takes events one at a time: \<open>None\<close> is an event it does not survive. The contract of an invariant is that the events whose
  guard holds keep it, and of a machine that never fails that they are survived, too; what follows for whole runs is proved once.
\<close>

primrec run_of :: "('e \<Rightarrow> 's \<Rightarrow> 's option) \<Rightarrow> 'e list \<Rightarrow> 's \<Rightarrow> 's option" where
  "run_of step [] s = Some s"
| "run_of step (e # es) s = (case step e s of None \<Rightarrow> None | Some t \<Rightarrow> run_of step es t)"

primrec guarded :: "('e \<Rightarrow> 's \<Rightarrow> bool) \<Rightarrow> ('e \<Rightarrow> 's \<Rightarrow> 's option) \<Rightarrow> 'e list \<Rightarrow> 's \<Rightarrow> bool" where
  "guarded guard step [] s = True"
| "guarded guard step (e # es) s = (guard e s \<and> (case step e s of None \<Rightarrow> True | Some t \<Rightarrow> guarded guard step es t))"

lemma run_of_append: "run_of step (es @ fs) s = Option.bind (run_of step es s) (run_of step fs)"
  by (induction es arbitrary: s) (auto split: option.split)

locale transitions =
  fixes guard :: "'e \<Rightarrow> 's \<Rightarrow> bool" and step :: "'e \<Rightarrow> 's \<Rightarrow> 's option" and inv :: "'s \<Rightarrow> bool"
  assumes keeps: "inv s \<Longrightarrow> guard e s \<Longrightarrow> step e s = Some t \<Longrightarrow> inv t"
begin

lemma run_keeps: "inv s \<Longrightarrow> guarded guard step es s \<Longrightarrow> run_of step es s = Some t \<Longrightarrow> inv t"
  by (induction es arbitrary: s) (auto split: option.splits intro: keeps)

end

locale live_transitions = transitions +
  assumes survives: "inv s \<Longrightarrow> guard e s \<Longrightarrow> step e s \<noteq> None"
begin

lemma run_survives: "inv s \<Longrightarrow> guarded guard step es s \<Longrightarrow> \<exists>t. run_of step es s = Some t \<and> inv t"
proof (induction es arbitrary: s)
  case (Cons e es)
  then obtain t where t: "step e s = Some t" using survives [of s e] by auto
  with Cons keeps [of s e t] show ?case by simp
qed simp

end

end
