(* ===== verification/Errors.thy ===== *)
theory Errors
  imports Prelude
begin

text \<open>
  The result codes of the program (\<open>misc/include/errors.h\<close>) and the table of messages
  (\<open>misc/src/errors.c\<close>). The codes are compared and returned as the integers C gives
  them, in the order of their declaration; the type is an instance of \<open>linorder\<close> with
  that order.
\<close>

datatype ErrType =
    SUCCESS | FAIL | TOO_FEW | TOO_MANY | USERTXT_FAIL | TIMEDOUT | POOL_FAIL | INV_ARG
  | SIG_FAIL | TQ_FAIL | CR_FAIL | PIPE_FAIL | PIPE_READ_FAIL | PIPE_WRITE_FAIL | PIPE_EMPTY
  | PIPE_FULL | PIPE_CLOSED | PIPE_PARTIAL | POLLFD_FAIL | GROW_FAIL

fun err_code :: "ErrType \<Rightarrow> int" where
  "err_code SUCCESS = 0"
| "err_code FAIL = 1"
| "err_code TOO_FEW = 2"
| "err_code TOO_MANY = 3"
| "err_code USERTXT_FAIL = 4"
| "err_code TIMEDOUT = 5"
| "err_code POOL_FAIL = 6"
| "err_code INV_ARG = 7"
| "err_code SIG_FAIL = 8"
| "err_code TQ_FAIL = 9"
| "err_code CR_FAIL = 10"
| "err_code PIPE_FAIL = 11"
| "err_code PIPE_READ_FAIL = 12"
| "err_code PIPE_WRITE_FAIL = 13"
| "err_code PIPE_EMPTY = 14"
| "err_code PIPE_FULL = 15"
| "err_code PIPE_CLOSED = 16"
| "err_code PIPE_PARTIAL = 17"
| "err_code POLLFD_FAIL = 18"
| "err_code GROW_FAIL = 19"

lemma err_code_inj: "err_code a = err_code b \<Longrightarrow> a = b"
  by (cases a; cases b; simp)

lemma err_code_range: "0 \<le> err_code e" "err_code e \<le> 19"
  by (cases e; simp)+

instantiation ErrType :: linorder
begin

definition less_eq_ErrType :: "ErrType \<Rightarrow> ErrType \<Rightarrow> bool" where
  "less_eq_ErrType a b \<longleftrightarrow> err_code a \<le> err_code b"

definition less_ErrType :: "ErrType \<Rightarrow> ErrType \<Rightarrow> bool" where
  "less_ErrType a b \<longleftrightarrow> err_code a < err_code b"

instance
  by standard (auto simp: less_eq_ErrType_def less_ErrType_def intro: err_code_inj)

end

text \<open>
  The table \<open>errs\<close> is initialised by designators, so an index without one holds the null
  pointer: \<open>None\<close>.
\<close>

fun errs :: "ErrType \<Rightarrow> string option" where
  "errs TOO_FEW = Some (''Too few arguments provided.'' @ [CHR 0x0A])"
| "errs TOO_MANY = Some (''Too many arguments provided.'' @ [CHR 0x0A])"
| "errs INV_ARG = Some (''Invalid argument provided.'' @ [CHR 0x0A])"
| "errs TIMEDOUT = Some (''Server timed out.'' @ [CHR 0x0A])"
| "errs POOL_FAIL = Some ''Failed to make pool size''"
| "errs SIG_FAIL = Some (''Failed to assign signal handlers.'' @ [CHR 0x0A])"
| "errs TQ_FAIL = Some (''Failed to allocate task.'' @ [CHR 0x0A])"
| "errs CR_FAIL = Some (''Failed to insert user to registry.'' @ [CHR 0x0A])"
| "errs PIPE_FAIL = Some ''Failed to open pipes for''"
| "errs PIPE_READ_FAIL = Some ''Failed to read from pipe''"
| "errs PIPE_WRITE_FAIL = Some ''Failed to write from pipe''"
| "errs PIPE_CLOSED = Some (''pipe EOF detected.'' @ [CHR 0x0A])"
| "errs PIPE_PARTIAL = Some (''pipe partial read.'' @ [CHR 0x0A])"
| "errs POLLFD_FAIL = Some (''Failed to allocate poll fd array.'' @ [CHR 0x0A])"
| "errs GROW_FAIL = Some (''Failed to grow poll fd array.'' @ [CHR 0x0A])"
| "errs _ = None"

text \<open>What \<open>main\<close> of both programs returns: \<open>retval ? retval : 0\<close>.\<close>

definition exit_status :: "ErrType \<Rightarrow> int" where
  "exit_status r = (if err_code r \<noteq> 0 then err_code r else 0)"

lemma exit_status_zero: "exit_status r = 0 \<longleftrightarrow> r = SUCCESS"
  by (cases r) (simp_all add: exit_status_def)

end
