(* ===== verification/CLib.thy ===== *)
theory CLib
  imports Prelude
begin

text \<open>
  The functions of the C library the program calls on strings, as the C standard and the
  POSIX manual describe them in the C locale. A C string is the list of its characters up to, and
  without, the terminating zero.
\<close>

section \<open>Characters\<close>

abbreviation NUL :: char where "NUL \<equiv> CHR 0x00"
abbreviation NL :: char where "NL \<equiv> CHR 0x0A"
abbreviation SPC :: char where "SPC \<equiv> CHR 0x20"

definition c_isspace :: "char \<Rightarrow> bool" where
  "c_isspace c = (let n = of_char c :: nat in n = 32 \<or> (9 \<le> n \<and> n \<le> 13))"

definition c_isdigit :: "char \<Rightarrow> bool" where
  "c_isdigit c = (let n = of_char c :: nat in 48 \<le> n \<and> n \<le> 57)"

lemma isspace_simps [simp]:
  "c_isspace SPC" "c_isspace NL" "\<not> c_isspace NUL" "\<not> c_isspace (CHR ''-'')"
  by (simp_all add: c_isspace_def)

lemma isdigit_not_space: "c_isdigit c \<Longrightarrow> \<not> c_isspace c"
  by (auto simp: c_isspace_def c_isdigit_def Let_def)

lemma isdigit_simps [simp]:
  "\<not> c_isdigit SPC" "\<not> c_isdigit NL" "\<not> c_isdigit NUL" "\<not> c_isdigit (CHR ''-'')"
  "\<not> c_isdigit (CHR ''+'')"
  by (simp_all add: c_isdigit_def)

text \<open>The contents of a buffer as a C string: what stands before the first zero.\<close>

definition c_str :: "char list \<Rightarrow> string" where
  "c_str buf = takeWhile (\<lambda>c. c \<noteq> NUL) buf"

definition no_nul :: "string \<Rightarrow> bool" where
  "no_nul s = list_all (\<lambda>c. c \<noteq> NUL) s"

lemma c_str_append [simp]: "no_nul s \<Longrightarrow> c_str (s @ NUL # t) = s"
  unfolding c_str_def no_nul_def by (rule takeWhile_all_append) auto

section \<open>Comparison and copying\<close>

text \<open>\<open>strncmp(a, b, n) == 0\<close>, and \<open>strncpy(d, s, n); d[n] = 0\<close> for a buffer of more than
  \<open>n\<close> characters.\<close>

definition strncmp_eq :: "string \<Rightarrow> string \<Rightarrow> nat \<Rightarrow> bool" where
  "strncmp_eq a b n = (take n a = take n b)"

definition strncpy0 :: "string \<Rightarrow> nat \<Rightarrow> string" where
  "strncpy0 s n = take n s"

text \<open>\<open>snprintf(d, n, ...)\<close> keeps \<open>n - 1\<close> characters of what it prints.\<close>

definition snprintf :: "nat \<Rightarrow> string \<Rightarrow> string" where
  "snprintf n s = take (n - 1) s"

lemma length_strncpy0 [simp]: "length (strncpy0 s n) = min (length s) n"
  by (simp add: strncpy0_def)

lemma snprintf_id: "length s < n \<Longrightarrow> snprintf n s = s"
  by (simp add: snprintf_def)

section \<open>Printing decimals: the \<open>%d\<close> and \<open>%ld\<close> conversions\<close>

definition digit_char :: "nat \<Rightarrow> char" where
  "digit_char d = char_of (48 + d)"

definition digit_val :: "char \<Rightarrow> nat" where
  "digit_val c = of_char c - 48"

fun show_nat :: "nat \<Rightarrow> string" where
  "show_nat n = (if n < 10 then [digit_char n] else show_nat (n div 10) @ [digit_char (n mod 10)])"

declare show_nat.simps [simp del]

definition show_int :: "int \<Rightarrow> string" where
  "show_int i = (if i < 0 then CHR ''-'' # show_nat (nat (- i)) else show_nat (nat i))"

definition dec_val :: "string \<Rightarrow> nat" where
  "dec_val ds = foldl (\<lambda>a c. a * 10 + digit_val c) 0 ds"

lemma of_char_digit_char: "d < 10 \<Longrightarrow> of_char (digit_char d) = (48 + d :: nat)"
  by (simp add: digit_char_def of_char_of take_bit_nat_eq_self)

lemma digit_char_simps [simp]:
  "d < 10 \<Longrightarrow> c_isdigit (digit_char d)"
  "d < 10 \<Longrightarrow> digit_val (digit_char d) = d"
  by (simp_all add: c_isdigit_def digit_val_def of_char_digit_char)

lemma show_nat_digits: "list_all c_isdigit (show_nat n)"
proof (induction n rule: show_nat.induct)
  case (1 n)
  then show ?case by (subst show_nat.simps) simp
qed

lemma show_nat_nonempty [simp]: "show_nat n \<noteq> []"
  by (subst show_nat.simps) simp

lemma show_nat_hd_digit: "c_isdigit (hd (show_nat n))"
  using show_nat_digits [of n] by (cases "show_nat n") (auto dest: show_nat_nonempty [THEN notE])

lemma dec_val_snoc: "dec_val (ds @ [c]) = dec_val ds * 10 + digit_val c"
  by (simp add: dec_val_def)

lemma dec_val_show_nat [simp]: "dec_val (show_nat n) = n"
proof (induction n rule: show_nat.induct)
  case (1 n)
  show ?case
  proof (cases "n < 10")
    case True
    then show ?thesis by (subst show_nat.simps) (simp add: dec_val_def)
  next
    case False
    with 1 show ?thesis by (subst show_nat.simps) (simp add: dec_val_snoc)
  qed
qed

lemma length_show_nat: "0 < k \<Longrightarrow> n < 10 ^ k \<Longrightarrow> length (show_nat n) \<le> k"
proof (induction k arbitrary: n)
  case 0
  then show ?case by simp
next
  case (Suc k)
  show ?case
  proof (cases "n < 10")
    case True
    then show ?thesis by (subst show_nat.simps) simp
  next
    case False
    with Suc.prems have "k \<noteq> 0" and "n div 10 < 10 ^ k"
      by (auto simp: less_mult_imp_div_less mult.commute intro!: Nat.gr0I)
    with Suc.IH [of "n div 10"] False show ?thesis by (subst show_nat.simps) simp
  qed
qed

lemma show_int_nonempty [simp]: "show_int i \<noteq> []"
  by (simp add: show_int_def)

lemma length_show_int:
  assumes "INT_MIN \<le> i" and "i \<le> INT_MAX"
  shows "length (show_int i) \<le> 11"
proof -
  have "nat \<bar>i\<bar> < 10 ^ 10" using assms by (simp add: int_limits)
  then have "length (show_nat (nat \<bar>i\<bar>)) \<le> 10" by (intro length_show_nat) simp_all
  then show ?thesis by (auto simp: show_int_def split: if_splits)
qed

section \<open>Reading decimals\<close>

text \<open>
  What \<open>strtol\<close>, \<open>strtoul\<close> and \<open>%d\<close> have in common: white space, a sign, at least one digit.
  The result is the sign, the magnitude, and what follows the digits.
\<close>

definition scan_sign :: "string \<Rightarrow> bool \<times> string" where
  "scan_sign t = (case t of
      [] \<Rightarrow> (False, [])
    | c # cs \<Rightarrow> if c = CHR ''-'' then (True, cs) else if c = CHR ''+'' then (False, cs)
                else (False, t))"

definition scan_num :: "string \<Rightarrow> (bool \<times> nat \<times> string) option" where
  "scan_num s =
     (let (neg, u) = scan_sign (dropWhile c_isspace s);
          ds = takeWhile c_isdigit u
      in if ds = [] then None else Some (neg, dec_val ds, dropWhile c_isdigit u))"

text \<open>\<open>strtol(s, &end, 10)\<close>: the value and the string at \<open>end\<close>, which is \<open>s\<close> itself when no
  digits were found; a value out of range is clamped.\<close>

definition strtol :: "string \<Rightarrow> int \<times> string" where
  "strtol s = (case scan_num s of
      None \<Rightarrow> (0, s)
    | Some (neg, m, r) \<Rightarrow> (clamp_long (if neg then - int m else int m), r))"

text \<open>\<open>strtoul\<close> accepts a minus sign too, and negates in the unsigned type.\<close>

definition strtoul :: "string \<Rightarrow> int \<times> string" where
  "strtoul s = (case scan_num s of
      None \<Rightarrow> (0, s)
    | Some (neg, m, r) \<Rightarrow>
        (if ULONG_MAX < int m then ULONG_MAX
         else if neg then (- int m) mod 2 ^ 64 else int m, r))"

definition atol :: "string \<Rightarrow> int" where "atol s = fst (strtol s)"
definition atoi :: "string \<Rightarrow> int" where "atoi s = int32 (fst (strtol s))"

text \<open>One \<open>%d\<close> of a scanf, and a format of \<open>n\<close> of them: the values assigned before the first
  conversion that fails, so that the length of the list is what scanf returns (a scanf
  that assigns nothing returns 0 or EOF, which no caller tells apart).\<close>

definition scan_d :: "string \<Rightarrow> (int \<times> string) option" where
  "scan_d s = (case scan_num s of
      None \<Rightarrow> None
    | Some (neg, m, r) \<Rightarrow> Some (int32 (clamp_long (if neg then - int m else int m)), r))"

fun sscanf_d :: "nat \<Rightarrow> string \<Rightarrow> int list" where
  "sscanf_d 0 s = []"
| "sscanf_d (Suc n) s = (case scan_d s of None \<Rightarrow> [] | Some (v, r) \<Rightarrow> v # sscanf_d n r)"

text \<open>One \<open>%ns\<close>: white space is skipped, then up to \<open>n\<close> characters that are not white space.\<close>

definition scan_s :: "nat \<Rightarrow> string \<Rightarrow> (string \<times> string) option" where
  "scan_s n s =
     (let t = dropWhile c_isspace s; w = take n (takeWhile (\<lambda>c. \<not> c_isspace c) t)
      in if w = [] then None else Some (w, drop (length w) t))"

lemma scan_num_show_int:
  assumes "r = [] \<or> \<not> c_isdigit (hd r)"
  shows "scan_num (show_int i @ r) = Some (i < 0, nat \<bar>i\<bar>, r)"
proof -
  have tw: "takeWhile c_isdigit (show_nat n @ r) = show_nat n"
           "dropWhile c_isdigit (show_nat n @ r) = r" for n
    using takeWhile_all_append [OF show_nat_digits assms] by auto
  have hd: "\<exists>c cs. show_nat n = c # cs \<and> c_isdigit c" for n
    using show_nat_hd_digit [of n] by (cases "show_nat n") auto
  show ?thesis
  proof (cases "i < 0")
    case True
    then show ?thesis
      by (simp add: scan_num_def show_int_def scan_sign_def tw)
  next
    case False
    obtain c cs where c: "show_nat (nat i) = c # cs" "c_isdigit c" using hd by blast
    then have "scan_sign (dropWhile c_isspace (show_nat (nat i) @ r)) = (False, show_nat (nat i) @ r)"
      by (auto simp: scan_sign_def isdigit_not_space)
    with False show ?thesis by (simp add: scan_num_def show_int_def tw)
  qed
qed

text \<open>White space before a number does not change what is read.\<close>

lemma scan_num_space [simp]: "c_isspace c \<Longrightarrow> scan_num (c # s) = scan_num s"
  by (simp add: scan_num_def)

text \<open>Printing and reading are inverse: the round trips for \<open>%d\<close> and \<open>strtol\<close>.\<close>

lemma scan_d_show_int:
  assumes "INT_MIN \<le> i" and "i \<le> INT_MAX" and "r = [] \<or> \<not> c_isdigit (hd r)"
  shows "scan_d (show_int i @ r) = Some (i, r)"
  using assms by (auto simp: scan_d_def scan_num_show_int int_simps)

lemma strtol_show_int:
  assumes "LONG_MIN \<le> i" and "i \<le> LONG_MAX" and "r = [] \<or> \<not> c_isdigit (hd r)"
  shows "strtol (show_int i @ r) = (i, r)"
  using assms by (auto simp: strtol_def scan_num_show_int int_simps)

lemma show_int_inj: "show_int i = show_int j \<Longrightarrow> i = j"
proof -
  assume eq: "show_int i = show_int j"
  have "scan_num (show_int k) = Some (k < 0, nat \<bar>k\<bar>, [])" for k
    using scan_num_show_int [of "[]" k] by simp
  then have "(i < 0) = (j < 0)" and "nat \<bar>i\<bar> = nat \<bar>j\<bar>"
    using arg_cong [OF eq, of scan_num] by simp_all
  then show "i = j" by arith
qed

lemma strtol_range: "LONG_MIN \<le> fst (strtol s)" "fst (strtol s) \<le> LONG_MAX"
  using clamp_long_range by (simp_all add: strtol_def int_limits split: option.split prod.split)

section \<open>Tokens: \<open>strtok_r\<close> with the delimiter " "\<close>

text \<open>The token, or \<open>None\<close> for a null pointer, and the string at the saved position.\<close>

definition strtok_r :: "string \<Rightarrow> string option \<times> string" where
  "strtok_r s =
     (let t = dropWhile (\<lambda>c. c = SPC) s
      in if t = [] then (None, [])
         else (Some (takeWhile (\<lambda>c. c \<noteq> SPC) t), drop 1 (dropWhile (\<lambda>c. c \<noteq> SPC) t)))"

text \<open>\<open>n\<close> calls in a row, each from where the last one stopped.\<close>

fun strtoks :: "nat \<Rightarrow> string \<Rightarrow> string option list" where
  "strtoks 0 s = []"
| "strtoks (Suc n) s = (let (t, save) = strtok_r s in t # strtoks n save)"

lemma length_strtoks [simp]: "length (strtoks n s) = n"
  by (induction n arbitrary: s) (auto simp: split_beta Let_def)

lemma strtok_r_Some:
  assumes "strtok_r s = (Some t, r)"
  shows "t \<noteq> []" and "SPC \<notin> set t"
proof -
  let ?u = "dropWhile (\<lambda>c. c = SPC) s"
  from assms have u: "?u \<noteq> []" and t: "t = takeWhile (\<lambda>c. c \<noteq> SPC) ?u"
    by (auto simp: strtok_r_def Let_def split: if_splits)
  from u have "hd ?u \<noteq> SPC" by (rule hd_dropWhile)
  with u show "t \<noteq> []" by (cases ?u) (simp_all add: t)
  show "SPC \<notin> set t" by (auto simp: t dest: set_takeWhileD)
qed

lemma strtok_r_word:
  assumes "w \<noteq> []" and "SPC \<notin> set w"
  shows "strtok_r (w @ SPC # s) = (Some w, s)" and "strtok_r w = (Some w, [])"
proof -
  have d: "dropWhile (\<lambda>c. c = SPC) (w @ x) = w @ x" for x
    using assms by (cases w) auto
  have a: "list_all (\<lambda>c. c \<noteq> SPC) w" using assms by (auto simp: list_all_iff)
  show "strtok_r (w @ SPC # s) = (Some w, s)"
    using assms takeWhile_all_append [OF a, of "SPC # s"] by (simp add: strtok_r_def d)
  show "strtok_r w = (Some w, [])"
    using assms d [of "[]"] a
    by (simp add: strtok_r_def list_all_iff takeWhile_eq_all_conv [THEN iffD2]
        dropWhile_eq_Nil_conv [THEN iffD2])
qed

end
