(* ===== verification/Fifo.thy ===== *)
theory Fifo
  imports CLib Errors
begin

text \<open>
  \<open>misc/src/fifo.c\<close>: the names of the two FIFOs of a client, the in-place normalisation of
  white space, and the loops that read from and write to a pipe around the system calls
  \<open>read\<close> and \<open>write\<close>.

  The kernel's side of a pipe is a list of events, the outcomes of the system calls to
  come, so that every behaviour of the kernel over finitely many calls is one list: a
  loop that needs more events than there are has not returned yet, and its result is
  \<open>None\<close>.
\<close>

section \<open>FIFO names\<close>

datatype FifoType = C2S | S2C

definition FIFO_MAX_NAME :: nat where "FIFO_MAX_NAME = 64"
definition MAX_USERNAME_LEN :: nat where "MAX_USERNAME_LEN = 32"
definition MAX_RPC_BUF_LEN :: nat where "MAX_RPC_BUF_LEN = 128"

definition set_name :: "FifoType \<Rightarrow> int \<Rightarrow> string" where
  "set_name type pid = (case type of
      C2S \<Rightarrow> snprintf FIFO_MAX_NAME (''FIFO_C2S_'' @ show_int pid)
    | S2C \<Rightarrow> snprintf FIFO_MAX_NAME (''FIFO_S2C_'' @ show_int pid))"

text \<open>A \<open>pid_t\<close> is an \<open>int\<close>, whose decimals take at most 11 characters: nothing is cut off.\<close>

lemma set_name_full:
  assumes "INT_MIN \<le> pid" and "pid \<le> INT_MAX"
  shows "set_name type pid = (case type of C2S \<Rightarrow> ''FIFO_C2S_'' | S2C \<Rightarrow> ''FIFO_S2C_'') @ show_int pid"
  using length_show_int [OF assms] by (cases type) (simp_all add: set_name_def FIFO_MAX_NAME_def snprintf_id)

lemma set_name_inj:
  assumes "INT_MIN \<le> p" "p \<le> INT_MAX" "INT_MIN \<le> q" "q \<le> INT_MAX"
  shows "set_name t p = set_name u q \<longleftrightarrow> t = u \<and> p = q"
  using assms by (cases t; cases u) (auto simp: set_name_full dest: show_int_inj)

section \<open>\<open>sanitise_whitespace\<close>\<close>

text \<open>
  The loop of the source, over the buffer and its two indices: every read of \<open>str[read]\<close>
  and write of \<open>str[write]\<close> is checked against the length of the buffer.
\<close>

function sanitise_loop :: "char list \<Rightarrow> nat \<Rightarrow> nat \<Rightarrow> bool \<Rightarrow> char list res" where
  "sanitise_loop str r w in_ws =
     (if r < length str then
        let c = str ! r in
        if c = NUL then poke str w NUL
        else if c_isspace c then sanitise_loop str (Suc r) w True
        else if in_ws \<and> 0 < w then
          and_then (poke str w SPC) (\<lambda>str1.
          and_then (poke str1 (Suc w) c) (\<lambda>str2.
            sanitise_loop str2 (Suc r) (Suc (Suc w)) False))
        else
          and_then (poke str w c) (\<lambda>str1. sanitise_loop str1 (Suc r) (Suc w) False)
      else Inl OutOfBounds)"
  by pat_completeness auto
termination
  by (relation "measure (\<lambda>(str, r, w, in_ws). length str - r)") (auto dest!: length_poke)

declare sanitise_loop.simps [simp del]

definition sanitise_whitespace :: "char list \<Rightarrow> char list res" where
  "sanitise_whitespace str = sanitise_loop str 0 0 False"

text \<open>
  The reference: the words of the string, separated by single spaces. \<open>words cur s\<close> splits
  \<open>s\<close> at white space, \<open>cur\<close> being the word that is open where \<open>s\<close> starts.
\<close>

fun words :: "string \<Rightarrow> string \<Rightarrow> string list" where
  "words cur [] = (if cur = [] then [] else [cur])"
| "words cur (c # cs) =
     (if c_isspace c then (if cur = [] then words [] cs else cur # words [] cs)
      else words (cur @ [c]) cs)"

fun unwords :: "string list \<Rightarrow> string" where
  "unwords [] = []"
| "unwords [w] = w"
| "unwords (w # ws) = w @ SPC # unwords ws"

definition normal :: "string \<Rightarrow> string" where
  "normal s = unwords (words [] s)"

definition is_word :: "string \<Rightarrow> bool" where
  "is_word w \<longleftrightarrow> w \<noteq> [] \<and> list_all (\<lambda>c. \<not> c_isspace c) w"

text \<open>
  The same as a transducer, one character at a time, as the loop does it: \<open>started\<close> is
  \<open>write > 0\<close>.
\<close>

fun collapse :: "bool \<Rightarrow> bool \<Rightarrow> string \<Rightarrow> string" where
  "collapse started ws [] = []"
| "collapse started ws (c # cs) =
     (if c_isspace c then collapse started True cs
      else if ws \<and> started then SPC # c # collapse True False cs
      else c # collapse True False cs)"

lemma unwords_cons: "unwords (w # ws) = (if ws = [] then w else w @ SPC # unwords ws)"
  by (cases ws) auto

lemma words_open: "cur \<noteq> [] \<Longrightarrow> \<exists>w ws. words cur s = (cur @ w) # ws"
proof (induction s arbitrary: cur)
  case (Cons c cs)
  then show ?case using Cons.IH [of "cur @ [c]"] by auto
qed simp

lemma unwords_words:
  "cur \<noteq> [] \<Longrightarrow> unwords (words cur s) = cur @ collapse True False s"
  "unwords (words [] s) = collapse False ws s"
  "collapse True True s = (if words [] s = [] then [] else SPC # unwords (words [] s))"
proof (induction s arbitrary: cur ws)
  case Nil
  { case 1 then show ?case by simp next
    case 2 then show ?case by simp next
    case 3 then show ?case by simp }
next
  case (Cons c cs)
  { case 1
    then show ?case using Cons.IH(1) [of "cur @ [c]"] Cons.IH(3)
      by (auto simp: unwords_cons)
  next
    case 2
    show ?case using Cons.IH(1) [of "[c]"] Cons.IH(2) by auto
  next
    case 3
    show ?case using Cons.IH(1) [of "[c]"] Cons.IH(3) words_open [of "[c]" cs] by auto }
qed

lemma normal_collapse: "normal s = collapse False False s"
  by (simp add: normal_def unwords_words(2))

text \<open>
  The loop, started anywhere: \<open>s\<close> is what is left to read and \<open>w\<close> never passes the read
  index, so no unread character is overwritten and no access leaves the buffer.
\<close>

lemma sanitise_loop_collapse:
  assumes "drop r str = s @ NUL # rest" and "no_nul s"
    and "w \<le> r" and "in_ws \<and> 0 < w \<Longrightarrow> w < r"
  shows "\<exists>t. sanitise_loop str r w in_ws = Inr (take w str @ collapse (0 < w) in_ws s @ NUL # t)
    \<and> length (take w str @ collapse (0 < w) in_ws s @ NUL # t) = length str
    \<and> (\<exists>u. t = u @ rest)"
  using assms
proof (induction s arbitrary: str r w in_ws)
  case Nil
  then have d: "drop r str = NUL # rest" by simp
  note r = drop_ConsD [OF d]
  have "str[w := NUL] = take w str @ NUL # drop (Suc w) str"
    using Nil.prems(3) r(1) by (intro upd_conv_take_nth_drop) simp
  moreover have "\<exists>u. drop (Suc w) str = u @ rest"
    using drop_suffix [of "Suc w" "Suc r" str] Nil.prems(3) r(3) by simp
  ultimately show ?case
    using r Nil.prems(3) by (subst sanitise_loop.simps) (auto simp: min_def)
next
  case (Cons c cs)
  then have dr: "drop r str = c # cs @ NUL # rest" by simp
  note r = drop_ConsD(1) [OF dr] and c = drop_ConsD(2) [OF dr] and d = drop_ConsD(3) [OF dr]
  from Cons.prems(2) have nn: "c \<noteq> NUL" "no_nul cs" by (auto simp: no_nul_def)
  consider (space) "c_isspace c" | (gap) "\<not> c_isspace c" "in_ws" "0 < w" |
    (word) "\<not> c_isspace c" "\<not> (in_ws \<and> 0 < w)" by blast
  then show ?case
  proof cases
    case space
    with Cons.IH [OF d nn(2), of w True] Cons.prems(3) r c nn show ?thesis
      by (subst sanitise_loop.simps) auto
  next
    case gap
    with Cons.prems have "w < r" by blast
    define str2 where "str2 = str[w := SPC, Suc w := c]"
    have "drop (Suc r) str2 = cs @ NUL # rest" using d \<open>w < r\<close> by (simp add: str2_def)
    moreover have "take (Suc (Suc w)) str2 = take w str @ [SPC, c]"
      using \<open>w < r\<close> r by (simp add: str2_def take_list_update_snoc)
    ultimately show ?thesis
      using Cons.IH [of "Suc r" str2 "Suc (Suc w)" False] gap \<open>w < r\<close> r c nn
      by (subst sanitise_loop.simps) (auto simp: str2_def)
  next
    case word
    define str1 where "str1 = str[w := c]"
    have "drop (Suc r) str1 = cs @ NUL # rest" using d Cons.prems(3) by (simp add: str1_def)
    moreover have "take (Suc w) str1 = take w str @ [c]"
      using Cons.prems(3) r by (simp add: str1_def take_list_update_snoc)
    ultimately show ?thesis
      using Cons.IH [of "Suc r" str1 "Suc w" False] word Cons.prems(3) r c nn
      by (subst sanitise_loop.simps) (auto simp: str1_def)
  qed
qed

lemma sanitise_normal:
  assumes "no_nul s"
  shows "\<exists>t. sanitise_whitespace (s @ NUL # rest) = Inr (normal s @ NUL # t)
    \<and> length (normal s @ NUL # t) = length (s @ NUL # rest) \<and> (\<exists>u. t = u @ rest)"
  using sanitise_loop_collapse [of 0 "s @ NUL # rest" s rest 0 False] assms
  by (simp add: sanitise_whitespace_def normal_collapse)

lemma words_is_word: "list_all (\<lambda>c. \<not> c_isspace c) cur \<Longrightarrow> list_all is_word (words cur s)"
  by (induction cur s rule: words.induct) (auto simp: is_word_def)

lemma words_word: "list_all (\<lambda>c. \<not> c_isspace c) w \<Longrightarrow> words cur (w @ s) = words (cur @ w) s"
  by (induction w arbitrary: cur) auto

lemma words_unwords: "list_all is_word ws \<Longrightarrow> words [] (unwords ws) = ws"
proof (induction ws)
  case (Cons w ws)
  then have w: "w \<noteq> []" "list_all (\<lambda>c. \<not> c_isspace c) w" by (auto simp: is_word_def)
  show ?case
    using Cons words_word [OF w(2), of "[]" "[]"] words_word [OF w(2), of "[]" "SPC # unwords ws"] w
    by (auto simp: unwords_cons)
qed simp

lemma words_normal [simp]: "words [] (normal s) = words [] s"
  unfolding normal_def by (rule words_unwords) (rule words_is_word, simp)

lemma normal_idem [simp]: "normal (normal s) = normal s"
  using words_normal [of s] by (simp add: normal_def)

lemma length_collapse: "length (collapse st ws s) \<le> length s + (if ws \<and> st then 1 else 0)"
  by (induction st ws s rule: collapse.induct) (auto split: if_splits)

lemma length_normal: "length (normal s) \<le> length s"
  using length_collapse [of False False s] by (simp add: normal_collapse)

lemma set_collapse: "set (collapse st ws s) \<subseteq> set s \<union> {SPC}"
  by (induction st ws s rule: collapse.induct) auto

lemma no_nul_normal [simp]: "no_nul s \<Longrightarrow> no_nul (normal s)"
  using set_collapse [of False False s] by (auto simp: normal_collapse no_nul_def list_all_iff)

text \<open>The tokens a handler takes from a normalised request are its words.\<close>

lemma is_word_token: "is_word w \<Longrightarrow> w \<noteq> [] \<and> SPC \<notin> set w"
  by (auto simp: is_word_def list_all_iff)

lemma strtok_r_Nil [simp]: "strtok_r [] = (None, [])"
  by (simp add: strtok_r_def)

lemma strtoks_Nil [simp]: "strtoks n [] = replicate n None"
  by (induction n) auto

lemma strtoks_unwords:
  "list_all is_word ws \<Longrightarrow>
   strtoks n (unwords ws) = map Some (take n ws) @ replicate (n - length ws) None"
proof (induction ws arbitrary: n)
  case (Cons w ws)
  note w = is_word_token [of w]
  show ?case
  proof (cases n)
    case (Suc m)
    with Cons w show ?thesis
      by (auto simp: unwords_cons strtok_r_word)
  qed simp
qed simp

section \<open>Properties\<close>

text \<open>
  C24: the in-place loop of \<open>sanitise_whitespace\<close> never reads or writes outside the
  buffer, never overwrites a character it has not read, and leaves in the buffer the
  words of the string separated by single spaces, terminated; the memory after the old
  terminator is untouched.
\<close>
theorem sanitise_refines_normal:
  assumes "no_nul s"
  shows "\<exists>buf. sanitise_whitespace (s @ NUL # rest) = Inr buf
    \<and> c_str buf = unwords (words [] s)
    \<and> length buf = length (s @ NUL # rest)
    \<and> drop (Suc (length s)) buf = rest"
proof -
  obtain t u where t: "sanitise_whitespace (s @ NUL # rest) = Inr (normal s @ NUL # t)"
    and len: "length (normal s @ NUL # t) = length (s @ NUL # rest)" and u: "t = u @ rest"
    using sanitise_normal [OF assms, of rest] by blast
  have "normal s @ NUL # t = (normal s @ NUL # u) @ rest"
    and "length (normal s @ NUL # u) = Suc (length s)"
    using len u by simp_all
  then have "drop (Suc (length s)) (normal s @ NUL # t) = rest" by (metis append_eq_conv_conj)
  with t len show ?thesis using assms by (simp add: normal_def [symmetric])
qed

theorem sanitise_refines_normal_witness:
  "no_nul [SPC, CHR ''a'', NL, SPC, CHR ''b'', NL] \<and>
   (\<exists>buf. sanitise_whitespace ([SPC, CHR ''a'', NL, SPC, CHR ''b'', NL] @ NUL # [CHR ''z'']) = Inr buf
    \<and> c_str buf = [CHR ''a'', SPC, CHR ''b''])"
proof -
  have h: "no_nul [SPC, CHR ''a'', NL, SPC, CHR ''b'', NL]" by (simp add: no_nul_def)
  have "unwords (words [] [SPC, CHR ''a'', NL, SPC, CHR ''b'', NL]) = [CHR ''a'', SPC, CHR ''b'']"
    by (simp add: c_isspace_def)
  with sanitise_refines_normal [OF h, of "[CHR ''z'']"] h show ?thesis by auto
qed

text \<open>
  normalising twice is normalising once, the result is never longer than the input,
  and \<open>strtok_r\<close> takes from a normalised line exactly its words, then null pointers.
\<close>
theorem normal_tokens:
  "normal (normal s) = normal s \<and> length (normal s) \<le> length s
   \<and> strtoks n (normal s) = map Some (take n (words [] s)) @ replicate (n - length (words [] s)) None"
  using strtoks_unwords [of "words [] s" n] words_is_word [of "[]" s]
  by (simp add: length_normal) (simp add: normal_def)

text \<open>
  the names of the FIFOs of distinct clients, and of the two directions of one client,
  are distinct: no client can be handed the pipe of another one.
\<close>
theorem set_name_injective:
  assumes "INT_MIN \<le> p" "p \<le> INT_MAX" "INT_MIN \<le> q" "q \<le> INT_MAX"
  shows "set_name t p = set_name u q \<longleftrightarrow> t = u \<and> p = q"
  using assms by (rule set_name_inj)

theorem set_name_injective_witness:
  "INT_MIN \<le> 12 \<and> (123::int) \<le> INT_MAX \<and> set_name C2S 12 \<noteq> set_name C2S 123"
proof -
  have h: "INT_MIN \<le> 12" "12 \<le> INT_MAX" "INT_MIN \<le> 123" "123 \<le> INT_MAX"
    by (simp_all add: int_limits)
  from set_name_injective [OF h, of C2S C2S] h show ?thesis by simp
qed

end
