(* ===== verification/Pipe.thy ===== *)
theory Pipe
  imports Fifo
begin

text \<open>
  The pipe loops of \<open>misc/src/fifo.c\<close>. The kernel's side of a descriptor is a list of
  events, one per system call to come (a chunk of data may serve several reads), so every
  behaviour of the kernel over finitely many calls is one list. A loop that needs
  more events than there are has not returned yet: its result is \<open>None\<close>.
\<close>

section \<open>System calls\<close>

datatype errno = EINTR | EAGAIN | EPIPE | ENXIO | EOTHER

text \<open>\<open>Accept k\<close>: the kernel takes up to \<open>k\<close> bytes of what it is given. \<open>Data bs\<close>: the bytes
  \<open>bs\<close> are there to read; \<open>Eof\<close>: every writer has closed its end.\<close>

datatype wr_event = Accept nat | WrErr errno
datatype rd_event = Data string | Eof | RdErr errno
datatype rd_result = RdBytes string | RdFail errno

fun sys_read :: "nat \<Rightarrow> rd_event list \<Rightarrow> (rd_result \<times> rd_event list) option" where
  "sys_read n [] = None"
| "sys_read n (Data bs # es) =
     (if bs = [] then sys_read n es
      else Some (RdBytes (take n bs), if n < length bs then Data (drop n bs) # es else es))"
| "sys_read n (Eof # es) = Some (RdBytes [], es)"
| "sys_read n (RdErr e # es) = Some (RdFail e, es)"

text \<open>How many reads a list of events can serve at most.\<close>

fun ev_size :: "rd_event list \<Rightarrow> nat" where
  "ev_size [] = 0"
| "ev_size (Data bs # es) = Suc (length bs) + ev_size es"
| "ev_size (Eof # es) = Suc (ev_size es)"
| "ev_size (RdErr e # es) = Suc (ev_size es)"

lemma sys_read_size:
  "sys_read n es = Some (r, es') \<Longrightarrow> 0 < n \<Longrightarrow> ev_size es' < ev_size es"
  by (induction n es rule: sys_read.induct) (auto split: if_splits)

lemma sys_read_length: "sys_read n es = Some (RdBytes bs, es') \<Longrightarrow> length bs \<le> n"
  by (induction n es rule: sys_read.induct) (auto split: if_splits)

section \<open>Writing\<close>

text \<open>
  The results hold how many bytes had been written when the loop returned: the pipe has
  received \<open>take n buf\<close>, whatever is returned.
\<close>

fun write_nonblock_loop ::
  "nat \<Rightarrow> string \<Rightarrow> wr_event list \<Rightarrow> (ErrType \<times> nat \<times> wr_event list) option" where
  "write_nonblock_loop n buf evs =
     (if n < length buf then
        (case evs of
           [] \<Rightarrow> None
         | Accept k # es \<Rightarrow>
             if 0 < k then write_nonblock_loop (n + min k (length buf - n)) buf es
             else Some (PIPE_WRITE_FAIL, n, es)
         | WrErr e # es \<Rightarrow>
             if e = EINTR then write_nonblock_loop n buf es
             else if e = EPIPE then Some (PIPE_CLOSED, n, es)
             else if e = EAGAIN then Some (if n = 0 then PIPE_FULL else PIPE_PARTIAL, n, es)
             else Some (PIPE_WRITE_FAIL, n, es))
      else Some (SUCCESS, n, evs))"

fun write_block_loop ::
  "nat \<Rightarrow> string \<Rightarrow> wr_event list \<Rightarrow> (ErrType \<times> nat \<times> wr_event list) option" where
  "write_block_loop n buf evs =
     (if n < length buf then
        (case evs of
           [] \<Rightarrow> None
         | Accept k # es \<Rightarrow>
             if 0 < k then write_block_loop (n + min k (length buf - n)) buf es
             else Some (PIPE_WRITE_FAIL, n, es)
         | WrErr e # es \<Rightarrow>
             if e = EINTR then write_block_loop n buf es
             else if e = EPIPE then Some (PIPE_CLOSED, n, es)
             else Some (PIPE_WRITE_FAIL, n, es))
      else Some (SUCCESS, n, evs))"

declare write_nonblock_loop.simps [simp del] write_block_loop.simps [simp del]

definition write_nonblock_pipe ::
  "string \<Rightarrow> wr_event list \<Rightarrow> (ErrType \<times> nat \<times> wr_event list) option" where
  "write_nonblock_pipe buf evs = write_nonblock_loop 0 buf evs"

definition write_block_pipe ::
  "string \<Rightarrow> wr_event list \<Rightarrow> (ErrType \<times> nat \<times> wr_event list) option" where
  "write_block_pipe buf evs = write_block_loop 0 buf evs"

section \<open>Reading\<close>

text \<open>\<open>acc\<close> is the buffer up to \<open>n_read\<close>.\<close>

function read_nonblock_loop ::
  "nat \<Rightarrow> string \<Rightarrow> rd_event list \<Rightarrow> (ErrType \<times> string \<times> rd_event list) option" where
  "read_nonblock_loop n_target acc evs =
     (if length acc < n_target then
        (case sys_read (n_target - length acc) evs of
           None \<Rightarrow> None
         | Some (RdBytes bs, es) \<Rightarrow>
             if bs \<noteq> [] then read_nonblock_loop n_target (acc @ bs) es
             else Some (PIPE_CLOSED, acc, es)
         | Some (RdFail e, es) \<Rightarrow>
             if e = EINTR then read_nonblock_loop n_target acc es
             else if e = EAGAIN then Some (if acc = [] then PIPE_EMPTY else PIPE_PARTIAL, acc, es)
             else Some (PIPE_READ_FAIL, acc, es))
      else Some (SUCCESS, acc, evs))"
  by pat_completeness auto
termination
  by (relation "measure (\<lambda>(n, acc, evs). ev_size evs)") (auto dest: sys_read_size)

definition read_nonblock_pipe ::
  "nat \<Rightarrow> rd_event list \<Rightarrow> (ErrType \<times> string \<times> rd_event list) option" where
  "read_nonblock_pipe n_target evs = read_nonblock_loop n_target [] evs"

function read_delim_loop ::
  "nat \<Rightarrow> char \<Rightarrow> string \<Rightarrow> rd_event list \<Rightarrow> (ErrType \<times> string \<times> rd_event list) option" where
  "read_delim_loop maxlen delim acc evs =
     (if length acc < sz_pred maxlen then
        (case sys_read 1 evs of
           None \<Rightarrow> None
         | Some (RdBytes [], es) \<Rightarrow> Some (PIPE_CLOSED, acc, es)
         | Some (RdBytes (c # cs), es) \<Rightarrow>
             if c = delim then Some (SUCCESS, acc, es)
             else read_delim_loop maxlen delim (acc @ [c]) es
         | Some (RdFail e, es) \<Rightarrow>
             if e = EAGAIN then Some (PIPE_EMPTY, acc, es)
             else if e = EINTR then read_delim_loop maxlen delim acc es
             else Some (PIPE_READ_FAIL, acc, es))
      else Some (SUCCESS, acc, evs))"
  by pat_completeness auto
termination
  by (relation "measure (\<lambda>(m, d, acc, evs). ev_size evs)") (auto dest: sys_read_size)

declare read_nonblock_loop.simps [simp del] read_delim_loop.simps [simp del]

text \<open>
  On \<open>SUCCESS\<close> the string is the contents of the buffer, terminated, and its length is
  \<open>*out_len\<close>; on any other code it is what was read into the buffer and is lost, since
  neither the terminator nor \<open>*out_len\<close> is written.
\<close>

definition read_until_delim ::
  "nat \<Rightarrow> char \<Rightarrow> rd_event list \<Rightarrow> (ErrType \<times> string \<times> rd_event list) option" where
  "read_until_delim maxlen delim evs = read_delim_loop maxlen delim [] evs"

section \<open>Blobs\<close>

text \<open>Bytes of an integer in memory, least significant first.\<close>

fun le_bytes :: "nat \<Rightarrow> nat \<Rightarrow> string" where
  "le_bytes 0 n = []"
| "le_bytes (Suc k) n = char_of (n mod 256) # le_bytes k (n div 256)"

fun le_val :: "string \<Rightarrow> nat" where
  "le_val [] = 0"
| "le_val (c # cs) = of_char c + 256 * le_val cs"

text \<open>The length goes out as a \<open>size_t\<close> of 8 bytes and comes in as a \<open>uint32_t\<close> of 4.\<close>

definition write_blob :: "string \<Rightarrow> wr_event list \<Rightarrow> (ErrType \<times> string \<times> wr_event list) option" where
  "write_blob buf evs =
     (case write_block_pipe (le_bytes 8 (length buf)) evs of
        None \<Rightarrow> None
      | Some (ret, n, es) \<Rightarrow>
          if ret \<noteq> SUCCESS then Some (ret, take n (le_bytes 8 (length buf)), es)
          else (case write_block_pipe buf es of
                  None \<Rightarrow> None
                | Some (ret2, n2, es2) \<Rightarrow>
                    Some (ret2, le_bytes 8 (length buf) @ take n2 buf, es2)))"

definition read_blob :: "nat \<Rightarrow> rd_event list \<Rightarrow> (ErrType \<times> string \<times> rd_event list) option" where
  "read_blob maxlen evs =
     (case read_nonblock_pipe 4 evs of
        None \<Rightarrow> None
      | Some (ret, bs, es) \<Rightarrow>
          if ret \<noteq> SUCCESS then Some (ret, [], es)
          else if maxlen \<le> le_val bs then Some (PIPE_PARTIAL, [], es)
          else read_nonblock_pipe (le_val bs) es)"

section \<open>What the write loops return\<close>

lemma write_block_loop_result:
  "write_block_loop n buf evs = Some (r, m, es) \<Longrightarrow> n \<le> length buf \<Longrightarrow>
   n \<le> m \<and> m \<le> length buf \<and> (r = SUCCESS \<longleftrightarrow> m = length buf)
   \<and> r \<in> {SUCCESS, PIPE_CLOSED, PIPE_WRITE_FAIL}"
proof (induction evs arbitrary: n)
  case Nil
  then show ?case by (subst (asm) write_block_loop.simps) (simp split: if_splits)
next
  case (Cons ev evs)
  note step = Cons.prems(1) [unfolded write_block_loop.simps [of n buf "ev # evs"]]
  show ?case
  proof (cases ev)
    case (Accept k)
    have "n + min k (length buf - n) \<le> length buf" using Cons.prems(2) by simp
    with Accept step Cons.prems(2) Cons.IH [of "n + min k (length buf - n)"] show ?thesis
      by (auto split: if_splits)
  next
    case (WrErr e)
    with step Cons.prems(2) Cons.IH [of n] show ?thesis by (auto split: if_splits)
  qed
qed

lemma write_nonblock_loop_result:
  "write_nonblock_loop n buf evs = Some (r, m, es) \<Longrightarrow> n \<le> length buf \<Longrightarrow>
   n \<le> m \<and> m \<le> length buf \<and> (r = SUCCESS \<longleftrightarrow> m = length buf)
   \<and> (r = PIPE_FULL \<longrightarrow> m = 0) \<and> (r = PIPE_PARTIAL \<longrightarrow> 0 < m)
   \<and> r \<in> {SUCCESS, PIPE_CLOSED, PIPE_WRITE_FAIL, PIPE_FULL, PIPE_PARTIAL}"
proof (induction evs arbitrary: n)
  case Nil
  then show ?case by (subst (asm) write_nonblock_loop.simps) (simp split: if_splits)
next
  case (Cons ev evs)
  note step = Cons.prems(1) [unfolded write_nonblock_loop.simps [of n buf "ev # evs"]]
  show ?case
  proof (cases ev)
    case (Accept k)
    have "n + min k (length buf - n) \<le> length buf" using Cons.prems(2) by simp
    with Accept step Cons.prems(2) Cons.IH [of "n + min k (length buf - n)"] show ?thesis
      by (auto split: if_splits)
  next
    case (WrErr e)
    with step Cons.prems(2) Cons.IH [of n] show ?thesis by (auto split: if_splits)
  qed
qed

text \<open>How often the kernel takes at least one byte before it reports an error other than
  an interruption.\<close>

fun accepts :: "wr_event list \<Rightarrow> nat" where
  "accepts [] = 0"
| "accepts (Accept k # es) = (if 0 < k then Suc (accepts es) else 0)"
| "accepts (WrErr e # es) = (if e = EINTR then accepts es else 0)"

lemma write_block_loop_enough:
  "n \<le> length buf \<Longrightarrow> length buf - n \<le> accepts evs \<Longrightarrow>
   \<exists>es. write_block_loop n buf evs = Some (SUCCESS, length buf, es)"
proof (induction evs arbitrary: n rule: accepts.induct)
  case 1
  then show ?case by (subst write_block_loop.simps) simp
next
  case (2 k es)
  show ?case
  proof (cases "n < length buf")
    case True
    with "2.prems" have k: "0 < k" by (auto split: if_splits)
    with True "2.prems" have "\<exists>es'. write_block_loop (n + min k (length buf - n)) buf es
        = Some (SUCCESS, length buf, es')"
      by (intro "2.IH") auto
    with True k show ?thesis by (subst write_block_loop.simps) simp
  next
    case False
    with "2.prems" show ?thesis by (subst write_block_loop.simps) simp
  qed
next
  case (3 e es)
  show ?case
  proof (cases "n < length buf")
    case True
    with "3.prems" have e: "e = EINTR" by (auto split: if_splits)
    with True "3.prems" have "\<exists>es'. write_block_loop n buf es = Some (SUCCESS, length buf, es')"
      by (intro "3.IH") auto
    with True e show ?thesis by (subst write_block_loop.simps) simp
  next
    case False
    with "3.prems" show ?thesis by (subst write_block_loop.simps) simp
  qed
qed

section \<open>What the read loops return\<close>

text \<open>The bytes that reads can deliver before the first event that is neither data nor an
  interruption.\<close>

fun avail :: "rd_event list \<Rightarrow> string" where
  "avail [] = []"
| "avail (Data bs # es) = bs @ avail es"
| "avail (RdErr e # es) = (if e = EINTR then avail es else [])"
| "avail (Eof # es) = []"

lemma sys_read_avail:
  assumes "avail evs \<noteq> []" and "0 < n"
  shows "(\<exists>bs es. sys_read n evs = Some (RdBytes bs, es) \<and> bs \<noteq> [] \<and> avail evs = bs @ avail es)
       \<or> (\<exists>es. sys_read n evs = Some (RdFail EINTR, es) \<and> avail evs = avail es)"
  using assms
proof (induction n evs rule: sys_read.induct)
  case (2 n bs es)
  then show ?case by (cases "bs = []") (auto simp flip: append_assoc)
qed (auto split: if_splits)

lemma read_delim_loop_step:
  assumes "avail evs = c # cs" and "length acc < sz_pred maxlen"
  shows "\<exists>es. ev_size es < ev_size evs \<and>
    (avail es = cs \<and> read_delim_loop maxlen delim acc evs
       = (if c = delim then Some (SUCCESS, acc, es) else read_delim_loop maxlen delim (acc @ [c]) es)
     \<or> avail es = c # cs \<and> read_delim_loop maxlen delim acc evs = read_delim_loop maxlen delim acc es)"
proof -
  from sys_read_avail [of evs 1] assms(1)
  consider (bytes) bs es where "sys_read 1 evs = Some (RdBytes bs, es)" "bs \<noteq> []" "c # cs = bs @ avail es"
    | (intr) es where "sys_read 1 evs = Some (RdFail EINTR, es)" "avail es = c # cs"
    by auto
  then show ?thesis
  proof cases
    case bytes
    with sys_read_length [OF bytes(1)] have "bs = [c]" "avail es = cs"
      by (cases bs; auto)+
    with bytes sys_read_size [OF bytes(1)] assms(2) show ?thesis
      by (intro exI [of _ es]) (subst read_delim_loop.simps, simp)
  next
    case intr
    with sys_read_size [OF intr(1)] assms(2) show ?thesis
      by (intro exI [of _ es]) (subst read_delim_loop.simps, simp)
  qed
qed

lemma read_delim_loop_found:
  "avail evs = msg @ delim # rest \<Longrightarrow> delim \<notin> set msg \<Longrightarrow> length acc + length msg < sz_pred maxlen \<Longrightarrow>
   \<exists>es. read_delim_loop maxlen delim acc evs = Some (SUCCESS, acc @ msg, es) \<and> avail es = rest"
proof (induction "ev_size evs" arbitrary: evs msg acc rule: less_induct)
  case less
  show ?case
  proof (cases msg)
    case Nil
    with less.prems read_delim_loop_step [of evs delim rest acc maxlen delim]
      less.hyps [of _ "[]" acc] show ?thesis by force
  next
    case (Cons c cs)
    with less.prems read_delim_loop_step [of evs c "cs @ delim # rest" acc maxlen delim]
      less.hyps [of _ msg acc] less.hyps [of _ cs "acc @ [c]"] show ?thesis by force
  qed
qed

lemma read_delim_loop_full:
  "avail evs = msg @ rest \<Longrightarrow> delim \<notin> set msg \<Longrightarrow> length acc + length msg = sz_pred maxlen \<Longrightarrow>
   \<exists>es. read_delim_loop maxlen delim acc evs = Some (SUCCESS, acc @ msg, es) \<and> avail es = rest"
proof (induction "ev_size evs" arbitrary: evs msg acc rule: less_induct)
  case less
  show ?case
  proof (cases msg)
    case Nil
    with less.prems show ?thesis by (subst read_delim_loop.simps) simp
  next
    case (Cons c cs)
    with less.prems read_delim_loop_step [of evs c "cs @ rest" acc maxlen delim]
      less.hyps [of _ msg acc] less.hyps [of _ cs "acc @ [c]"] show ?thesis by force
  qed
qed

lemma read_delim_loop_bound:
  "read_delim_loop maxlen delim acc evs = Some (r, s, es) \<Longrightarrow> length acc \<le> sz_pred maxlen \<Longrightarrow>
   delim \<notin> set acc \<Longrightarrow> length s \<le> sz_pred maxlen \<and> delim \<notin> set s"
proof (induction "ev_size evs" arbitrary: acc evs rule: less_induct)
  case less
  note step = less.prems(1) [unfolded read_delim_loop.simps [of maxlen delim acc evs]]
  have IH: "ev_size es' < ev_size evs \<Longrightarrow> read_delim_loop maxlen delim acc' es' = Some (r, s, es) \<Longrightarrow>
    length acc' \<le> sz_pred maxlen \<Longrightarrow> delim \<notin> set acc' \<Longrightarrow>
    length s \<le> sz_pred maxlen \<and> delim \<notin> set s" for acc' es'
    using less.hyps by blast
  show ?case
  proof (cases "length acc < sz_pred maxlen")
    case True
    note split = option.splits rd_result.splits list.splits if_splits prod.splits
    from True step sys_read_size [of 1 evs]
    consider "s = acc"
      | c es' where "ev_size es' < ev_size evs" "c \<noteq> delim"
          "read_delim_loop maxlen delim (acc @ [c]) es' = Some (r, s, es)"
      | es' where "ev_size es' < ev_size evs" "read_delim_loop maxlen delim acc es' = Some (r, s, es)"
      by (auto split: split)
    then show ?thesis
    proof cases
      case (2 c es')
      with IH [of es' "acc @ [c]"] True less.prems(3) show ?thesis by simp
    next
      case (3 es')
      with IH [of es' acc] less.prems(2,3) show ?thesis by simp
    qed (use less.prems in simp)
  next
    case False
    with step less.prems show ?thesis by auto
  qed
qed

lemma read_delim_loop_again:
  "delim \<notin> set part \<Longrightarrow> length acc + length part < sz_pred maxlen \<Longrightarrow> part \<noteq> [] \<Longrightarrow>
   read_delim_loop maxlen delim acc (Data part # RdErr EAGAIN # es) = Some (PIPE_EMPTY, acc @ part, es)"
proof (induction part arbitrary: acc)
  case (Cons c cs)
  show ?case
  proof (cases cs)
    case Nil
    with Cons.prems show ?thesis
      by (subst read_delim_loop.simps, simp) (subst read_delim_loop.simps, simp)
  next
    case (Cons d ds)
    with Cons.prems Cons.IH [of "acc @ [c]"] show ?thesis
      by (subst read_delim_loop.simps) auto
  qed
qed simp

lemma le_val_bytes: "n < 256 ^ k \<Longrightarrow> le_val (le_bytes k n) = n"
proof (induction k arbitrary: n)
  case (Suc k)
  then have "n div 256 < 256 ^ k" by (auto intro: less_mult_imp_div_less simp: mult.commute)
  with Suc.IH show ?case by (simp add: of_char_of take_bit_nat_def)
qed simp

lemma le_bytes_add: "le_bytes (k + l) n = le_bytes k n @ le_bytes l (n div 256 ^ k)"
  by (induction k arbitrary: n) (simp_all add: div_mult2_eq)

lemma le_bytes_zero: "le_bytes k 0 = replicate k NUL"
  by (induction k) (simp_all add: char_of_def)

lemma length_le_bytes [simp]: "length (le_bytes k n) = k"
  by (induction k arbitrary: n) auto

lemma le_bytes_8_4: "n < 2 ^ 32 \<Longrightarrow> le_bytes 8 n = le_bytes 4 n @ replicate 4 NUL"
  using le_bytes_add [of 4 4 n] le_bytes_zero [of 4] by simp

lemma read_nonblock_pipe_data:
  "n \<noteq> 0 \<Longrightarrow> n \<le> length bs \<Longrightarrow>
   read_nonblock_pipe n (Data bs # es) =
     Some (SUCCESS, take n bs, if n < length bs then Data (drop n bs) # es else es)"
  unfolding read_nonblock_pipe_def
  by (subst read_nonblock_loop.simps, subst read_nonblock_loop.simps) auto

section \<open>Properties\<close>

text \<open>
  whatever the kernel does, \<open>write_block_pipe\<close> reports \<open>SUCCESS\<close> exactly when every
  byte has been written, and has written a prefix of the buffer in every other case.
\<close>
theorem write_block_pipe_exact:
  assumes "write_block_pipe buf evs = Some (r, n, es)"
  shows "n \<le> length buf \<and> (r = SUCCESS \<longleftrightarrow> take n buf = buf)
    \<and> r \<in> {SUCCESS, PIPE_CLOSED, PIPE_WRITE_FAIL}"
  using write_block_loop_result [of 0 buf evs r n es] assms
  by (auto simp: write_block_pipe_def)

theorem write_block_pipe_exact_witness:
  "write_block_pipe ''abc'' [Accept 2, WrErr EINTR, WrErr EPIPE] = Some (PIPE_CLOSED, 2, [])
   \<and> take 2 ''abc'' \<noteq> ''abc''"
proof -
  have h: "write_block_pipe ''abc'' [Accept 2, WrErr EINTR, WrErr EPIPE] = Some (PIPE_CLOSED, 2, [])"
    by (simp add: write_block_pipe_def write_block_loop.simps)
  from write_block_pipe_exact [OF h] h show ?thesis by simp
qed

text \<open>
  C26: the loop returns: when the kernel takes at least one byte in as many calls as the
  buffer is long, however interrupted, the write succeeds and nothing is left unwritten.
\<close>
theorem write_block_pipe_completes:
  assumes "length buf \<le> accepts evs"
  shows "\<exists>es. write_block_pipe buf evs = Some (SUCCESS, length buf, es)"
  using write_block_loop_enough [of 0 buf evs] assms by (simp add: write_block_pipe_def)

theorem write_block_pipe_completes_witness:
  "\<exists>es. write_block_pipe ''ab'' [WrErr EINTR, Accept 1, WrErr EINTR, Accept 1] = Some (SUCCESS, 2, es)"
  using write_block_pipe_completes [of "''ab''" "[WrErr EINTR, Accept 1, WrErr EINTR, Accept 1]"]
  by (simp add: numeral_2_eq_2)

text \<open>
  C25: a line written with its delimiter is the line that is read, however the kernel cuts
  the bytes into chunks and interrupts the calls, as long as it fits the buffer; what
  follows it stays in the pipe.
\<close>
theorem line_roundtrip:
  assumes sent: "write_block_pipe (msg @ [delim]) wevs = Some (SUCCESS, n, wes)"
    and wire: "avail revs = take n (msg @ [delim]) @ rest"
    and "delim \<notin> set msg" and "length msg + 1 < maxlen" and "maxlen < 2 ^ 64"
  shows "\<exists>es. read_until_delim maxlen delim revs = Some (SUCCESS, msg, es) \<and> avail es = rest"
proof -
  from write_block_loop_result [of 0 "msg @ [delim]" wevs SUCCESS n wes] sent
  have "n = length (msg @ [delim])" by (simp add: write_block_pipe_def)
  with wire have "avail revs = msg @ delim # rest" by simp
  from read_delim_loop_found [OF this, of "[]" maxlen] assms show ?thesis
    by (simp add: read_until_delim_def)
qed

theorem line_roundtrip_witness:
  "\<exists>es. read_until_delim 128 NL [Data ''h'', RdErr EINTR, Data (''i'' @ [NL] @ ''x'')]
     = Some (SUCCESS, ''hi'', es) \<and> avail es = ''x''"
proof (rule line_roundtrip)
  show "write_block_pipe (''hi'' @ [NL]) [Accept 1, WrErr EINTR, Accept 9] = Some (SUCCESS, 3, [])"
    by (simp add: write_block_pipe_def write_block_loop.simps)
qed simp_all

text \<open>
  C27: whatever is in the pipe, a line that is read has at most \<open>maxlen - 1\<close> characters, so
  that its terminator is inside the buffer, and never holds the delimiter.
\<close>
theorem read_until_delim_bound:
  assumes "read_until_delim maxlen delim evs = Some (r, s, es)" and "0 < maxlen" and "maxlen < 2 ^ 64"
  shows "length s < maxlen \<and> delim \<notin> set s"
  using read_delim_loop_bound [of maxlen delim "[]" evs r s es] assms
  by (auto simp: read_until_delim_def)

theorem read_until_delim_bound_witness:
  "read_until_delim 3 NL [Data ''abcd''] = Some (SUCCESS, ''ab'', [Data ''cd'']) \<and> length ''ab'' < 3"
proof -
  have h: "read_until_delim 3 NL [Data ''abcd''] = Some (SUCCESS, ''ab'', [Data ''cd''])"
    by (simp add: read_until_delim_def read_delim_loop.simps)
  from read_until_delim_bound [OF h] h show ?thesis by simp
qed

text \<open>
  a line that arrives in two pieces is lost in part. When the pipe runs dry before the
  delimiter, \<open>read_until_delim\<close> returns \<open>PIPE_EMPTY\<close> and the piece it has consumed is
  gone: the next call returns the second piece as if it were the whole line.
\<close>
theorem read_until_delim_loses_partial_line:
  assumes "delim \<notin> set part" "delim \<notin> set more" "part \<noteq> []"
    and "length part + 1 < maxlen" "length more + 1 < maxlen" "maxlen < 2 ^ 64"
  shows "\<exists>es. read_until_delim maxlen delim (Data part # RdErr EAGAIN # Data (more @ [delim]) # later)
             = Some (PIPE_EMPTY, part, es)
    \<and> (\<exists>es2. read_until_delim maxlen delim es = Some (SUCCESS, more, es2) \<and> avail es2 = avail later)"
proof -
  let ?es = "Data (more @ [delim]) # later"
  have "read_until_delim maxlen delim (Data part # RdErr EAGAIN # ?es) = Some (PIPE_EMPTY, part, ?es)"
    using read_delim_loop_again [of delim part "[]" maxlen ?es] assms by (simp add: read_until_delim_def)
  moreover have "\<exists>es2. read_until_delim maxlen delim ?es = Some (SUCCESS, more, es2) \<and> avail es2 = avail later"
    using read_delim_loop_found [of ?es more delim "avail later" "[]" maxlen] assms
    by (simp add: read_until_delim_def)
  ultimately show ?thesis by blast
qed

theorem read_until_delim_loses_partial_line_witness:
  "\<exists>es. read_until_delim 128 NL (Data ''destroy_'' # RdErr EAGAIN # Data (''canvas 1'' @ [NL]) # [])
        = Some (PIPE_EMPTY, ''destroy_'', es)
    \<and> (\<exists>es2. read_until_delim 128 NL es = Some (SUCCESS, ''canvas 1'', es2) \<and> avail es2 = avail [])"
  by (rule read_until_delim_loses_partial_line) simp_all

text \<open>
  \<open>write_block_pipe\<close> on a descriptor that is not blocking gives up as soon as the pipe
  is full: it returns \<open>PIPE_WRITE_FAIL\<close> with part of the message already in the pipe.
\<close>
theorem write_block_pipe_full:
  assumes "0 < k" and "k < length buf"
  shows "write_block_pipe buf (Accept k # WrErr EAGAIN # es) = Some (PIPE_WRITE_FAIL, k, es)"
  unfolding write_block_pipe_def
  by (subst write_block_loop.simps, subst write_block_loop.simps) (use assms in auto)

theorem write_block_pipe_full_witness:
  "write_block_pipe ''0 12'' [Accept 1, WrErr EAGAIN] = Some (PIPE_WRITE_FAIL, 1, [])"
  by (rule write_block_pipe_full) simp_all

text \<open>
  \<open>read_blob\<close> does not read what \<open>write_blob\<close> writes: the length is sent in 8 bytes and
  read from 4, so the reader takes the other four, which are zero, for the start of the
  data, and loses the last four bytes.
\<close>
theorem blob_length_mismatch:
  assumes "write_blob buf wevs = Some (SUCCESS, wire, wes)"
    and "buf \<noteq> []" and "length buf < 2 ^ 32" and "length buf < maxlen"
  shows "\<exists>es. read_blob maxlen [Data wire]
     = Some (SUCCESS, take (length buf) (replicate 4 NUL @ buf), es)"
proof -
  from assms(1) obtain n2 es where wire: "wire = le_bytes 8 (length buf) @ take n2 buf"
    and "write_block_pipe buf es = Some (SUCCESS, n2, wes)"
    by (auto simp: write_blob_def split: option.splits if_splits)
  then have "take n2 buf = buf" using write_block_loop_result [of 0 buf es SUCCESS n2 wes]
    by (simp add: write_block_pipe_def)
  with wire have w: "wire = le_bytes 4 (length buf) @ replicate 4 NUL @ buf"
    using le_bytes_8_4 [OF assms(3)] by simp
  have "read_nonblock_pipe 4 [Data wire] = Some (SUCCESS, le_bytes 4 (length buf), [Data (replicate 4 NUL @ buf)])"
    using read_nonblock_pipe_data [of 4 wire "[]"] w by simp
  moreover have "le_val (le_bytes 4 (length buf)) = length buf"
    using assms(3) by (intro le_val_bytes) simp
  ultimately show ?thesis
    using assms(2,4) read_nonblock_pipe_data [of "length buf" "replicate 4 NUL @ buf" "[]"]
    by (simp add: read_blob_def)
qed

theorem blob_length_mismatch_witness:
  "\<exists>es. read_blob 64 [Data (le_bytes 8 (length ''hello'') @ ''hello'')]
     = Some (SUCCESS, take (length ''hello'') (replicate 4 NUL @ ''hello''), es)"
proof (rule blob_length_mismatch)
  show "write_blob ''hello'' [Accept 8, Accept 5] = Some (SUCCESS, le_bytes 8 (length ''hello'') @ ''hello'', [])"
    by (simp add: write_blob_def write_block_pipe_def write_block_loop.simps)
qed simp_all

end
