(* ===== verification/Animate.thy ===== *)
theory Animate
  imports Prelude
begin

text \<open>
  The library \<open>libanimate\<close>, which is not part of the repository: a record of functions over
  a library state of any type, one for each entry point the server calls, so that every
  definition that calls the library takes it as an argument and every theorem holds
  for all libraries. A pointer the library returns is an \<open>addr option\<close>; \<open>None\<close> is the null pointer.
  The conversions of the numeric arguments to the library's own types are the library's.
\<close>

record 'l animate =
  create_canvas :: "int \<Rightarrow> int \<Rightarrow> int \<Rightarrow> 'l \<Rightarrow> addr option \<times> 'l"
  destroy_canvas :: "addr option \<Rightarrow> 'l \<Rightarrow> 'l"
  create_sprite :: "string \<Rightarrow> 'l \<Rightarrow> addr option \<times> 'l"
  create_rectangle :: "int \<Rightarrow> int \<Rightarrow> int \<Rightarrow> bool \<Rightarrow> 'l \<Rightarrow> addr option \<times> 'l"
  create_circle :: "int \<Rightarrow> int \<Rightarrow> bool \<Rightarrow> 'l \<Rightarrow> addr option \<times> 'l"
  destroy_sprite :: "addr option \<Rightarrow> 'l \<Rightarrow> int \<times> 'l"
  place_sprite :: "addr \<Rightarrow> addr \<Rightarrow> int \<Rightarrow> int \<Rightarrow> 'l \<Rightarrow> addr option \<times> 'l"
  placement_up :: "addr \<Rightarrow> 'l \<Rightarrow> 'l"
  placement_down :: "addr \<Rightarrow> 'l \<Rightarrow> 'l"
  placement_top :: "addr \<Rightarrow> 'l \<Rightarrow> 'l"
  placement_bottom :: "addr \<Rightarrow> 'l \<Rightarrow> 'l"
  destroy_placement :: "addr option \<Rightarrow> 'l \<Rightarrow> 'l"
  set_animation_params :: "addr \<Rightarrow> int \<Rightarrow> int \<Rightarrow> int \<Rightarrow> int \<Rightarrow> 'l \<Rightarrow> 'l"
  frame_size_bytes :: "addr \<Rightarrow> 'l \<Rightarrow> nat"
  generate_frame :: "addr \<Rightarrow> nat \<Rightarrow> nat \<Rightarrow> 'l \<Rightarrow> string \<times> 'l"

text \<open>
  A concrete library for the witnesses: it logs its calls and hands out a new pointer each
  time, the number of calls made so far.
\<close>

datatype lib_call =
    CreateCanvas int int int | DestroyCanvas "addr option" | CreateSprite string
  | CreateRectangle int int int bool | CreateCircle int int bool | DestroySprite "addr option"
  | PlaceSprite addr addr int int | PlacementUp addr | PlacementDown addr | PlacementTop addr
  | PlacementBottom addr | DestroyPlacement "addr option"
  | SetAnimationParams addr int int int int | GenerateFrame addr nat nat

definition log_new :: "lib_call \<Rightarrow> lib_call list \<Rightarrow> addr option \<times> lib_call list" where
  "log_new c l = (Some (length l), l @ [c])"

definition log_lib :: "lib_call list animate" where
  "log_lib = \<lparr>
     create_canvas = (\<lambda>h w c. log_new (CreateCanvas h w c)),
     destroy_canvas = (\<lambda>p l. l @ [DestroyCanvas p]),
     create_sprite = (\<lambda>f. log_new (CreateSprite f)),
     create_rectangle = (\<lambda>w h c f. log_new (CreateRectangle w h c f)),
     create_circle = (\<lambda>r c f. log_new (CreateCircle r c f)),
     destroy_sprite = (\<lambda>p l. (0, l @ [DestroySprite p])),
     place_sprite = (\<lambda>c s x y. log_new (PlaceSprite c s x y)),
     placement_up = (\<lambda>p l. l @ [PlacementUp p]),
     placement_down = (\<lambda>p l. l @ [PlacementDown p]),
     placement_top = (\<lambda>p l. l @ [PlacementTop p]),
     placement_bottom = (\<lambda>p l. l @ [PlacementBottom p]),
     destroy_placement = (\<lambda>p l. l @ [DestroyPlacement p]),
     set_animation_params = (\<lambda>p vx vy ax ay l. l @ [SetAnimationParams p vx vy ax ay]),
     frame_size_bytes = (\<lambda>p l. 4),
     generate_frame = (\<lambda>p i r l. (''abcd'', l @ [GenerateFrame p i r])) \<rparr>"

end
