(* ===== verification/ObjectTable.thy ===== *)
theory ObjectTable
  imports Animate
begin

text \<open>
  \<open>server/src/object_table.c\<close>: the three tables of the objects the clients create, each a
  growing array with a count and a capacity. An object is named by its index; removing it
  clears the library's pointer and keeps the entry, so that ids are never reused.
\<close>

section \<open>Entries and tables\<close>

definition MAX_CLIENTS :: nat where "MAX_CLIENTS = 64"
definition INITIAL_CAPACITY :: int where "INITIAL_CAPACITY = 64"

record CanvasEntry =
  cv_ptr :: "addr option"
  canvas_id :: int
  cv_width :: int
  cv_height :: int
  cv_owner :: "addr option"
  cv_shared :: "addr option list"
  shared_count :: nat
  barrier_pending :: "bool list"
  barrier_waiting :: int

record SpriteEntry =
  sp_ptr :: "addr option"
  sprite_id :: int
  sp_owner :: "addr option"

text \<open>\<open>pl_canvas\<close> is a pointer into the array of canvases, kept as the index of the entry.\<close>

record PlacementEntry =
  pl_ptr :: "addr option"
  placement_id :: int
  pl_owner :: "addr option"
  pl_canvas :: nat

text \<open>
  The array is \<open>None\<close> when its pointer is null, and its cells are \<open>None\<close> as long as they
  have not been written: \<open>realloc\<close> leaves new memory uninitialised.
\<close>

record 'e table =
  arr :: "'e option list option"
  tcount :: int
  capacity :: int

record tables =
  CANVAS_TABLE :: "CanvasEntry table"
  SPRITE_TABLE :: "SpriteEntry table"
  PLACEMENT_TABLE :: "PlacementEntry table"

definition empty_table :: "'e table" where
  "empty_table = \<lparr>arr = None, tcount = 0, capacity = 0\<rparr>"

definition tables_init :: tables where
  "tables_init = \<lparr>CANVAS_TABLE = empty_table, SPRITE_TABLE = empty_table,
                  PLACEMENT_TABLE = empty_table\<rparr>"

text \<open>The sizes of the entries on an LP64 target.\<close>

definition sizeof_CanvasEntry :: int where "sizeof_CanvasEntry = 616"
definition sizeof_SpriteEntry :: int where "sizeof_SpriteEntry = 24"
definition sizeof_PlacementEntry :: int where "sizeof_PlacementEntry = 32"

section \<open>Operations\<close>

text \<open>
  \<open>alloc n\<close> says whether the memory has \<open>n\<close> bytes left; \<open>realloc\<close> refuses any request of more
  than \<open>PTRDIFF_MAX\<close> bytes. The size is computed in \<open>int\<close> and converted to \<open>size_t\<close>; the array
  has as many cells as fit.
\<close>

definition realloc_ok :: "(nat \<Rightarrow> bool) \<Rightarrow> nat \<Rightarrow> bool" where
  "realloc_ok alloc n \<longleftrightarrow> n < 2 ^ 63 \<and> alloc n"

definition resize :: "nat \<Rightarrow> 'e option list option \<Rightarrow> 'e option list" where
  "resize n old = (let a = (case old of None \<Rightarrow> [] | Some a \<Rightarrow> a)
                   in take n a @ replicate (n - length a) None)"

definition grow_array ::
  "(nat \<Rightarrow> bool) \<Rightarrow> 'e option list option \<Rightarrow> int \<Rightarrow> int \<Rightarrow> ('e option list \<times> int) option" where
  "grow_array alloc old elem_size cap =
     (let newcap = int32 (if cap = 0 then INITIAL_CAPACITY else cap * 2);
          bytes = nat (int32 (newcap * elem_size) mod 2 ^ 64)
      in if realloc_ok alloc bytes then Some (resize (bytes div nat elem_size) old, newcap) else None)"

text \<open>The entry at a pointer into the array, and a write through it.\<close>

definition entry :: "'e table \<Rightarrow> nat \<Rightarrow> 'e res" where
  "entry T i = (case arr T of None \<Rightarrow> Inl NullDeref
     | Some a \<Rightarrow> and_then (peek a i) (\<lambda>c. case c of None \<Rightarrow> Inl Uninitialised | Some e \<Rightarrow> Inr e))"

definition set_entry :: "'e table \<Rightarrow> nat \<Rightarrow> 'e \<Rightarrow> 'e table res" where
  "set_entry T i e = (case arr T of None \<Rightarrow> Inl NullDeref
     | Some a \<Rightarrow> and_then (poke a i (Some e)) (\<lambda>a'. Inr (T\<lparr>arr := Some a'\<rparr>)))"

text \<open>
  The three insertions have the same text but for the fields of the entry: when the array
  is full it is grown, and a failure to grow overwrites the pointer to the array with null;
  otherwise the entry is written at the index \<open>count\<close>, which is the id returned.
\<close>

definition table_append :: "(int \<Rightarrow> 'e) \<Rightarrow> 'e table \<Rightarrow> (int \<times> 'e table) res" where
  "table_append mk T =
     (let id = tcount T
      in and_then (set_entry T (nat id) (mk id)) (\<lambda>T'. Inr (id, T'\<lparr>tcount := tcount T + 1\<rparr>)))"

definition table_insert ::
  "(nat \<Rightarrow> bool) \<Rightarrow> int \<Rightarrow> (int \<Rightarrow> 'e) \<Rightarrow> 'e table \<Rightarrow> (int \<times> 'e table) res" where
  "table_insert alloc elem_size mk T =
     (if tcount T = capacity T then
        (case grow_array alloc (arr T) elem_size (capacity T) of
           None \<Rightarrow> Inr (- 1, T\<lparr>arr := None\<rparr>)
         | Some (a, cap) \<Rightarrow> table_append mk (T\<lparr>arr := Some a, capacity := cap\<rparr>))
      else table_append mk T)"

definition new_canvas :: "addr option \<Rightarrow> addr \<Rightarrow> int \<Rightarrow> int \<Rightarrow> int \<Rightarrow> CanvasEntry" where
  "new_canvas ptr owner width height new_id =
     \<lparr>cv_ptr = ptr, canvas_id = new_id, cv_width = width, cv_height = height,
      cv_owner = Some owner, cv_shared = replicate MAX_CLIENTS None, shared_count = 0,
      barrier_pending = replicate MAX_CLIENTS False, barrier_waiting = 0\<rparr>"

definition canvas_insert ::
  "(nat \<Rightarrow> bool) \<Rightarrow> addr option \<Rightarrow> addr \<Rightarrow> int \<Rightarrow> int \<Rightarrow> CanvasEntry table
   \<Rightarrow> (int \<times> CanvasEntry table) res" where
  "canvas_insert alloc ptr owner width height =
     table_insert alloc sizeof_CanvasEntry (new_canvas ptr owner width height)"

definition sprite_insert ::
  "(nat \<Rightarrow> bool) \<Rightarrow> addr option \<Rightarrow> addr \<Rightarrow> SpriteEntry table \<Rightarrow> (int \<times> SpriteEntry table) res" where
  "sprite_insert alloc ptr owner =
     table_insert alloc sizeof_SpriteEntry
       (\<lambda>id. \<lparr>sp_ptr = ptr, sprite_id = id, sp_owner = Some owner\<rparr>)"

definition placement_insert ::
  "(nat \<Rightarrow> bool) \<Rightarrow> addr option \<Rightarrow> addr \<Rightarrow> nat \<Rightarrow> PlacementEntry table
   \<Rightarrow> (int \<times> PlacementEntry table) res" where
  "placement_insert alloc ptr owner canvas =
     table_insert alloc sizeof_PlacementEntry
       (\<lambda>id. \<lparr>pl_ptr = ptr, placement_id = id, pl_owner = Some owner, pl_canvas = canvas\<rparr>)"

text \<open>
  The lookups return \<open>&arr[id]\<close>, the index as a pointer. With a null array that is the null
  pointer for the index 0 only.
\<close>

definition table_lookup :: "int \<Rightarrow> 'e table \<Rightarrow> nat option" where
  "table_lookup n T =
     (if n < 0 \<or> tcount T \<le> n then None
      else if arr T = None \<and> n = 0 then None
      else Some (nat n))"

definition canvas_lookup :: "int \<Rightarrow> CanvasEntry table \<Rightarrow> nat option" where
  "canvas_lookup = table_lookup"

definition sprite_lookup :: "int \<Rightarrow> SpriteEntry table \<Rightarrow> nat option" where
  "sprite_lookup = table_lookup"

definition placement_lookup :: "int \<Rightarrow> PlacementEntry table \<Rightarrow> nat option" where
  "placement_lookup = table_lookup"

definition canvas_remove ::
  "'l animate \<Rightarrow> int \<Rightarrow> CanvasEntry table \<times> 'l \<Rightarrow> (CanvasEntry table \<times> 'l) res" where
  "canvas_remove lib n S = (case S of (T, l) \<Rightarrow>
     case canvas_lookup n T of
       None \<Rightarrow> Inr (T, l)
     | Some i \<Rightarrow> and_then (entry T i) (\<lambda>e.
         let l1 = destroy_canvas lib (cv_ptr e) l
         in and_then (set_entry T i (e\<lparr>cv_ptr := None\<rparr>)) (\<lambda>T1. Inr (T1, l1))))"

definition sprite_remove ::
  "'l animate \<Rightarrow> int \<Rightarrow> SpriteEntry table \<times> 'l \<Rightarrow> (int \<times> SpriteEntry table \<times> 'l) res" where
  "sprite_remove lib n S = (case S of (T, l) \<Rightarrow>
     case sprite_lookup n T of
       None \<Rightarrow> Inr (- 1, T, l)
     | Some i \<Rightarrow> and_then (entry T i) (\<lambda>e.
         let (ret, l1) = destroy_sprite lib (sp_ptr e) l
         in and_then (set_entry T i (e\<lparr>sp_ptr := None\<rparr>)) (\<lambda>T1. Inr (ret, T1, l1))))"

definition placement_remove ::
  "'l animate \<Rightarrow> int \<Rightarrow> PlacementEntry table \<times> 'l \<Rightarrow> (PlacementEntry table \<times> 'l) res" where
  "placement_remove lib n S = (case S of (T, l) \<Rightarrow>
     case placement_lookup n T of
       None \<Rightarrow> Inr (T, l)
     | Some i \<Rightarrow> and_then (entry T i) (\<lambda>e.
         let l1 = destroy_placement lib (pl_ptr e) l
         in and_then (set_entry T i (e\<lparr>pl_ptr := None\<rparr>)) (\<lambda>T1. Inr (T1, l1))))"

section \<open>Well-formed tables\<close>

definition cells :: "'e table \<Rightarrow> 'e option list" where
  "cells T = (case arr T of None \<Rightarrow> [] | Some a \<Rightarrow> a)"

text \<open>The objects in the table, by id.\<close>

definition items :: "'e table \<Rightarrow> 'e list" where
  "items T = map the (take (nat (tcount T)) (cells T))"

text \<open>
  A null array has no capacity; every cell below the count has been written; and the array
  was allocated with a size that is an \<open>int\<close>.
\<close>

definition table_wf :: "int \<Rightarrow> 'e table \<Rightarrow> bool" where
  "table_wf esize T \<longleftrightarrow> 0 \<le> tcount T \<and> tcount T \<le> capacity T
     \<and> capacity T * esize \<le> INT_MAX
     \<and> (arr T = None \<longrightarrow> capacity T = 0)
     \<and> length (cells T) = nat (capacity T)
     \<and> (\<forall>i < nat (tcount T). cells T ! i \<noteq> None)"

lemma table_wfD:
  assumes "table_wf esize T"
  shows "0 \<le> tcount T" "tcount T \<le> capacity T" "length (cells T) = nat (capacity T)"
    "arr T = None \<Longrightarrow> capacity T = 0" "capacity T * esize \<le> INT_MAX"
    "i < nat (tcount T) \<Longrightarrow> cells T ! i \<noteq> None"
  using assms by (auto simp: table_wf_def)

lemma table_wf_empty: "table_wf esize empty_table"
  by (simp add: table_wf_def empty_table_def cells_def int_limits)

lemma items_empty [simp]: "items empty_table = []"
  by (simp add: items_def empty_table_def)

lemma length_items: "table_wf esize T \<Longrightarrow> length (items T) = nat (tcount T)"
  using table_wfD [of esize T] by (simp add: items_def)

lemma items_nth: "table_wf esize T \<Longrightarrow> i < nat (tcount T) \<Longrightarrow> cells T ! i = Some (items T ! i)"
  using table_wfD [of esize T] by (auto simp: items_def)

text \<open>Reading and writing an entry of a well-formed table never faults.\<close>

lemma entry_wf: "table_wf esize T \<Longrightarrow> i < length (items T) \<Longrightarrow> entry T i = Inr (items T ! i)"
  using items_nth [of esize T i] table_wfD [of esize T]
  by (auto simp: entry_def length_items cells_def split: option.splits)

lemma set_entry_wf:
  assumes "table_wf esize T" and "i < length (items T)"
  shows "\<exists>T'. set_entry T i e = Inr T' \<and> table_wf esize T' \<and> items T' = (items T)[i := e]
           \<and> tcount T' = tcount T"
proof -
  have i: "i < nat (tcount T)" using assms length_items by metis
  then obtain a where a: "arr T = Some a" "length a = nat (capacity T)" "i < length a"
    using table_wfD [OF assms(1)] by (cases "arr T") (auto simp: cells_def)
  have wf: "table_wf esize (T\<lparr>arr := Some (a[i := Some e])\<rparr>)"
    using assms(1) a by (auto simp: table_wf_def cells_def nth_list_update)
  have "items (T\<lparr>arr := Some (a[i := Some e])\<rparr>) = (items T)[i := e]"
    using a by (simp add: items_def cells_def take_update_swap map_update)
  with wf a show ?thesis by (simp add: set_entry_def)
qed

lemma table_lookup_wf:
  "table_wf esize T \<Longrightarrow>
   table_lookup n T = (if 0 \<le> n \<and> n < int (length (items T)) then Some (nat n) else None)"
  using table_wfD [of esize T] by (auto simp: table_lookup_def length_items)

text \<open>
  Growing. The product of the new capacity and the size of an entry is an \<open>int\<close>, or it
  overflows to a negative number, which as a \<open>size_t\<close> is too large for \<open>realloc\<close>.
\<close>

lemma grow_array_Some:
  assumes wf: "table_wf esize T" and es: "2 \<le> esize" "esize \<le> 1000"
    and g: "grow_array alloc (arr T) esize (capacity T) = Some (a, cap)"
  shows "cap = (if capacity T = 0 then INITIAL_CAPACITY else 2 * capacity T)"
    and "a = cells T @ replicate (nat cap - length (cells T)) None"
    and "cap * esize \<le> INT_MAX" and "capacity T < cap"
proof -
  let ?new = "if capacity T = 0 then INITIAL_CAPACITY else 2 * capacity T"
  have cap0: "0 \<le> capacity T" and capm: "capacity T * esize \<le> INT_MAX"
    using table_wfD [OF wf] by auto
  have "capacity T * 2 \<le> capacity T * esize" using es cap0 by (intro mult_left_mono) auto
  with capm have "capacity T * 2 \<le> INT_MAX" by linarith
  with cap0 have "int32 (capacity T * 2) = 2 * capacity T"
    by (subst int32_id) (simp_all add: int_limits)
  moreover have "int32 INITIAL_CAPACITY = INITIAL_CAPACITY"
    by (simp add: int32_def INITIAL_CAPACITY_def)
  ultimately have new: "int32 (if capacity T = 0 then INITIAL_CAPACITY else capacity T * 2) = ?new"
    by simp
  have new_pos: "0 < ?new" "capacity T < ?new" using cap0 by (auto simp: INITIAL_CAPACITY_def)
  have prod_pos: "0 \<le> ?new * esize" using new_pos es by (intro mult_nonneg_nonneg) auto
  have prod_le: "?new * esize \<le> 2 * INT_MAX"
    using capm es by (auto simp: INITIAL_CAPACITY_def int_limits algebra_simps)
  have small: "?new * esize \<le> INT_MAX"
  proof (rule ccontr)
    assume big: "\<not> ?thesis"
    with prod_le have "int32 (?new * esize) = ?new * esize - 2 ^ 32"
      using int32_wrap [of "?new * esize - 2 ^ 32" 1] int32_id [of "?new * esize - 2 ^ 32"]
      by (simp add: int_limits)
    moreover have "(x - 2 ^ 32) mod 2 ^ 64 = x - 2 ^ 32 + 2 ^ 64" if "INT_MAX < x" "x \<le> 2 * INT_MAX" for x :: int
      using that mod_add_self2 [of "x - 2 ^ 32" "2 ^ 64"] by (simp add: int_limits)
    ultimately have "2 ^ 63 \<le> nat (int32 (?new * esize) mod 2 ^ 64)"
      using big prod_le by (simp add: int_limits)
    with g new show False by (simp add: grow_array_def Let_def realloc_ok_def split: if_splits)
  qed
  have "int32 (?new * esize) mod 2 ^ 64 = ?new * esize"
    using small prod_pos by (subst int32_id) (simp_all add: int_limits)
  moreover have "nat (?new * esize) div nat esize = nat ?new"
    using new_pos es by (simp add: nat_mult_distrib)
  ultimately have ga: "cap = ?new" "a = resize (nat ?new) (arr T)"
    using g new by (auto simp: grow_array_def Let_def split: if_splits)
  show "cap = ?new" by (fact ga(1))
  have "length (cells T) \<le> nat ?new" using table_wfD [OF wf] new_pos by simp
  with ga show "a = cells T @ replicate (nat cap - length (cells T)) None"
    by (auto simp: resize_def cells_def Let_def split: option.splits)
  show "cap * esize \<le> INT_MAX" and "capacity T < cap" using small new_pos ga by simp_all
qed

lemma table_append_wf:
  assumes "table_wf esize T" and "tcount T < capacity T"
  shows "\<exists>T'. table_append mk T = Inr (tcount T, T') \<and> table_wf esize T'
    \<and> items T' = items T @ [mk (tcount T)] \<and> tcount T' = tcount T + 1"
proof -
  note wf = table_wfD [OF assms(1)]
  from assms wf obtain a where a: "arr T = Some a" by (cases "arr T") auto
  let ?i = "nat (tcount T)" and ?e = "mk (tcount T)"
  have i: "?i < length a" using wf assms(2) a by (simp add: cells_def)
  let ?T = "T\<lparr>arr := Some (a[?i := Some ?e]), tcount := tcount T + 1\<rparr>"
  have app: "table_append mk T = Inr (tcount T, ?T)"
    using a i by (simp add: table_append_def set_entry_def Let_def)
  have "table_wf esize ?T"
    using assms wf a i by (auto simp: table_wf_def cells_def nth_list_update nat_add_distrib less_Suc_eq)
  moreover have "nat (tcount T + 1) = Suc ?i" using wf(1) by simp
  then have "items ?T = items T @ [?e]"
    using a i by (simp add: items_def cells_def take_list_update_snoc)
  ultimately show ?thesis using app by (intro exI [of _ ?T]) simp
qed

text \<open>
  An insertion into a well-formed table never faults. It returns the next free id and
  appends the entry, or returns -1 with the array gone, when memory is exhausted.
\<close>

lemma table_insert_cases:
  assumes wf: "table_wf esize T" and es: "2 \<le> esize" "esize \<le> 1000"
  shows "(\<exists>T'. table_insert alloc esize mk T = Inr (tcount T, T') \<and> table_wf esize T'
            \<and> items T' = items T @ [mk (tcount T)] \<and> tcount T' = tcount T + 1)
       \<or> (table_insert alloc esize mk T = Inr (- 1, T\<lparr>arr := None\<rparr>)
            \<and> tcount T = capacity T \<and> grow_array alloc (arr T) esize (capacity T) = None)"
proof (cases "tcount T = capacity T")
  case False
  with table_wfD(2) [OF wf] table_append_wf [OF wf, of mk] show ?thesis
    by (simp add: table_insert_def)
next
  case full: True
  show ?thesis
  proof (cases "grow_array alloc (arr T) esize (capacity T)")
    case None
    with full show ?thesis by (simp add: table_insert_def)
  next
    case (Some p)
    obtain a cap where p: "p = (a, cap)" by fastforce
    note g = grow_array_Some [OF wf es Some [unfolded p]]
    let ?T = "T\<lparr>arr := Some a, capacity := cap\<rparr>"
    have len: "length (cells T) = nat (tcount T)" using table_wfD(3) [OF wf] full by simp
    have "table_wf esize ?T"
      using wf g len full by (auto simp: table_wf_def cells_def nth_append)
    moreover have "items ?T = items T" using g(2) len by (simp add: items_def cells_def)
    ultimately show ?thesis
      using table_append_wf [of esize ?T mk] g(4) full Some p by (simp add: table_insert_def)
  qed
qed

section \<open>The interface of a table\<close>

text \<open>
  What the handlers rely on: ids are handed out in order, an id stays valid and keeps its
  entry whatever is inserted later, and reads and writes through a pointer that a lookup has returned do not
  fault. \<open>insert\<close> is only constrained when it succeeds.
\<close>

locale id_table =
  fixes wf :: "'t \<Rightarrow> bool"
    and list_of :: "'t \<Rightarrow> 'e list"
    and insert :: "'a \<Rightarrow> 't \<Rightarrow> (int \<times> 't) res"
    and mk :: "'a \<Rightarrow> int \<Rightarrow> 'e"
    and lookup :: "int \<Rightarrow> 't \<Rightarrow> nat option"
    and get :: "'t \<Rightarrow> nat \<Rightarrow> 'e res"
    and put :: "'t \<Rightarrow> nat \<Rightarrow> 'e \<Rightarrow> 't res"
  assumes insert_safe: "wf T \<Longrightarrow> ok (insert a T)"
    and insert_law: "wf T \<Longrightarrow> insert a T = Inr (n, T') \<Longrightarrow> 0 \<le> n \<Longrightarrow>
          wf T' \<and> n = int (length (list_of T)) \<and> list_of T' = list_of T @ [mk a n]"
    and lookup_law: "wf T \<Longrightarrow>
          lookup n T = (if 0 \<le> n \<and> n < int (length (list_of T)) then Some (nat n) else None)"
    and get_law: "wf T \<Longrightarrow> i < length (list_of T) \<Longrightarrow> get T i = Inr (list_of T ! i)"
    and put_law: "wf T \<Longrightarrow> i < length (list_of T) \<Longrightarrow>
          \<exists>T'. put T i e = Inr T' \<and> wf T' \<and> list_of T' = (list_of T)[i := e]"
begin

lemma lookup_Some:
  "wf T \<Longrightarrow> lookup n T = Some i \<Longrightarrow> i < length (list_of T) \<and> n = int i \<and> get T i = Inr (list_of T ! i)"
  by (auto simp: lookup_law get_law split: if_splits)

lemma insert_fresh:
  "wf T \<Longrightarrow> insert a T = Inr (n, T') \<Longrightarrow> 0 \<le> n \<Longrightarrow> lookup n T = None"
  using insert_law [of T a n T'] by (simp add: lookup_law)

lemma insert_lookup:
  "wf T \<Longrightarrow> insert a T = Inr (n, T') \<Longrightarrow> 0 \<le> n \<Longrightarrow>
   lookup n T' = Some (nat n) \<and> get T' (nat n) = Inr (mk a n)"
  using insert_law [of T a n T'] by (simp add: lookup_law get_law)

lemma insert_keeps:
  "wf T \<Longrightarrow> insert a T = Inr (n, T') \<Longrightarrow> 0 \<le> n \<Longrightarrow> lookup m T = Some i \<Longrightarrow>
   lookup m T' = Some i \<and> get T' i = get T i"
  using insert_law [of T a n T'] by (auto simp: lookup_law get_law nth_append split: if_splits)

lemma put_get:
  assumes "wf T" "i < length (list_of T)" "put T i e = Inr T'"
  shows "wf T'" "lookup m T' = lookup m T" "get T' i = Inr e"
    "j < length (list_of T) \<Longrightarrow> j \<noteq> i \<Longrightarrow> get T' j = get T j"
  using put_law [OF assms(1,2), of e] assms by (auto simp: lookup_law get_law)

end

lemma id_table_insert:
  fixes mk :: "'a \<Rightarrow> int \<Rightarrow> 'e"
  assumes "2 \<le> esize" "esize \<le> 1000"
  shows "id_table (table_wf esize) items (\<lambda>a. table_insert (al a) esize (mk a)) mk
           table_lookup entry set_entry"
proof
  fix T :: "'e table" and a :: 'a and n T' i e
  assume wf: "table_wf esize T"
  note cases = table_insert_cases [OF wf assms, of "al a" "mk a"]
  from cases show "ok (table_insert (al a) esize (mk a) T)" by auto
  from cases show "0 \<le> n \<Longrightarrow> table_insert (al a) esize (mk a) T = Inr (n, T') \<Longrightarrow>
     table_wf esize T' \<and> n = int (length (items T)) \<and> items T' = items T @ [mk a n]"
    using table_wfD(1) [OF wf] by (auto simp: length_items [OF wf])
  show "table_lookup n T = (if 0 \<le> n \<and> n < int (length (items T)) then Some (nat n) else None)"
    by (rule table_lookup_wf [OF wf])
  show "i < length (items T) \<Longrightarrow> entry T i = Inr (items T ! i)"
    by (rule entry_wf [OF wf])
  show "i < length (items T) \<Longrightarrow> \<exists>T'. set_entry T i e = Inr T' \<and> table_wf esize T'
      \<and> items T' = (items T)[i := e]"
    using set_entry_wf [OF wf] by blast
qed

section \<open>The three tables are instances\<close>

text \<open>The arguments of an insertion, the state of the memory among them, as one tuple.\<close>

interpretation canvas: id_table "table_wf sizeof_CanvasEntry" items
  "\<lambda>(alloc, ptr, owner, w, h). canvas_insert alloc ptr owner w h"
  "\<lambda>(alloc, ptr, owner, w, h). new_canvas ptr owner w h"
  canvas_lookup entry set_entry
proof -
  let ?mk = "\<lambda>(alloc :: nat \<Rightarrow> bool, ptr, owner, w, h). new_canvas ptr owner w h"
  have "(\<lambda>(alloc, ptr, owner, w, h). canvas_insert alloc ptr owner w h)
      = (\<lambda>a. table_insert (fst a) sizeof_CanvasEntry (?mk a))"
    by (auto simp: fun_eq_iff canvas_insert_def)
  with id_table_insert [of sizeof_CanvasEntry fst ?mk]
  show "id_table (table_wf sizeof_CanvasEntry) items
    (\<lambda>(alloc, ptr, owner, w, h). canvas_insert alloc ptr owner w h) ?mk canvas_lookup entry set_entry"
    by (simp add: sizeof_CanvasEntry_def canvas_lookup_def)
qed

interpretation sprite: id_table "table_wf sizeof_SpriteEntry" items
  "\<lambda>(alloc, ptr, owner). sprite_insert alloc ptr owner"
  "\<lambda>(alloc, ptr, owner) n. \<lparr>sp_ptr = ptr, sprite_id = n, sp_owner = Some owner\<rparr>"
  sprite_lookup entry set_entry
proof -
  let ?mk = "\<lambda>(alloc :: nat \<Rightarrow> bool, ptr, owner) n. \<lparr>sp_ptr = ptr, sprite_id = n, sp_owner = Some owner\<rparr>"
  have "(\<lambda>(alloc, ptr, owner). sprite_insert alloc ptr owner)
      = (\<lambda>a. table_insert (fst a) sizeof_SpriteEntry (?mk a))"
    by (auto simp: fun_eq_iff sprite_insert_def)
  with id_table_insert [of sizeof_SpriteEntry fst ?mk]
  show "id_table (table_wf sizeof_SpriteEntry) items
    (\<lambda>(alloc, ptr, owner). sprite_insert alloc ptr owner) ?mk sprite_lookup entry set_entry"
    by (simp add: sizeof_SpriteEntry_def sprite_lookup_def)
qed

interpretation placement: id_table "table_wf sizeof_PlacementEntry" items
  "\<lambda>(alloc, ptr, owner, cv). placement_insert alloc ptr owner cv"
  "\<lambda>(alloc, ptr, owner, cv) n.
     \<lparr>pl_ptr = ptr, placement_id = n, pl_owner = Some owner, pl_canvas = cv\<rparr>"
  placement_lookup entry set_entry
proof -
  let ?mk = "\<lambda>(alloc :: nat \<Rightarrow> bool, ptr, owner, cv) n.
     \<lparr>pl_ptr = ptr, placement_id = n, pl_owner = Some owner, pl_canvas = cv\<rparr>"
  have "(\<lambda>(alloc, ptr, owner, cv). placement_insert alloc ptr owner cv)
      = (\<lambda>a. table_insert (fst a) sizeof_PlacementEntry (?mk a))"
    by (auto simp: fun_eq_iff placement_insert_def)
  with id_table_insert [of sizeof_PlacementEntry fst ?mk]
  show "id_table (table_wf sizeof_PlacementEntry) items
    (\<lambda>(alloc, ptr, owner, cv). placement_insert alloc ptr owner cv) ?mk placement_lookup entry set_entry"
    by (simp add: sizeof_PlacementEntry_def placement_lookup_def)
qed

section \<open>Removal\<close>

lemma canvas_remove_wf:
  assumes "table_wf sizeof_CanvasEntry T" and "canvas_lookup n T = Some i"
  shows "\<exists>T'. canvas_remove lib n (T, l) = Inr (T', destroy_canvas lib (cv_ptr (items T ! i)) l)
    \<and> table_wf sizeof_CanvasEntry T' \<and> items T' = (items T)[i := (items T ! i)\<lparr>cv_ptr := None\<rparr>]"
  using canvas.lookup_Some [OF assms] canvas.put_law [OF assms(1), of i "(items T ! i)\<lparr>cv_ptr := None\<rparr>"]
    assms(2)
  by (auto simp: canvas_remove_def Let_def)

lemma sprite_remove_wf:
  assumes "table_wf sizeof_SpriteEntry T" and "sprite_lookup n T = Some i"
  shows "\<exists>T'. sprite_remove lib n (T, l)
      = Inr (fst (destroy_sprite lib (sp_ptr (items T ! i)) l), T', snd (destroy_sprite lib (sp_ptr (items T ! i)) l))
    \<and> table_wf sizeof_SpriteEntry T' \<and> items T' = (items T)[i := (items T ! i)\<lparr>sp_ptr := None\<rparr>]"
  using sprite.lookup_Some [OF assms] sprite.put_law [OF assms(1), of i "(items T ! i)\<lparr>sp_ptr := None\<rparr>"]
    assms(2)
  by (auto simp: sprite_remove_def Let_def split: prod.split)

lemma placement_remove_wf:
  assumes "table_wf sizeof_PlacementEntry T" and "placement_lookup n T = Some i"
  shows "\<exists>T'. placement_remove lib n (T, l) = Inr (T', destroy_placement lib (pl_ptr (items T ! i)) l)
    \<and> table_wf sizeof_PlacementEntry T' \<and> items T' = (items T)[i := (items T ! i)\<lparr>pl_ptr := None\<rparr>]"
  using placement.lookup_Some [OF assms] placement.put_law [OF assms(1), of i "(items T ! i)\<lparr>pl_ptr := None\<rparr>"]
    assms(2)
  by (auto simp: placement_remove_def Let_def)

section \<open>Properties\<close>

lemma canvas_insert_cases:
  assumes "table_wf sizeof_CanvasEntry T"
  shows "(\<exists>T'. canvas_insert alloc ptr owner w h T = Inr (tcount T, T'))
    \<or> (canvas_insert alloc ptr owner w h T = Inr (- 1, T\<lparr>arr := None\<rparr>)
       \<and> tcount T = capacity T \<and> grow_array alloc (arr T) sizeof_CanvasEntry (capacity T) = None)"
  using table_insert_cases [OF assms, of alloc "new_canvas ptr owner w h"]
  by (auto simp: canvas_insert_def sizeof_CanvasEntry_def)

lemma table_insert_lost:
  assumes "tcount T = capacity T" "grow_array alloc (arr T) esize (capacity T) = None" "0 < m" "m < tcount T"
  shows "table_insert alloc esize mk T = Inr (- 1, T\<lparr>arr := None\<rparr>)"
    and "table_lookup m (T\<lparr>arr := None\<rparr>) = Some (nat m)"
    and "entry (T\<lparr>arr := None\<rparr>) (nat m) = Inl NullDeref"
  using assms by (simp_all add: table_insert_def table_lookup_def entry_def)

lemma grow_array_limit:
  assumes "table_wf esize T" "2 \<le> esize" "esize \<le> 1000" "INT_MAX < 2 * capacity T * esize"
  shows "grow_array alloc (arr T) esize (capacity T) = None"
proof (cases "grow_array alloc (arr T) esize (capacity T)")
  case (Some p)
  obtain a cap where "p = (a, cap)" by fastforce
  with grow_array_Some [OF assms(1-3), of alloc a cap] Some assms(4) show ?thesis
    by (auto simp: int_limits split: if_splits)
qed simp

text \<open>
  C28: an object that is inserted gets an id that was free; the id leads to the new entry,
  holding the client as its owner; every id handed out before still leads to the entry it
  led to, although the array may have moved; and the table stays well-formed.
\<close>
theorem canvas_insert_then_lookup:
  assumes "table_wf sizeof_CanvasEntry T"
    and "canvas_insert alloc ptr owner w h T = Inr (n, T')" and "0 \<le> n"
  shows "canvas_lookup n T = None
    \<and> canvas_lookup n T' = Some (nat n) \<and> entry T' (nat n) = Inr (new_canvas ptr owner w h n)
    \<and> (canvas_lookup m T = Some i \<longrightarrow> canvas_lookup m T' = Some i \<and> entry T' i = entry T i)
    \<and> table_wf sizeof_CanvasEntry T'"
  using canvas.insert_fresh [of T "(alloc, ptr, owner, w, h)" n T']
    canvas.insert_lookup [of T "(alloc, ptr, owner, w, h)" n T']
    canvas.insert_keeps [of T "(alloc, ptr, owner, w, h)" n T' m i]
    canvas.insert_law [of T "(alloc, ptr, owner, w, h)" n T'] assms
  by simp

theorem canvas_insert_then_lookup_witness:
  "\<exists>T'. canvas_insert (\<lambda>_. True) (Some 7) 1 30 20 empty_table = Inr (0, T')
     \<and> canvas_lookup 0 T' = Some 0 \<and> entry T' 0 = Inr (new_canvas (Some 7) 1 30 20 0)"
proof -
  have wf: "table_wf sizeof_CanvasEntry (empty_table :: CanvasEntry table)" by (rule table_wf_empty)
  have "grow_array (\<lambda>_. True) (arr (empty_table :: CanvasEntry table)) sizeof_CanvasEntry 0
      = Some (replicate 64 None, 64)"
    by (simp add: grow_array_def realloc_ok_def int32_def INITIAL_CAPACITY_def sizeof_CanvasEntry_def
        resize_def empty_table_def)
  then obtain T' where T': "canvas_insert (\<lambda>_. True) (Some 7) 1 30 20 empty_table = Inr (0, T')"
    using canvas_insert_cases [OF wf, of "\<lambda>_. True" "Some 7" 1 30 20] by (auto simp: empty_table_def)
  from canvas_insert_then_lookup [OF wf T', of 0 0] T' show ?thesis by simp
qed

text \<open>
  an insertion into a well-formed table never faults: it returns the number of entries
  as the new id, which is not negative, or -1.
\<close>
theorem canvas_insert_total:
  assumes "table_wf sizeof_CanvasEntry T"
  shows "\<exists>n T'. canvas_insert alloc ptr owner w h T = Inr (n, T')
    \<and> (n = - 1 \<or> n = int (length (items T)) \<and> length (items T') = Suc (length (items T)))"
proof -
  from canvas.insert_safe [OF assms, of "(alloc, ptr, owner, w, h)"]
  obtain n T' where T': "canvas_insert alloc ptr owner w h T = Inr (n, T')" by (auto simp: ok_iff)
  with canvas_insert_cases [OF assms, of alloc ptr owner w h] table_wfD(1) [OF assms]
  have "n = - 1 \<or> 0 \<le> n" by auto
  with T' canvas.insert_law [OF assms, of "(alloc, ptr, owner, w, h)" n T'] show ?thesis by auto
qed

theorem canvas_insert_total_witness:
  "\<exists>n T'. canvas_insert (\<lambda>_. False) (Some 7) 1 30 20 empty_table = Inr (n, T')
    \<and> (n = - 1 \<or> n = int (length (items (empty_table :: CanvasEntry table)))
        \<and> length (items T') = Suc (length (items (empty_table :: CanvasEntry table))))"
  by (rule canvas_insert_total) (rule table_wf_empty)

text \<open>
  a canvas that is removed is handed to the library once; its entry keeps its id and its
  owner with a null pointer, and the entries of all other ids are unchanged.
\<close>
theorem canvas_remove_clears:
  assumes "table_wf sizeof_CanvasEntry T" and "canvas_lookup n T = Some i"
  shows "\<exists>e T'. entry T i = Inr e
    \<and> canvas_remove lib n (T, l) = Inr (T', destroy_canvas lib (cv_ptr e) l)
    \<and> entry T' i = Inr (e\<lparr>cv_ptr := None\<rparr>) \<and> canvas_lookup m T' = canvas_lookup m T
    \<and> (canvas_lookup m T = Some j \<and> j \<noteq> i \<longrightarrow> entry T' j = entry T j)
    \<and> table_wf sizeof_CanvasEntry T'"
proof -
  note i = canvas.lookup_Some [OF assms]
  from canvas_remove_wf [OF assms, of lib l] obtain T' where
    r: "canvas_remove lib n (T, l) = Inr (T', destroy_canvas lib (cv_ptr (items T ! i)) l)"
    and T': "table_wf sizeof_CanvasEntry T'" "items T' = (items T)[i := (items T ! i)\<lparr>cv_ptr := None\<rparr>]"
    by blast
  from T' i have "entry T' i = Inr ((items T ! i)\<lparr>cv_ptr := None\<rparr>)" by (simp add: canvas.get_law)
  moreover from T' assms have "canvas_lookup m T' = canvas_lookup m T" by (simp add: canvas.lookup_law)
  moreover have "entry T' j = entry T j" if "canvas_lookup m T = Some j" "j \<noteq> i"
    using canvas.lookup_Some [OF assms(1) that(1)] T' that(2) assms(1) by (simp add: canvas.get_law)
  ultimately show ?thesis using r i T'(1) by blast
qed

definition one_canvas :: "CanvasEntry table" where
  "one_canvas = \<lparr>arr = Some [Some (new_canvas (Some 7) 1 30 20 0)], tcount = 1, capacity = 1\<rparr>"

theorem canvas_remove_clears_witness:
  "\<exists>T'. canvas_remove log_lib 0 (one_canvas, []) = Inr (T', [DestroyCanvas (Some 7)])
     \<and> entry T' 0 = Inr ((new_canvas (Some 7) 1 30 20 0)\<lparr>cv_ptr := None\<rparr>)"
proof -
  have wf: "table_wf sizeof_CanvasEntry one_canvas"
    by (simp add: table_wf_def one_canvas_def cells_def sizeof_CanvasEntry_def int_limits)
  have lk: "canvas_lookup 0 one_canvas = Some 0"
    by (simp add: canvas_lookup_def table_lookup_def one_canvas_def)
  have en: "entry one_canvas 0 = Inr (new_canvas (Some 7) 1 30 20 0)"
    by (simp add: entry_def one_canvas_def)
  from canvas_remove_clears [OF wf lk, of log_lib "[]" 0 0] en show ?thesis
    by (auto simp: log_lib_def new_canvas_def)
qed

text \<open>
  when \<open>realloc\<close> fails the whole table is lost, not only the new entry: the null pointer
  it returns replaces the array, the count stays, and every id but 0 that was valid still
  passes the lookup and then leads to a dereference of null.
\<close>
theorem canvas_grow_failure_loses_table:
  assumes "tcount T = capacity T" and "\<not> (\<exists>n. alloc n)" and "0 < m" and "m < tcount T"
  shows "\<exists>T'. canvas_insert alloc ptr owner w h T = Inr (- 1, T')
    \<and> canvas_lookup m T' = Some (nat m) \<and> entry T' (nat m) = Inl NullDeref"
proof -
  have "grow_array alloc (arr T) sizeof_CanvasEntry (capacity T) = None"
    using assms(2) by (simp add: grow_array_def realloc_ok_def Let_def)
  from table_insert_lost [OF assms(1) this assms(3,4)] show ?thesis
    by (simp add: canvas_insert_def canvas_lookup_def)
qed

theorem canvas_grow_failure_loses_table_witness:
  "\<exists>T'. canvas_insert (\<lambda>_. False) (Some 9) 1 5 5
        \<lparr>arr = Some [Some (new_canvas (Some 7) 1 30 20 0), Some (new_canvas (Some 8) 1 30 20 1)],
         tcount = 2, capacity = 2\<rparr> = Inr (- 1, T')
    \<and> canvas_lookup 1 T' = Some (nat 1) \<and> entry T' (nat 1) = Inl NullDeref"
  by (rule canvas_grow_failure_loses_table) simp_all

text \<open>
  the size of the array is computed in \<open>int\<close>, so a table of canvases whose next
  array would take more than \<open>INT_MAX\<close> bytes can never grow again, however much memory there
  is: from 2097152 canvases on the next insertion fails and loses the table.
\<close>
theorem canvas_table_int_limit:
  assumes "table_wf sizeof_CanvasEntry T" and "tcount T = capacity T" and "capacity T = 2097152"
  shows "canvas_insert alloc ptr owner w h T = Inr (- 1, T\<lparr>arr := None\<rparr>)"
proof -
  have "grow_array alloc (arr T) sizeof_CanvasEntry (capacity T) = None"
    by (rule grow_array_limit [OF assms(1)]) (simp_all add: assms(3) sizeof_CanvasEntry_def int_limits)
  with assms(2) show ?thesis by (simp add: canvas_insert_def table_insert_def)
qed

theorem canvas_table_int_limit_witness:
  "canvas_insert (\<lambda>_. True) (Some 9) 1 5 5
     \<lparr>arr = Some (replicate 2097152 (Some (new_canvas None 1 5 5 0))), tcount = 2097152, capacity = 2097152\<rparr>
   = Inr (- 1, \<lparr>arr = None, tcount = 2097152, capacity = 2097152\<rparr>)"
proof -
  let ?T = "\<lparr>arr = Some (replicate 2097152 (Some (new_canvas None 1 5 5 0))),
             tcount = 2097152, capacity = 2097152\<rparr>"
  have "table_wf sizeof_CanvasEntry ?T"
    by (simp add: table_wf_def cells_def sizeof_CanvasEntry_def int_limits)
  from canvas_table_int_limit [OF this, of "\<lambda>_. True" "Some 9" 1 5 5] show ?thesis by simp
qed

end
