(* ===== verification/Task.thy ===== *)
theory Task
  imports Fifo
begin

text \<open>
  \<open>server/include/task.h\<close> and \<open>server/src/task.c\<close>: the tasks, their results, and the queue
  that hands the tasks to the worker threads, a singly linked list of heap blocks under one mutex. Every
  operation here is what happens between taking and releasing \<open>tq_lock\<close>.
\<close>

section \<open>Tasks and results\<close>

datatype TaskType =
    HANDSHAKE | AUTHORISE | CREATE_CANVAS | DESTROY_CANVAS | CREATE_SPRITE | CREATE_RECTANGLE
  | CREATE_CIRCLE | DESTROY_SPRITE | PLACE_SPRITE | PLACEMENT_UP | PLACEMENT_DOWN | PLACEMENT_TOP
  | PLACEMENT_BOTTOM | DESTROY_PLACEMENT | SET_ANIM_PARAM | GENERATE | SHARE | BARRIER

text \<open>The two unions of \<open>struct Task\<close>; which member is live depends on the type of the task.\<close>

datatype task_info = RawPid int | ClientPtr "addr option"
datatype task_data = FifoNames string string | Request string

record Task =
  t_type :: TaskType
  t_info :: task_info
  t_data :: task_data
  t_next :: "addr option"

datatype ResultType = HSK_OK | AUTH_OK | AUTH_NO | AUTH_UN | RPC_DONE

text \<open>\<open>TaskResult\<close>: the tag with the members of the unions that go with it.\<close>

datatype TaskResult =
    ResHsk int int int
  | ResAuthOk addr string int
  | ResAuthNo addr
  | ResAuthUn addr
  | ResRpc addr int int int

section \<open>The queue\<close>

record TaskQueue =
  tq_head :: "addr option"
  tq_tail :: "addr option"
  tq_count :: nat
  tq_mem :: "addr \<rightharpoonup> Task"

definition task_init :: TaskQueue where
  "task_init = \<lparr>tq_head = None, tq_tail = None, tq_count = 0, tq_mem = Map.empty\<rparr>"

definition new_task :: "TaskType \<Rightarrow> int \<Rightarrow> string option \<Rightarrow> addr option \<Rightarrow> Task res" where
  "new_task type pid request client =
     (if type = HANDSHAKE then
        Inr \<lparr>t_type = type, t_info = RawPid pid,
             t_data = FifoNames (set_name C2S pid) (set_name S2C pid), t_next = None\<rparr>
      else (case request of
          None \<Rightarrow> Inl NullDeref
        | Some r \<Rightarrow> Inr \<lparr>t_type = type, t_info = ClientPtr client,
                          t_data = Request (strncpy0 r (MAX_RPC_BUF_LEN - 1)), t_next = None\<rparr>))"

definition link_task :: "addr \<Rightarrow> Task \<Rightarrow> TaskQueue \<Rightarrow> TaskQueue res" where
  "link_task a t q =
     (let mem = (tq_mem q)(a \<mapsto> t)
      in case tq_tail q of
           None \<Rightarrow> Inr (q\<lparr>tq_head := Some a, tq_tail := Some a, tq_mem := mem,
                          tq_count := sz_succ (tq_count q)\<rparr>)
         | Some tl_a \<Rightarrow> and_then (load mem tl_a) (\<lambda>l.
             Inr (q\<lparr>tq_tail := Some a, tq_mem := mem(tl_a \<mapsto> l\<lparr>t_next := Some a\<rparr>),
                    tq_count := sz_succ (tq_count q)\<rparr>)))"

text \<open>\<open>malloc\<close> is what the allocator returns for the new task.\<close>

definition task_enqueue ::
  "addr option \<Rightarrow> TaskType \<Rightarrow> int \<Rightarrow> string option \<Rightarrow> addr option \<Rightarrow> TaskQueue
   \<Rightarrow> (ErrType \<times> TaskQueue) res" where
  "task_enqueue malloc type pid request client q =
     (case malloc of
        None \<Rightarrow> Inr (TQ_FAIL, q)
      | Some a \<Rightarrow>
          and_then (new_task type pid request client) (\<lambda>t.
          and_then (link_task a t q) (\<lambda>q'. Inr (SUCCESS, q'))))"

text \<open>
  The consumer waits on the condition variable while the queue is empty and the server runs
  (\<open>Waits\<close>), gets a null pointer at shutdown, and else the task it has unlinked.
\<close>

datatype dequeued = Waits | NoTask | Got addr

definition task_dequeue :: "bool \<Rightarrow> TaskQueue \<Rightarrow> (dequeued \<times> TaskQueue) res" where
  "task_dequeue running q =
     (if tq_head q = None \<and> running then Inr (Waits, q)
      else if \<not> running then Inr (NoTask, q)
      else case tq_head q of
          None \<Rightarrow> Inr (NoTask, q)
        | Some a \<Rightarrow> and_then (load (tq_mem q) a) (\<lambda>t.
            let n = sz_pred (tq_count q)
            in Inr (Got a, if n = 0 then q\<lparr>tq_count := n, tq_head := None, tq_tail := None\<rparr>
                           else q\<lparr>tq_count := n, tq_head := t_next t\<rparr>)))"

definition task_free :: "addr \<Rightarrow> TaskQueue \<Rightarrow> TaskQueue res" where
  "task_free a q = and_then (load (tq_mem q) a) (\<lambda>t. Inr (q\<lparr>tq_mem := (tq_mem q)(a := None)\<rparr>))"

text \<open>The loop of \<open>task_destroy\<close>; on a list with a cycle it would read a freed task.\<close>

partial_function (option) task_destroy_loop :: "TaskQueue \<Rightarrow> TaskQueue res option" where
  "task_destroy_loop q =
     (case tq_head q of
        None \<Rightarrow> Some (Inr q)
      | Some a \<Rightarrow>
          (case tq_mem q a of
             None \<Rightarrow> Some (Inl (UseAfterFree a))
           | Some t \<Rightarrow> task_destroy_loop (q\<lparr>tq_head := t_next t, tq_mem := (tq_mem q)(a := None)\<rparr>)))"

definition task_destroy :: "bool \<Rightarrow> TaskQueue \<Rightarrow> TaskQueue res option" where
  "task_destroy running q = (if running then Some (Inr q) else task_destroy_loop q)"

section \<open>The list a queue stands for\<close>

fun path :: "(addr \<rightharpoonup> Task) \<Rightarrow> addr option \<Rightarrow> addr list \<Rightarrow> bool" where
  "path mem p [] \<longleftrightarrow> p = None"
| "path mem p (a # as) \<longleftrightarrow> p = Some a \<and> (\<exists>t. mem a = Some t \<and> path mem (t_next t) as)"

fun walk :: "nat \<Rightarrow> (addr \<rightharpoonup> Task) \<Rightarrow> addr option \<Rightarrow> addr list" where
  "walk (Suc n) mem (Some a) = a # (case mem a of None \<Rightarrow> [] | Some t \<Rightarrow> walk n mem (t_next t))"
| "walk n mem p = []"

text \<open>The blocks from the head on, in order, and their contents without the links.\<close>

definition tq_addrs :: "TaskQueue \<Rightarrow> addr list" where
  "tq_addrs q = walk (tq_count q) (tq_mem q) (tq_head q)"

type_synonym payload = "TaskType \<times> task_info \<times> task_data"

definition payload :: "Task \<Rightarrow> payload" where
  "payload t = (t_type t, t_info t, t_data t)"

definition task_at :: "TaskQueue \<Rightarrow> addr \<Rightarrow> payload" where
  "task_at q a = payload (the (tq_mem q a))"

definition tq_list :: "TaskQueue \<Rightarrow> payload list" where
  "tq_list q = map (task_at q) (tq_addrs q)"

definition tq_rep :: "TaskQueue \<Rightarrow> addr list \<Rightarrow> bool" where
  "tq_rep q as \<longleftrightarrow> path (tq_mem q) (tq_head q) as \<and> distinct as \<and> (\<forall>a \<in> set as. valid_addr a)
     \<and> tq_tail q = (if as = [] then None else Some (last as)) \<and> tq_count q = length as"

definition tq_inv :: "TaskQueue \<Rightarrow> bool" where
  "tq_inv q \<longleftrightarrow> tq_rep q (tq_addrs q)"

lemma path_walk: "path mem p as \<Longrightarrow> walk (length as) mem p = as"
  by (induction as arbitrary: p) auto

lemma path_allocated: "path mem p as \<Longrightarrow> a \<in> set as \<Longrightarrow> mem a \<noteq> None"
  by (induction as arbitrary: p) auto

lemma path_other: "a \<notin> set as \<Longrightarrow> path (mem(a := v)) p as = path mem p as"
  by (induction as arbitrary: p) auto

lemma path_append:
  "path mem p (as @ [l]) \<Longrightarrow> distinct (as @ [l]) \<Longrightarrow> mem l = Some t \<Longrightarrow> a \<notin> set (as @ [l]) \<Longrightarrow>
   mem a = Some t' \<Longrightarrow> t_next t' = None \<Longrightarrow>
   path (mem(l \<mapsto> t\<lparr>t_next := Some a\<rparr>)) p (as @ [l, a])"
  by (induction as arbitrary: p) auto

lemma tq_rep_addrs: "tq_rep q as \<Longrightarrow> tq_addrs q = as"
  by (auto simp: tq_rep_def tq_addrs_def path_walk)

lemma tq_inv_rep: "tq_rep q as \<Longrightarrow> tq_inv q"
  by (simp add: tq_inv_def tq_rep_addrs)

lemma tq_rep_length: "tq_rep q as \<Longrightarrow> length as < 2 ^ 64"
  using distinct_addrs_bound [of as] by (simp add: tq_rep_def)

lemma tq_inv_init: "tq_inv task_init" "tq_list task_init = []"
  by (simp_all add: tq_inv_def tq_rep_def tq_addrs_def task_init_def tq_list_def)

section \<open>Enqueuing appends\<close>

lemma link_task_rep:
  assumes "tq_rep q as" and "malloc_ok (tq_mem q) a" and "t_next t = None"
  shows "\<exists>q'. link_task a t q = Inr q' \<and> tq_rep q' (as @ [a])
    \<and> task_at q' a = payload t \<and> (\<forall>b. b \<noteq> a \<longrightarrow> task_at q' b = task_at q b)
    \<and> (\<forall>b. b \<noteq> a \<longrightarrow> (tq_mem q' b = None) = (tq_mem q b = None)) \<and> tq_mem q' a \<noteq> None"
proof -
  note rep = assms(1) [unfolded tq_rep_def]
  from assms(2) have a: "valid_addr a" "tq_mem q a = None" by (auto simp: malloc_ok_def)
  with rep have fresh: "a \<notin> set as" using path_allocated by fastforce
  have "length (as @ [a]) < 2 ^ 64" using rep a fresh by (intro distinct_addrs_bound) auto
  then have cnt: "sz_succ (tq_count q) = Suc (length as)" using rep by simp
  show ?thesis
  proof (cases as rule: rev_cases)
    case Nil
    with rep a cnt assms(3) show ?thesis
      by (simp add: link_task_def Let_def tq_rep_def task_at_def)
  next
    case (snoc bs l)
    with rep obtain tl where tl: "tq_mem q l = Some tl" using path_allocated [of "tq_mem q" _ as l] by fastforce
    have "path ((tq_mem q)(a \<mapsto> t)) (tq_head q) (bs @ [l])" using rep fresh snoc by (simp add: path_other)
    then have "path ((tq_mem q)(a \<mapsto> t, l \<mapsto> tl\<lparr>t_next := Some a\<rparr>)) (tq_head q) (bs @ [l, a])"
      using rep snoc fresh tl assms(3) by (intro path_append [where t' = t]) auto
    with rep snoc fresh tl cnt a show ?thesis
      by (auto simp: link_task_def Let_def tq_rep_def task_at_def payload_def)
  qed
qed

definition enq_payload :: "TaskType \<Rightarrow> int \<Rightarrow> string option \<Rightarrow> addr option \<Rightarrow> payload" where
  "enq_payload type pid request client =
     (if type = HANDSHAKE then (type, RawPid pid, FifoNames (set_name C2S pid) (set_name S2C pid))
      else (type, ClientPtr client, Request (take 127 (the request))))"

lemma task_enqueue_rep:
  assumes "tq_rep q as" and "malloc_ok (tq_mem q) a" and "type = HANDSHAKE \<or> request \<noteq> None"
  shows "\<exists>q'. task_enqueue (Some a) type pid request client q = Inr (SUCCESS, q')
    \<and> tq_rep q' (as @ [a]) \<and> task_at q' a = enq_payload type pid request client
    \<and> (\<forall>b. b \<noteq> a \<longrightarrow> task_at q' b = task_at q b)
    \<and> (\<forall>b. b \<noteq> a \<longrightarrow> (tq_mem q' b = None) = (tq_mem q b = None)) \<and> tq_mem q' a \<noteq> None"
proof -
  have "\<exists>t. new_task type pid request client = Inr t \<and> t_next t = None
      \<and> payload t = enq_payload type pid request client"
    using assms(3)
    by (auto simp: new_task_def enq_payload_def payload_def strncpy0_def MAX_RPC_BUF_LEN_def)
  then obtain t where t: "new_task type pid request client = Inr t" "t_next t = None"
      "payload t = enq_payload type pid request client" by blast
  from link_task_rep [OF assms(1,2) t(2)] t show ?thesis by (auto simp: task_enqueue_def)
qed

section \<open>Dequeuing takes the head\<close>

lemma task_dequeue_rep:
  assumes "tq_rep q (a # as)"
  shows "\<exists>q'. task_dequeue True q = Inr (Got a, q') \<and> tq_rep q' as \<and> tq_mem q' = tq_mem q"
proof -
  note rep = assms [unfolded tq_rep_def]
  have "length (a # as) < 2 ^ 64" by (rule tq_rep_length [OF assms])
  then have "sz_pred (tq_count q) = length as" using rep by simp
  with rep show ?thesis
    by (cases as) (auto simp: task_dequeue_def Let_def tq_rep_def)
qed

lemma task_dequeue_empty: "tq_rep q [] \<Longrightarrow> task_dequeue True q = Inr (Waits, q)"
  by (simp add: task_dequeue_def tq_rep_def)

lemma task_dequeue_stopped: "task_dequeue False q = Inr (NoTask, q)"
  by (simp add: task_dequeue_def)

lemma task_free_rep:
  assumes "tq_rep q as" and "a \<notin> set as" and "tq_mem q a \<noteq> None"
  shows "\<exists>q'. task_free a q = Inr q' \<and> tq_rep q' as \<and> tq_mem q' = (tq_mem q)(a := None)"
  using assms by (auto simp: task_free_def tq_rep_def path_other)

lemma task_destroy_rep:
  "path (tq_mem q) (tq_head q) as \<Longrightarrow> distinct as \<Longrightarrow>
   \<exists>q'. task_destroy_loop q = Some (Inr q') \<and> tq_head q' = None
      \<and> (\<forall>a. tq_mem q' a = (if a \<in> set as then None else tq_mem q a))"
proof (induction as arbitrary: q)
  case Nil
  then show ?case by (subst task_destroy_loop.simps) simp
next
  case (Cons a as)
  then obtain t where t: "tq_head q = Some a" "tq_mem q a = Some t" "path (tq_mem q) (t_next t) as"
    by auto
  let ?q = "q\<lparr>tq_head := t_next t, tq_mem := (tq_mem q)(a := None)\<rparr>"
  have "path (tq_mem ?q) (tq_head ?q) as" using t Cons.prems by (simp add: path_other)
  with Cons obtain q' where q': "task_destroy_loop ?q = Some (Inr q')" "tq_head q' = None"
      "\<forall>b. tq_mem q' b = (if b \<in> set as then None else tq_mem ?q b)"
    by fastforce
  have "task_destroy_loop q = task_destroy_loop ?q"
    using t by (subst task_destroy_loop.simps) simp
  with q' t show ?case by (auto split: if_splits)
qed

section \<open>The interface of a queue\<close>

text \<open>
  A script of queue operations: enqueuing into the block at an address, and dequeuing, which on an empty
  queue waits and yields nothing. \<open>q_run\<close> runs it on an implementation and collects what
  the dequeues yield; \<open>abs_run\<close> runs it on a list.
\<close>

datatype 'x qop = Enq addr 'x | Deq

fun q_run ::
  "(addr \<Rightarrow> 'x \<Rightarrow> 'q \<Rightarrow> 'q res) \<Rightarrow> ('q \<Rightarrow> (dequeued \<times> 'q) res) \<Rightarrow> ('q \<Rightarrow> addr \<Rightarrow> 'v)
   \<Rightarrow> 'x qop list \<Rightarrow> 'q \<Rightarrow> ('v list \<times> 'q) res" where
  "q_run enq deq val [] q = Inr ([], q)"
| "q_run enq deq val (Enq a x # ops) q = and_then (enq a x q) (q_run enq deq val ops)"
| "q_run enq deq val (Deq # ops) q = and_then (deq q) (\<lambda>(d, q1).
     case d of
       Got a \<Rightarrow> and_then (q_run enq deq val ops q1) (\<lambda>(vs, q2). Inr (val q1 a # vs, q2))
     | _ \<Rightarrow> q_run enq deq val ops q1)"

fun abs_run :: "('x \<Rightarrow> 'v) \<Rightarrow> 'x qop list \<Rightarrow> 'v list \<Rightarrow> 'v list \<times> 'v list" where
  "abs_run mk [] vs = ([], vs)"
| "abs_run mk (Enq a x # ops) vs = abs_run mk ops (vs @ [mk x])"
| "abs_run mk (Deq # ops) [] = abs_run mk ops []"
| "abs_run mk (Deq # ops) (v # vs) = (let (out, rest) = abs_run mk ops vs in (v # out, rest))"

fun op_addrs :: "'x qop list \<Rightarrow> addr list" where
  "op_addrs [] = []"
| "op_addrs (Enq a x # ops) = a # op_addrs ops"
| "op_addrs (Deq # ops) = op_addrs ops"

fun op_args :: "'x qop list \<Rightarrow> 'x list" where
  "op_args [] = []"
| "op_args (Enq a x # ops) = x # op_args ops"
| "op_args (Deq # ops) = op_args ops"

locale fifo =
  fixes rep :: "'q \<Rightarrow> addr list \<Rightarrow> bool"
    and usable :: "'q \<Rightarrow> addr \<Rightarrow> bool"
    and good :: "'x \<Rightarrow> bool"
    and mk :: "'x \<Rightarrow> 'v"
    and val :: "'q \<Rightarrow> addr \<Rightarrow> 'v"
    and enq :: "addr \<Rightarrow> 'x \<Rightarrow> 'q \<Rightarrow> 'q res"
    and deq :: "'q \<Rightarrow> (dequeued \<times> 'q) res"
  assumes enq_law: "rep q as \<Longrightarrow> usable q a \<Longrightarrow> good x \<Longrightarrow>
      \<exists>q'. enq a x q = Inr q' \<and> rep q' (as @ [a]) \<and> val q' a = mk x
        \<and> (\<forall>b. b \<noteq> a \<longrightarrow> val q' b = val q b \<and> usable q' b = usable q b)"
    and deq_law: "rep q (a # as) \<Longrightarrow>
      \<exists>q'. deq q = Inr (Got a, q') \<and> rep q' as \<and> val q' = val q \<and> usable q' = usable q"
    and deq_empty: "rep q [] \<Longrightarrow> deq q = Inr (Waits, q)"
    and usable_fresh: "rep q as \<Longrightarrow> usable q a \<Longrightarrow> a \<notin> set as"
begin

lemma run_refines:
  "rep q as \<Longrightarrow> list_all good (op_args ops) \<Longrightarrow> distinct (op_addrs ops) \<Longrightarrow>
   list_all (usable q) (op_addrs ops) \<Longrightarrow>
   \<exists>outs q' as'. q_run enq deq val ops q = Inr (outs, q') \<and> rep q' as'
     \<and> abs_run mk ops (map (val q) as) = (outs, map (val q') as')"
proof (induction ops arbitrary: q as)
  case (Cons oper ops)
  show ?case
  proof (cases oper)
    case (Enq a x)
    with Cons.prems enq_law [of q as a x] usable_fresh [of q as a] obtain q1 where
      q1: "enq a x q = Inr q1" "rep q1 (as @ [a])" "val q1 a = mk x"
        "\<forall>b. b \<noteq> a \<longrightarrow> val q1 b = val q b \<and> usable q1 b = usable q b" and a: "a \<notin> set as"
      by auto
    have "list_all (usable q1) (op_addrs ops)"
      using Cons.prems Enq q1(4) by (auto simp: list_all_iff)
    with Cons.IH [OF q1(2)] Cons.prems Enq obtain outs q' as' where
      "q_run enq deq val ops q1 = Inr (outs, q')" "rep q' as'"
      "abs_run mk ops (map (val q1) (as @ [a])) = (outs, map (val q') as')"
      by auto
    moreover have "map (val q1) (as @ [a]) = map (val q) as @ [mk x]"
      using q1(3,4) a by (auto intro!: map_cong)
    ultimately show ?thesis
      using q1(1) Enq by (intro exI [of _ outs] exI [of _ q'] exI [of _ as']) (simp del: map_append)
  next
    case Deq
    show ?thesis
    proof (cases as)
      case Nil
      with Cons.IH [OF Cons.prems(1)] Cons.prems Deq deq_empty [of q] show ?thesis by simp
    next
      case (Cons a as1)
      with Cons.prems(1) deq_law [of q a as1] obtain q1 where
        q1: "deq q = Inr (Got a, q1)" "rep q1 as1" "val q1 = val q" "usable q1 = usable q" by auto
      with Cons.IH [OF q1(2)] Cons.prems Deq obtain outs q' as' where
        "q_run enq deq val ops q1 = Inr (outs, q')" "rep q' as'"
        "abs_run mk ops (map (val q1) as1) = (outs, map (val q') as')" by auto
      with q1 Deq \<open>as = a # as1\<close> show ?thesis by auto
    qed
  qed
qed auto

end

type_synonym enq_args = "TaskType \<times> int \<times> string option \<times> addr option"

definition enq_call :: "addr \<Rightarrow> enq_args \<Rightarrow> TaskQueue \<Rightarrow> TaskQueue res" where
  "enq_call a x q = (case x of (type, pid, request, client) \<Rightarrow>
     and_then (task_enqueue (Some a) type pid request client q) (\<lambda>(r, q'). Inr q'))"

definition enq_args_ok :: "enq_args \<Rightarrow> bool" where
  "enq_args_ok x = (case x of (type, pid, request, client) \<Rightarrow> type = HANDSHAKE \<or> request \<noteq> None)"

definition enq_value :: "enq_args \<Rightarrow> payload" where
  "enq_value x = (case x of (type, pid, request, client) \<Rightarrow> enq_payload type pid request client)"

interpretation tq: fifo tq_rep "\<lambda>q. malloc_ok (tq_mem q)" enq_args_ok enq_value task_at enq_call
  "task_dequeue True"
proof
  fix q as a and x :: enq_args
  assume rep: "tq_rep q as"
  obtain type pid request client where x: "x = (type, pid, request, client)" by (cases x)
  show "\<exists>q'. enq_call a x q = Inr q' \<and> tq_rep q' (as @ [a]) \<and> task_at q' a = enq_value x
      \<and> (\<forall>b. b \<noteq> a \<longrightarrow> task_at q' b = task_at q b \<and> malloc_ok (tq_mem q') b = malloc_ok (tq_mem q) b)"
    if "malloc_ok (tq_mem q) a" "enq_args_ok x"
    using task_enqueue_rep [OF rep that(1), of type request pid client] that(2)
    by (auto simp: x enq_call_def enq_args_ok_def enq_value_def malloc_ok_def)
  show "malloc_ok (tq_mem q) a \<Longrightarrow> a \<notin> set as"
    using rep path_allocated [of "tq_mem q" "tq_head q" as a] by (auto simp: tq_rep_def malloc_ok_def)
next
  fix q a as
  assume "tq_rep q (a # as)"
  from task_dequeue_rep [OF this]
  show "\<exists>q'. task_dequeue True q = Inr (Got a, q') \<and> tq_rep q' as \<and> task_at q' = task_at q
      \<and> malloc_ok (tq_mem q') = malloc_ok (tq_mem q)"
    by (force simp: task_at_def)
qed (rule task_dequeue_empty)

section \<open>Properties\<close>

text \<open>
  C8: the linked list of tasks is a FIFO queue. For every sequence of enqueues (into blocks
  that \<open>malloc\<close> may return) and dequeues, the dequeues yield, without a fault, the tasks that
  the same operations yield on a list, and the queue ends up well-formed and holding what is left of that list.
\<close>
theorem task_queue_is_fifo:
  assumes "tq_inv q"
    and "list_all enq_args_ok (op_args ops)" and "distinct (op_addrs ops)"
    and "list_all (malloc_ok (tq_mem q)) (op_addrs ops)"
  shows "\<exists>outs q'. q_run enq_call (task_dequeue True) task_at ops q = Inr (outs, q')
    \<and> tq_inv q' \<and> abs_run enq_value ops (tq_list q) = (outs, tq_list q')"
proof -
  from assms(1) have rep: "tq_rep q (tq_addrs q)" by (simp add: tq_inv_def)
  from tq.run_refines [OF this assms(2-4)] show ?thesis
    by (auto simp: tq_list_def tq_rep_addrs tq_inv_rep)
qed

theorem task_queue_is_fifo_witness:
  "\<exists>outs q'. q_run enq_call (task_dequeue True) task_at
       [Enq 16 (HANDSHAKE, 42, None, None), Enq 32 (SHARE, 0, Some ''0 bob'', Some 5), Deq, Deq, Deq] task_init
     = Inr (outs, q') \<and> tq_inv q' \<and> tq_list q' = []
     \<and> outs = [(HANDSHAKE, RawPid 42, FifoNames (set_name C2S 42) (set_name S2C 42)),
               (SHARE, ClientPtr (Some 5), Request ''0 bob'')]"
proof -
  let ?ops = "[Enq 16 (HANDSHAKE, 42, None, None), Enq 32 (SHARE, 0, Some ''0 bob'', Some 5), Deq, Deq, Deq]"
  have h: "list_all enq_args_ok (op_args ?ops)" "distinct (op_addrs ?ops)"
    "list_all (malloc_ok (tq_mem task_init)) (op_addrs ?ops)"
    by (simp_all add: enq_args_ok_def malloc_ok_def valid_addr_def task_init_def)
  from task_queue_is_fifo [OF tq_inv_init(1) h] show ?thesis
    by (auto simp: tq_inv_init enq_value_def enq_payload_def)
qed

text \<open>
  destroying the queue after shutdown frees every task still queued, exactly once, and
  nothing else; while the server runs it does nothing.
\<close>
theorem task_destroy_frees_all:
  assumes "tq_inv q"
  shows "task_destroy True q = Some (Inr q) \<and>
    (\<exists>q'. task_destroy False q = Some (Inr q') \<and> tq_head q' = None
      \<and> (\<forall>a. tq_mem q' a = (if a \<in> set (tq_addrs q) then None else tq_mem q a)))"
  using task_destroy_rep [of q "tq_addrs q"] assms
  by (auto simp: task_destroy_def tq_inv_def tq_rep_def)

theorem task_destroy_frees_all_witness:
  "\<exists>q'. task_destroy False task_init = Some (Inr q') \<and> tq_head q' = None"
  using task_destroy_frees_all [OF tq_inv_init(1)] by blast

end
