(* ===== verification/Registry.thy ===== *)
theory Registry
  imports ObjectTable Fifo "HOL-Library.While_Combinator"
begin

text \<open>
  \<open>server/src/client_registry.c\<close>: the connected clients, reference-counted heap blocks on a
  doubly linked list under one mutex. The registry holds one reference; each task and each
  result that carries a pointer to the client holds one more. A client that is removed
  is marked dead, its objects are destroyed, it is unlinked, and it is freed by the
  release of its last reference.
\<close>

section \<open>State\<close>

text \<open>\<open>username\<close> is \<open>None\<close> until it is first written: \<open>malloc\<close> does not initialise it.\<close>

record ActiveClient =
  client_pid :: int
  c2s_fd :: int
  s2c_fd :: int
  refcount :: size_t
  logged_in :: bool
  dead :: bool
  username :: "string option"
  c_next :: "addr option"
  c_prev :: "addr option"

record ClientRegistry =
  cr_clients :: "addr option"
  cr_count :: nat
  cr_mem :: "addr \<rightharpoonup> ActiveClient"

definition creg_init :: ClientRegistry where
  "creg_init = \<lparr>cr_clients = None, cr_count = 0, cr_mem = Map.empty\<rparr>"

text \<open>The calls to the operating system whose order and number matter, as a trace.\<close>

datatype os_event = Close int | Unlink string | WriteTo int string | Sleep
  | Mkfifo string | Kill int | OpenRd string | OpenWr string | WriteFile string | System string

definition destroy_client_pipes :: "int \<Rightarrow> int \<Rightarrow> int \<Rightarrow> os_event list" where
  "destroy_client_pipes pid c2s s2c =
     [Close c2s, Close s2c, Unlink (set_name C2S pid), Unlink (set_name S2C pid)]"

section \<open>Operations\<close>

definition upd_client :: "addr \<Rightarrow> (ActiveClient \<Rightarrow> ActiveClient) \<Rightarrow> ClientRegistry \<Rightarrow> ClientRegistry res" where
  "upd_client a f R = and_then (load (cr_mem R) a) (\<lambda>c. Inr (R\<lparr>cr_mem := (cr_mem R)(a \<mapsto> f c)\<rparr>))"

definition new_client :: "int \<Rightarrow> int \<Rightarrow> int \<Rightarrow> addr option \<Rightarrow> ActiveClient" where
  "new_client pid c2s s2c nxt =
     \<lparr>client_pid = pid, c2s_fd = c2s, s2c_fd = s2c, refcount = 1, logged_in = False, dead = False,
      username = None, c_next = nxt, c_prev = None\<rparr>"

definition creg_insert ::
  "addr option \<Rightarrow> int \<Rightarrow> int \<Rightarrow> int \<Rightarrow> ClientRegistry \<Rightarrow> (addr option \<times> ClientRegistry) res" where
  "creg_insert malloc pid c2s s2c R =
     (case malloc of
        None \<Rightarrow> Inr (None, R)
      | Some a \<Rightarrow>
          let R1 = R\<lparr>cr_mem := (cr_mem R)(a \<mapsto> new_client pid c2s s2c (cr_clients R))\<rparr>
          in and_then
               (case cr_clients R of
                  None \<Rightarrow> Inr R1
                | Some h \<Rightarrow> upd_client h (\<lambda>c. c\<lparr>c_prev := Some a\<rparr>) R1)
               (\<lambda>R2. Inr (Some a, R2\<lparr>cr_clients := Some a, cr_count := sz_succ (cr_count R2)\<rparr>)))"

definition creg_acquire_client :: "addr \<Rightarrow> ClientRegistry \<Rightarrow> (ErrType \<times> ClientRegistry) res" where
  "creg_acquire_client a R =
     and_then (load (cr_mem R) a) (\<lambda>c.
       if \<not> dead c
       then Inr (SUCCESS, R\<lparr>cr_mem := (cr_mem R)(a \<mapsto> c\<lparr>refcount := refcount c + 1\<rparr>)\<rparr>)
       else Inr (FAIL, R))"

definition creg_release_client :: "addr \<Rightarrow> ClientRegistry \<Rightarrow> (os_event list \<times> ClientRegistry) res" where
  "creg_release_client a R =
     and_then (load (cr_mem R) a) (\<lambda>c.
       let c1 = c\<lparr>refcount := refcount c - 1\<rparr>
       in if dead c1 \<and> refcount c1 = 0
          then Inr (destroy_client_pipes (client_pid c1) (c2s_fd c1) (s2c_fd c1),
                    R\<lparr>cr_mem := (cr_mem R)(a := None)\<rparr>)
          else Inr ([], R\<lparr>cr_mem := (cr_mem R)(a \<mapsto> c1)\<rparr>))"

text \<open>
  The three loops of \<open>client_markdead\<close> have one shape, over the indices of a table: an object
  of the client that the library still holds is removed and loses its owner.
\<close>

fun sweep ::
  "('e \<Rightarrow> bool) \<Rightarrow> (int \<Rightarrow> 'e table \<times> 'l \<Rightarrow> ('e table \<times> 'l) res) \<Rightarrow> ('e \<Rightarrow> 'e)
   \<Rightarrow> nat list \<Rightarrow> 'e table \<times> 'l \<Rightarrow> ('e table \<times> 'l) res" where
  "sweep owned remove disown [] S = Inr S"
| "sweep owned remove disown (i # is) S =
     and_then (entry (fst S) i) (\<lambda>e.
       if owned e then
         and_then (remove (int i) S) (\<lambda>S1.
         and_then (entry (fst S1) i) (\<lambda>e1.
         and_then (set_entry (fst S1) i (disown e1)) (\<lambda>T2.
           sweep owned remove disown is (T2, snd S1))))
       else sweep owned remove disown is S)"

definition owned_canvas :: "addr \<Rightarrow> CanvasEntry \<Rightarrow> bool" where
  "owned_canvas c ce \<longleftrightarrow> cv_ptr ce \<noteq> None \<and> cv_owner ce = Some c"

definition owned_sprite :: "addr \<Rightarrow> SpriteEntry \<Rightarrow> bool" where
  "owned_sprite c se \<longleftrightarrow> sp_ptr se \<noteq> None \<and> sp_owner se = Some c"

definition owned_placement :: "addr \<Rightarrow> PlacementEntry \<Rightarrow> bool" where
  "owned_placement c pe \<longleftrightarrow> pl_ptr pe \<noteq> None \<and> pl_owner pe = Some c"

definition sweep_canvases ::
  "'l animate \<Rightarrow> addr \<Rightarrow> nat list \<Rightarrow> CanvasEntry table \<times> 'l \<Rightarrow> (CanvasEntry table \<times> 'l) res" where
  "sweep_canvases lib c =
     sweep (owned_canvas c) (canvas_remove lib) (\<lambda>ce. ce\<lparr>cv_owner := None\<rparr>)"

definition sweep_sprites ::
  "'l animate \<Rightarrow> addr \<Rightarrow> nat list \<Rightarrow> SpriteEntry table \<times> 'l \<Rightarrow> (SpriteEntry table \<times> 'l) res" where
  "sweep_sprites lib c =
     sweep (owned_sprite c) (\<lambda>i S. and_then (sprite_remove lib i S) (\<lambda>(ret, S1). Inr S1))
       (\<lambda>se. se\<lparr>sp_owner := None\<rparr>)"

definition sweep_placements ::
  "'l animate \<Rightarrow> addr \<Rightarrow> nat list \<Rightarrow> PlacementEntry table \<times> 'l \<Rightarrow> (PlacementEntry table \<times> 'l) res" where
  "sweep_placements lib c =
     sweep (owned_placement c) (placement_remove lib) (\<lambda>pe. pe\<lparr>pl_owner := None\<rparr>)"

definition indices :: "'e table \<Rightarrow> nat list" where
  "indices T = [0..<nat (tcount T)]"

definition destroy_objects :: "'l animate \<Rightarrow> addr \<Rightarrow> tables \<times> 'l \<Rightarrow> (tables \<times> 'l) res" where
  "destroy_objects lib a S = (case S of (tb, l) \<Rightarrow>
     and_then (sweep_canvases lib a (indices (CANVAS_TABLE tb)) (CANVAS_TABLE tb, l)) (\<lambda>(ct, l1).
     and_then (sweep_sprites lib a (indices (SPRITE_TABLE tb)) (SPRITE_TABLE tb, l1)) (\<lambda>(st, l2).
     and_then (sweep_placements lib a (indices (PLACEMENT_TABLE tb)) (PLACEMENT_TABLE tb, l2)) (\<lambda>(pt, l3).
       Inr (\<lparr>CANVAS_TABLE = ct, SPRITE_TABLE = st, PLACEMENT_TABLE = pt\<rparr>, l3)))))"

definition client_markdead ::
  "'l animate \<Rightarrow> addr \<Rightarrow> ClientRegistry \<times> tables \<times> 'l \<Rightarrow> (ClientRegistry \<times> tables \<times> 'l) res" where
  "client_markdead lib a S = (case S of (R, tb, l) \<Rightarrow>
     and_then (upd_client a (\<lambda>c. c\<lparr>dead := True\<rparr>) R) (\<lambda>R1.
     and_then (destroy_objects lib a (tb, l)) (\<lambda>(tb1, l1). Inr (R1, tb1, l1))))"

text \<open>
  The search along the list. The state of the loop is the current pointer, or the fault its
  dereference has caused.
\<close>

definition find_client :: "addr \<Rightarrow> ClientRegistry \<Rightarrow> addr option res" where
  "find_client a R =
     (case while_option
             (\<lambda>s. case s of Inr (Some c) \<Rightarrow> c \<noteq> a | _ \<Rightarrow> False)
             (\<lambda>s. case s of Inr (Some c) \<Rightarrow> and_then (load (cr_mem R) c) (\<lambda>cl. Inr (c_next cl)) | _ \<Rightarrow> s)
             (Inr (cr_clients R)) of
        None \<Rightarrow> Inl Diverges
      | Some s \<Rightarrow> s)"

definition creg_unlink :: "addr \<Rightarrow> ClientRegistry \<Rightarrow> ClientRegistry res" where
  "creg_unlink a R =
     and_then (find_client a R) (\<lambda>found.
       case found of
         None \<Rightarrow> Inr R
       | Some cu \<Rightarrow>
           and_then (load (cr_mem R) cu) (\<lambda>c.
           and_then
             (case c_prev c of
                None \<Rightarrow> Inr (R\<lparr>cr_clients := c_next c\<rparr>)
              | Some p \<Rightarrow> upd_client p (\<lambda>pc. pc\<lparr>c_next := c_next c\<rparr>) R) (\<lambda>R1.
           and_then
             (case c_next c of
                None \<Rightarrow> Inr R1
              | Some n \<Rightarrow> upd_client n (\<lambda>nc. nc\<lparr>c_prev := c_prev c\<rparr>) R1) (\<lambda>R2.
           upd_client a (\<lambda>cl. cl\<lparr>c_next := None, c_prev := None\<rparr>)
             (R2\<lparr>cr_count := sz_pred (cr_count R2)\<rparr>)))))"

definition creg_remove ::
  "'l animate \<Rightarrow> addr \<Rightarrow> ClientRegistry \<times> tables \<times> 'l
   \<Rightarrow> (os_event list \<times> ClientRegistry \<times> tables \<times> 'l) res" where
  "creg_remove lib a S =
     and_then (client_markdead lib a S) (\<lambda>(R1, tb1, l1).
     and_then (creg_unlink a R1) (\<lambda>R2.
     and_then (creg_release_client a R2) (\<lambda>(evs, R3). Inr (evs, R3, tb1, l1))))"

text \<open>The loop of \<open>creg_destroy\<close>: it does not look at the reference counts.\<close>

definition creg_destroy :: "bool \<Rightarrow> ClientRegistry \<Rightarrow> (os_event list \<times> ClientRegistry) res" where
  "creg_destroy running R =
     (if running then Inr ([], R)
      else
        case while_option
               (\<lambda>s. case s of Inr (Some c, evs, mem) \<Rightarrow> True | _ \<Rightarrow> False)
               (\<lambda>s. case s of
                   Inr (Some c, evs, mem) \<Rightarrow>
                     and_then (load mem c) (\<lambda>cl.
                       Inr (c_next cl,
                            evs @ destroy_client_pipes (client_pid cl) (c2s_fd cl) (s2c_fd cl),
                            mem(c := None)))
                 | _ \<Rightarrow> s)
               (Inr (cr_clients R, [], cr_mem R)) of
          None \<Rightarrow> Inl Diverges
        | Some s \<Rightarrow> and_then s (\<lambda>(p, evs, mem).
            Inr (evs, \<lparr>cr_clients = None, cr_count = 0, cr_mem = mem\<rparr>)))"

text \<open>The search of the SHARE handler: the first client that is logged in under a name.\<close>

definition find_user :: "string \<Rightarrow> ClientRegistry \<Rightarrow> addr option res" where
  "find_user user R =
     (case while_option
             (\<lambda>s. case s of
                 Inr (Some c, hit) \<Rightarrow> \<not> hit
               | _ \<Rightarrow> False)
             (\<lambda>s. case s of
                 Inr (Some c, hit) \<Rightarrow>
                   and_then (load (cr_mem R) c) (\<lambda>cl.
                     if logged_in cl then
                       (case username cl of
                          None \<Rightarrow> Inl Uninitialised
                        | Some u \<Rightarrow> if u = user then Inr (Some c, True) else Inr (c_next cl, False))
                     else Inr (c_next cl, False))
               | _ \<Rightarrow> s)
             (Inr (cr_clients R, False)) of
        None \<Rightarrow> Inl Diverges
      | Some s \<Rightarrow> and_then s (\<lambda>(p, hit). Inr (if hit then p else None)))"

section \<open>The list a registry stands for\<close>

text \<open>
  The links of a block: its next and previous pointers. \<open>lpath L q p as\<close>: from the pointer
  \<open>p\<close> the next pointers run through \<open>as\<close> to null, and the previous pointers back, from the
  first block to \<open>q\<close>.
\<close>

type_synonym links = "addr \<rightharpoonup> addr option \<times> addr option"

definition links_of :: "(addr \<rightharpoonup> ActiveClient) \<Rightarrow> links" where
  "links_of mem a = map_option (\<lambda>c. (c_next c, c_prev c)) (mem a)"

fun lpath :: "links \<Rightarrow> addr option \<Rightarrow> addr option \<Rightarrow> addr list \<Rightarrow> bool" where
  "lpath L q p [] \<longleftrightarrow> p = None"
| "lpath L q p (a # as) \<longleftrightarrow> p = Some a \<and> (\<exists>n. L a = Some (n, q) \<and> lpath L (Some a) n as)"

definition reg_rep :: "ClientRegistry \<Rightarrow> addr list \<Rightarrow> bool" where
  "reg_rep R as \<longleftrightarrow> lpath (links_of (cr_mem R)) None (cr_clients R) as \<and> distinct as
     \<and> (\<forall>a \<in> set as. valid_addr a) \<and> cr_count R = length as"

text \<open>The client at an address without its links: what the list operations leave alone.\<close>

definition client_at :: "ClientRegistry \<Rightarrow> addr \<Rightarrow> ActiveClient option" where
  "client_at R a = map_option (\<lambda>c. c\<lparr>c_next := None, c_prev := None\<rparr>) (cr_mem R a)"

lemma links_of_Some:
  "links_of mem a = Some (n, q) \<longleftrightarrow> (\<exists>c. mem a = Some c \<and> c_next c = n \<and> c_prev c = q)"
  by (auto simp: links_of_def)

lemma client_at_None [simp]: "client_at R a = None \<longleftrightarrow> cr_mem R a = None"
  by (simp add: client_at_def)

lemma lpath_cong:
  "(\<And>a. a \<in> set as \<Longrightarrow> L a = M a) \<Longrightarrow> lpath L q p as = lpath M q p as"
  by (induction as arbitrary: q p) auto

lemma lpath_other [simp]: "a \<notin> set as \<Longrightarrow> lpath (L(a := v)) q p as = lpath L q p as"
  by (rule lpath_cong) auto

lemma lpath_linked: "lpath L q p as \<Longrightarrow> a \<in> set as \<Longrightarrow> L a \<noteq> None"
  by (induction as arbitrary: q p) auto

lemma reg_rep_links:
  "links_of (cr_mem R') = links_of (cr_mem R) \<Longrightarrow> cr_clients R' = cr_clients R \<Longrightarrow>
   cr_count R' = cr_count R \<Longrightarrow> reg_rep R' as = reg_rep R as"
  by (simp add: reg_rep_def)

lemma reg_rep_allocated: "reg_rep R as \<Longrightarrow> a \<in> set as \<Longrightarrow> cr_mem R a \<noteq> None"
  using lpath_linked [of "links_of (cr_mem R)" None "cr_clients R" as a]
  by (auto simp: reg_rep_def links_of_def)

lemma reg_rep_length: "reg_rep R as \<Longrightarrow> length as < 2 ^ 64"
  using distinct_addrs_bound [of as] by (simp add: reg_rep_def)

lemma reg_rep_init: "reg_rep creg_init []"
  by (simp add: reg_rep_def creg_init_def)

text \<open>Changing the other fields of a block keeps the list.\<close>

lemma links_of_upd:
  "mem a = Some c \<Longrightarrow> c_next c' = c_next c \<Longrightarrow> c_prev c' = c_prev c \<Longrightarrow>
   links_of (mem(a \<mapsto> c')) = links_of mem"
  by (auto simp: links_of_def fun_eq_iff)

lemma reg_rep_upd:
  "reg_rep R as \<Longrightarrow> cr_mem R a = Some c \<Longrightarrow> c_next c' = c_next c \<Longrightarrow> c_prev c' = c_prev c \<Longrightarrow>
   reg_rep (R\<lparr>cr_mem := (cr_mem R)(a \<mapsto> c')\<rparr>) as"
  by (subst reg_rep_links [where R = R]) (simp_all add: links_of_upd)

lemma reg_rep_free:
  "reg_rep R as \<Longrightarrow> a \<notin> set as \<Longrightarrow> reg_rep (R\<lparr>cr_mem := (cr_mem R)(a := None)\<rparr>) as"
  unfolding reg_rep_def
  by (auto simp: links_of_def elim!: lpath_cong [THEN iffD1, rotated])

section \<open>Insertion puts a client at the front\<close>

lemma lpath_head_prev:
  "lpath L None p as \<Longrightarrow> distinct as \<Longrightarrow> p = Some h \<Longrightarrow> L h = Some (n, None) \<Longrightarrow>
   lpath (L(h \<mapsto> (n, q))) q p as"
  by (cases as) auto

lemma creg_insert_rep:
  assumes rep: "reg_rep R as" and "malloc_ok (cr_mem R) a"
  shows "\<exists>R'. creg_insert (Some a) pid c2s s2c R = Inr (Some a, R') \<and> reg_rep R' (a # as)
    \<and> client_at R' = (client_at R)(a \<mapsto> new_client pid c2s s2c None)"
proof -
  note rep' = rep [unfolded reg_rep_def]
  from assms(2) have a: "valid_addr a" "cr_mem R a = None" by (auto simp: malloc_ok_def)
  with reg_rep_allocated [OF rep, of a] have fresh: "a \<notin> set as" by auto
  have "length (a # as) < 2 ^ 64" using rep' a fresh by (intro distinct_addrs_bound) auto
  then have cnt: "sz_succ (cr_count R) = Suc (length as)" using rep' by simp
  let ?n = "new_client pid c2s s2c (cr_clients R)"
  show ?thesis
  proof (cases as)
    case Nil
    with rep' a cnt show ?thesis
      by (auto simp: creg_insert_def Let_def reg_rep_def links_of_def new_client_def client_at_def fun_eq_iff)
  next
    case (Cons h hs)
    with rep' obtain c where h: "cr_clients R = Some h" "cr_mem R h = Some c" "c_prev c = None"
      by (auto simp: links_of_def)
    have ah: "a \<noteq> h" using fresh Cons by auto
    let ?R = "R\<lparr>cr_mem := (cr_mem R)(a \<mapsto> ?n, h \<mapsto> c\<lparr>c_prev := Some a\<rparr>), cr_clients := Some a,
                cr_count := sz_succ (cr_count R)\<rparr>"
    have ins: "creg_insert (Some a) pid c2s s2c R = Inr (Some a, ?R)"
      using h ah by (simp add: creg_insert_def Let_def upd_client_def)
    have "lpath ((links_of (cr_mem R))(h \<mapsto> (c_next c, Some a))) (Some a) (Some h) as"
      using lpath_head_prev [of "links_of (cr_mem R)" "cr_clients R" as h "c_next c" "Some a"] rep' h
      by (simp add: links_of_def)
    then have "lpath (links_of (cr_mem ?R)) (Some a) (Some h) as"
      by (rule lpath_cong [THEN iffD1, rotated]) (use fresh h in \<open>auto simp: links_of_def\<close>)
    then have "reg_rep ?R (a # as)"
      using rep' a fresh cnt h ah by (auto simp: reg_rep_def links_of_def new_client_def)
    moreover have "client_at ?R = (client_at R)(a \<mapsto> new_client pid c2s s2c None)"
      using h ah by (auto simp: client_at_def fun_eq_iff new_client_def)
    ultimately show ?thesis using ins by blast
  qed
qed

section \<open>Searching\<close>

lemma find_client_lpath:
  assumes "lpath (links_of mem) q p as"
  shows "while_option
     (\<lambda>s. case s of Inr (Some c) \<Rightarrow> c \<noteq> a | _ \<Rightarrow> False)
     (\<lambda>s. case s of Inr (Some c) \<Rightarrow> and_then (load mem c) (\<lambda>cl. Inr (c_next cl)) | _ \<Rightarrow> s)
     (Inr p) = Some (Inr (if a \<in> set as then Some a else None) :: addr option res)"
  using assms
proof (induction as arbitrary: q p)
  case Nil
  then show ?case by (subst while_option_unfold) simp
next
  case (Cons b bs)
  then obtain c where c: "p = Some b" "mem b = Some c" "lpath (links_of mem) (Some b) (c_next c) bs"
    by (auto simp: links_of_Some)
  show ?case
  proof (cases "a = b")
    case True
    with c show ?thesis by (subst while_option_unfold) simp
  next
    case False
    with c Cons.IH [OF c(3)] show ?thesis by (subst while_option_unfold) simp
  qed
qed

lemma find_client_rep:
  "reg_rep R as \<Longrightarrow> find_client a R = Inr (if a \<in> set as then Some a else None)"
  using find_client_lpath [of "cr_mem R" None "cr_clients R" as a]
  by (simp add: find_client_def reg_rep_def)

text \<open>What the search of SHARE finds: the first block of the list that matches.\<close>

definition user_matches :: "string \<Rightarrow> ActiveClient option \<Rightarrow> bool" where
  "user_matches u co = (case co of None \<Rightarrow> False | Some c \<Rightarrow> logged_in c \<and> username c = Some u)"

definition names_set :: "ActiveClient option \<Rightarrow> bool" where
  "names_set co = (case co of None \<Rightarrow> True | Some c \<Rightarrow> logged_in c \<longrightarrow> username c \<noteq> None)"

lemma find_user_lpath:
  assumes "lpath (links_of mem) q p as" and "\<forall>a \<in> set as. names_set (mem a)"
  shows "while_option
     (\<lambda>s. case s of Inr (Some c, hit) \<Rightarrow> \<not> hit | _ \<Rightarrow> False)
     (\<lambda>s. case s of
         Inr (Some c, hit) \<Rightarrow>
           and_then (load mem c) (\<lambda>cl.
             if logged_in cl then
               (case username cl of
                  None \<Rightarrow> Inl Uninitialised
                | Some u \<Rightarrow> if u = user then Inr (Some c, True) else Inr (c_next cl, False))
             else Inr (c_next cl, False))
       | _ \<Rightarrow> s)
     (Inr (p, False))
   = Some (Inr (case List.find (\<lambda>a. user_matches user (mem a)) as of
             None \<Rightarrow> (None, False) | Some a \<Rightarrow> (Some a, True)) :: (addr option \<times> bool) res)"
  using assms
proof (induction as arbitrary: q p)
  case Nil
  then show ?case by (subst while_option_unfold) simp
next
  case (Cons b bs)
  then obtain c where c: "p = Some b" "mem b = Some c" "lpath (links_of mem) (Some b) (c_next c) bs"
    by (auto simp: links_of_Some)
  show ?case
  proof (cases "user_matches user (mem b)")
    case True
    with c show ?thesis
      by (subst while_option_unfold) (simp add: user_matches_def, subst while_option_unfold, simp)
  next
    case False
    with c Cons.IH [OF c(3)] Cons.prems(2) show ?thesis
      by (subst while_option_unfold)
         (auto simp: user_matches_def names_set_def split: option.splits)
  qed
qed

lemma find_user_rep:
  assumes "reg_rep R as" and "\<forall>a \<in> set as. names_set (cr_mem R a)"
  shows "find_user user R = Inr (List.find (\<lambda>a. user_matches user (cr_mem R a)) as)"
  using find_user_lpath [of "cr_mem R" None "cr_clients R" as user] assms
  by (simp add: find_user_def reg_rep_def split: option.split)

section \<open>Unlinking\<close>

text \<open>The links after the block with the links \<open>(n, q)\<close> is taken out between \<open>xs\<close> and \<open>ys\<close>.\<close>

definition bypass :: "addr list \<Rightarrow> addr list \<Rightarrow> addr option \<Rightarrow> addr option \<Rightarrow> links \<Rightarrow> links" where
  "bypass xs ys n q L b = map_option (\<lambda>(nb, qb).
     (if xs \<noteq> [] \<and> b = last xs then n else nb, if ys \<noteq> [] \<and> b = hd ys then q else qb)) (L b)"

lemma lpath_bypass:
  "lpath L q0 p (xs @ a # ys) \<Longrightarrow> distinct (xs @ a # ys) \<Longrightarrow> L a = Some (n, q) \<Longrightarrow>
   lpath (bypass xs ys n q L) q0 (if xs = [] then n else p) (xs @ ys)
   \<and> q = (if xs = [] then q0 else Some (last xs)) \<and> n = (if ys = [] then None else Some (hd ys))"
proof (induction xs arbitrary: q0 p)
  case Nil
  show ?case
  proof (cases ys)
    case Nil
    with Nil.prems show ?thesis by auto
  next
    case (Cons y ys1)
    with Nil.prems obtain m where m: "n = Some y" "q = q0" "L y = Some (m, Some a)" "lpath L (Some y) m ys1"
      and d: "y \<notin> set ys1" by auto
    have "lpath (bypass [] ys n q L) (Some y) m ys1"
      by (rule lpath_cong [THEN iffD1, rotated, OF m(4)])
         (use d Cons in \<open>auto simp: bypass_def map_option_case split: option.split\<close>)
    moreover have "bypass [] ys n q L y = Some (m, q)" using m Cons by (simp add: bypass_def)
    ultimately show ?thesis using m Cons by simp
  qed
next
  case (Cons x xs)
  then obtain m where m: "p = Some x" "L x = Some (m, q0)" "lpath L (Some x) m (xs @ a # ys)"
    and d: "x \<notin> set (xs @ a # ys)" by auto
  have IH: "lpath (bypass xs ys n q L) (Some x) (if xs = [] then n else m) (xs @ ys)
      \<and> q = (if xs = [] then Some x else Some (last xs)) \<and> n = (if ys = [] then None else Some (hd ys))"
    by (rule Cons.IH [OF m(3)]) (use Cons.prems in simp_all)
  have "bypass xs ys n q L b = bypass (x # xs) ys n q L b" if "b \<in> set (xs @ ys)" for b
  proof -
    from that d have "b \<noteq> x" by auto
    then show ?thesis by (simp add: bypass_def)
  qed
  then have "lpath (bypass (x # xs) ys n q L) (Some x) (if xs = [] then n else m) (xs @ ys)"
    by (rule lpath_cong [THEN iffD1, rotated, OF IH [THEN conjunct1]])
  moreover have "bypass (x # xs) ys n q L x = Some (if xs = [] then n else m, q0)"
    using m(2) d by (cases ys) (auto simp: bypass_def)
  moreover have "q = Some (last (x # xs))" "n = (if ys = [] then None else Some (hd ys))"
    using IH by simp_all
  ultimately show ?case using m(1) by simp
qed

lemma upd_client_Some:
  "cr_mem R a = Some c \<Longrightarrow> upd_client a f R = Inr (R\<lparr>cr_mem := (cr_mem R)(a \<mapsto> f c)\<rparr>)"
  by (simp add: upd_client_def)

text \<open>The memory after the three writes of \<open>creg_unlink\<close>, as one update per block.\<close>

definition unlink_mem ::
  "addr \<Rightarrow> addr option \<Rightarrow> addr option \<Rightarrow> (addr \<rightharpoonup> ActiveClient) \<Rightarrow> addr \<rightharpoonup> ActiveClient" where
  "unlink_mem a n q mem b = map_option (\<lambda>c.
     if b = a then c\<lparr>c_next := None, c_prev := None\<rparr>
     else c\<lparr>c_next := if q = Some b then n else c_next c,
            c_prev := if n = Some b then q else c_prev c\<rparr>) (mem b)"

lemma creg_unlink_eq:
  assumes "find_client a R = Inr (Some a)" and a: "cr_mem R a = Some c"
    and nq: "c_next c \<noteq> Some a" "c_prev c \<noteq> Some a"
    and q: "\<forall>p. c_prev c = Some p \<longrightarrow> cr_mem R p \<noteq> None"
    and n: "\<forall>m. c_next c = Some m \<longrightarrow> cr_mem R m \<noteq> None \<and> c_prev c \<noteq> Some m"
  shows "creg_unlink a R = Inr (R\<lparr>cr_clients := if c_prev c = None then c_next c else cr_clients R,
           cr_count := sz_pred (cr_count R), cr_mem := unlink_mem a (c_next c) (c_prev c) (cr_mem R)\<rparr>)"
proof -
  have "unlink_mem a (c_next c) (c_prev c) (cr_mem R) =
    (let m1 = (case c_prev c of None \<Rightarrow> cr_mem R
               | Some p \<Rightarrow> (cr_mem R)(p \<mapsto> (the (cr_mem R p))\<lparr>c_next := c_next c\<rparr>));
         m2 = (case c_next c of None \<Rightarrow> m1 | Some m \<Rightarrow> m1(m \<mapsto> (the (cr_mem R m))\<lparr>c_prev := c_prev c\<rparr>))
     in m2(a \<mapsto> c\<lparr>c_next := None, c_prev := None\<rparr>))"
    using a nq q n
    by (auto simp: unlink_mem_def Let_def fun_eq_iff map_option_case split: option.splits)
  then show ?thesis
    using assms by (cases "c_prev c"; cases "c_next c")
      (auto simp: creg_unlink_def upd_client_def)
qed

lemma creg_unlink_rep:
  assumes rep: "reg_rep R as" and "a \<in> set as"
  shows "\<exists>R'. creg_unlink a R = Inr R' \<and> reg_rep R' (remove1 a as) \<and> client_at R' = client_at R"
proof -
  note rep' = rep [unfolded reg_rep_def]
  obtain xs ys where as: "as = xs @ a # ys" using assms(2) split_list by fast
  obtain c where a: "cr_mem R a = Some c" using reg_rep_allocated [OF rep assms(2)] by auto
  let ?n = "c_next c" and ?q = "c_prev c" and ?L = "links_of (cr_mem R)"
  have bp: "lpath (bypass xs ys ?n ?q ?L) None (if xs = [] then ?n else cr_clients R) (xs @ ys)"
    and q: "?q = (if xs = [] then None else Some (last xs))"
    and n: "?n = (if ys = [] then None else Some (hd ys))"
  proof -
    have "lpath ?L None (cr_clients R) (xs @ a # ys)" "distinct (xs @ a # ys)" "?L a = Some (?n, ?q)"
      using rep' as a by (simp_all add: links_of_Some)
    from lpath_bypass [OF this] show "lpath (bypass xs ys ?n ?q ?L) None (if xs = [] then ?n else cr_clients R) (xs @ ys)"
      and "?q = (if xs = [] then None else Some (last xs))" and "?n = (if ys = [] then None else Some (hd ys))"
      by blast+
  qed
  have d: "distinct (xs @ a # ys)" using rep' as by simp
  have mem: "cr_mem R b \<noteq> None" if "b \<in> set (xs @ ys)" for b
    using reg_rep_allocated [OF rep, of b] that as by auto
  let ?R = "R\<lparr>cr_clients := if ?q = None then ?n else cr_clients R,
              cr_count := sz_pred (cr_count R), cr_mem := unlink_mem a ?n ?q (cr_mem R)\<rparr>"
  have l: "last xs \<in> set xs" if "xs \<noteq> []" using that by simp
  have h: "hd ys \<in> set ys" if "ys \<noteq> []" using that by simp
  have lh: "last xs \<noteq> hd ys" if "xs \<noteq> []" "ys \<noteq> []"
    using l [OF that(1)] h [OF that(2)] d by (metis disjoint_iff distinct_append list.set_intros(2))
  have eq: "creg_unlink a R = Inr ?R"
  proof (rule creg_unlink_eq [OF _ a])
    show "find_client a R = Inr (Some a)" using find_client_rep [OF rep] assms(2) by simp
    show "?n \<noteq> Some a" "?q \<noteq> Some a" using d n q l h by (auto split: if_splits)
    show "\<forall>p. ?q = Some p \<longrightarrow> cr_mem R p \<noteq> None" using q l mem by auto
    show "\<forall>m. ?n = Some m \<longrightarrow> cr_mem R m \<noteq> None \<and> ?q \<noteq> Some m"
      using n q lh h mem by (auto split: if_splits)
  qed
  have "lpath (links_of (cr_mem ?R)) None (cr_clients ?R) (xs @ ys)"
  proof (rule lpath_cong [THEN iffD1, rotated])
    show "lpath (bypass xs ys ?n ?q ?L) None (cr_clients ?R) (xs @ ys)" using bp q by auto
    fix b assume b: "b \<in> set (xs @ ys)"
    then have "b \<noteq> a" using d by auto
    with mem [OF b] show "bypass xs ys ?n ?q ?L b = links_of (cr_mem ?R) b"
      unfolding n q by (auto simp: bypass_def links_of_def unlink_mem_def)
  qed
  moreover have "sz_pred (cr_count R) = length (xs @ ys)"
    using rep' as reg_rep_length [OF rep] by simp
  ultimately have "reg_rep ?R (remove1 a as)"
    using rep' as d by (auto simp: reg_rep_def remove1_append)
  moreover have "client_at ?R = client_at R"
    by (auto simp: client_at_def unlink_mem_def fun_eq_iff option.map_comp comp_def map_option_case
             split: option.split)
  ultimately show ?thesis using eq by blast
qed

lemma creg_unlink_absent: "reg_rep R as \<Longrightarrow> a \<notin> set as \<Longrightarrow> creg_unlink a R = Inr R"
  by (simp add: creg_unlink_def find_client_rep)

section \<open>Removing the objects of a client\<close>

text \<open>
  What a sweep does to a well-formed table: each entry that is owned and still held by the library is
  destroyed there, once, in the order of the ids, and is cleared and disowned here.
\<close>

lemma sweep_table:
  assumes rem: "\<And>T l i. table_wf es T \<Longrightarrow> i < length (items T) \<Longrightarrow>
      \<exists>T'. remove (int i) (T, l) = Inr (T', destr (items T ! i) l) \<and> table_wf es T'
         \<and> items T' = (items T)[i := clear (items T ! i)]"
  shows "table_wf es T \<Longrightarrow> j + k = length (items T) \<Longrightarrow>
    \<exists>T'. sweep owned remove disown [j..<length (items T)] (T, l)
          = Inr (T', fold destr (filter owned (drop j (items T))) l)
       \<and> table_wf es T'
       \<and> items T' = take j (items T) @ map (\<lambda>e. if owned e then disown (clear e) else e) (drop j (items T))"
proof (induction k arbitrary: j T l)
  case 0
  then show ?case by auto
next
  case (Suc k)
  then have j: "j < length (items T)" by simp
  let ?e = "items T ! j"
  have upt: "[j..<length (items T)] = j # [Suc j..<length (items T)]" using j by (rule upt_conv_Cons)
  have drop: "drop j (items T) = ?e # drop (Suc j) (items T)" using j by (simp add: Cons_nth_drop_Suc)
  have e: "entry T j = Inr ?e" using Suc.prems j by (simp add: entry_wf)
  show ?case
  proof (cases "owned ?e")
    case False
    from Suc.IH [of T "Suc j" l] Suc.prems obtain T' where
      "sweep owned remove disown [Suc j..<length (items T)] (T, l)
         = Inr (T', fold destr (filter owned (drop (Suc j) (items T))) l)" "table_wf es T'"
      "items T' = take (Suc j) (items T) @ map (\<lambda>e. if owned e then disown (clear e) else e) (drop (Suc j) (items T))"
      by auto
    with False e upt drop j show ?thesis by (intro exI [of _ T']) (simp add: take_Suc_conv_app_nth)
  next
    case True
    obtain T1 where T1: "remove (int j) (T, l) = Inr (T1, destr ?e l)" "table_wf es T1"
      "items T1 = (items T)[j := clear ?e]" using rem [OF Suc.prems(1) j] by blast
    have e1: "entry T1 j = Inr (clear ?e)" using T1 j by (simp add: entry_wf)
    obtain T2 where T2: "set_entry T1 j (disown (clear ?e)) = Inr T2" "table_wf es T2"
      "items T2 = (items T)[j := disown (clear ?e)]"
      using set_entry_wf [OF T1(2), of j "disown (clear ?e)"] T1 j by auto
    from Suc.IH [of T2 "Suc j" "destr ?e l"] Suc.prems T2 obtain T' where
      "sweep owned remove disown [Suc j..<length (items T)] (T2, destr ?e l)
         = Inr (T', fold destr (filter owned (drop (Suc j) (items T))) (destr ?e l))" "table_wf es T'"
      "items T' = take (Suc j) (items T2) @ map (\<lambda>e. if owned e then disown (clear e) else e) (drop (Suc j) (items T))"
      by auto
    with True e T1(1) e1 T2 upt drop j show ?thesis
      by (intro exI [of _ T']) (simp add: take_list_update_snoc)
  qed
qed

lemma sweep_indices:
  assumes "\<And>T l i. table_wf es T \<Longrightarrow> i < length (items T) \<Longrightarrow>
      \<exists>T'. remove (int i) (T, l) = Inr (T', destr (items T ! i) l) \<and> table_wf es T'
         \<and> items T' = (items T)[i := clear (items T ! i)]"
    and "table_wf es T"
  shows "\<exists>T'. sweep owned remove disown (indices T) (T, l) = Inr (T', fold destr (filter owned (items T)) l)
    \<and> table_wf es T' \<and> items T' = map (\<lambda>e. if owned e then disown (clear e) else e) (items T)"
  using sweep_table [where destr = destr and clear = clear, OF assms(1,2), of 0 "length (items T)" owned disown l]
    length_items [OF assms(2)]
  by (simp add: indices_def)

text \<open>The tables after the removal of a client, and the calls to the library it makes.\<close>

definition disown_canvas :: "addr \<Rightarrow> CanvasEntry \<Rightarrow> CanvasEntry" where
  "disown_canvas a e = (if owned_canvas a e then e\<lparr>cv_ptr := None, cv_owner := None\<rparr> else e)"

definition disown_sprite :: "addr \<Rightarrow> SpriteEntry \<Rightarrow> SpriteEntry" where
  "disown_sprite a e = (if owned_sprite a e then e\<lparr>sp_ptr := None, sp_owner := None\<rparr> else e)"

definition disown_placement :: "addr \<Rightarrow> PlacementEntry \<Rightarrow> PlacementEntry" where
  "disown_placement a e = (if owned_placement a e then e\<lparr>pl_ptr := None, pl_owner := None\<rparr> else e)"

definition tables_wf :: "tables \<Rightarrow> bool" where
  "tables_wf tb \<longleftrightarrow> table_wf sizeof_CanvasEntry (CANVAS_TABLE tb)
     \<and> table_wf sizeof_SpriteEntry (SPRITE_TABLE tb) \<and> table_wf sizeof_PlacementEntry (PLACEMENT_TABLE tb)"

definition destroy_calls :: "'l animate \<Rightarrow> addr \<Rightarrow> tables \<Rightarrow> 'l \<Rightarrow> 'l" where
  "destroy_calls lib a tb =
     fold (\<lambda>e. destroy_placement lib (pl_ptr e)) (filter (owned_placement a) (items (PLACEMENT_TABLE tb)))
     \<circ> fold (\<lambda>e l. snd (destroy_sprite lib (sp_ptr e) l)) (filter (owned_sprite a) (items (SPRITE_TABLE tb)))
     \<circ> fold (\<lambda>e. destroy_canvas lib (cv_ptr e)) (filter (owned_canvas a) (items (CANVAS_TABLE tb)))"

lemma sweep_canvases_wf:
  assumes "table_wf sizeof_CanvasEntry T"
  shows "\<exists>T'. sweep_canvases lib a (indices T) (T, l)
      = Inr (T', fold (\<lambda>e. destroy_canvas lib (cv_ptr e)) (filter (owned_canvas a) (items T)) l)
    \<and> table_wf sizeof_CanvasEntry T' \<and> items T' = map (disown_canvas a) (items T)"
  unfolding sweep_canvases_def disown_canvas_def [abs_def]
  using sweep_indices [where remove = "canvas_remove lib" and destr = "\<lambda>e. destroy_canvas lib (cv_ptr e)"
      and clear = "\<lambda>e. e\<lparr>cv_ptr := None\<rparr>" and es = sizeof_CanvasEntry and T = T and owned = "owned_canvas a"
      and disown = "\<lambda>ce. ce\<lparr>cv_owner := None\<rparr>" and l = l] assms
  by (simp add: canvas_remove_wf canvas.lookup_law)

lemma sweep_sprites_wf:
  assumes "table_wf sizeof_SpriteEntry T"
  shows "\<exists>T'. sweep_sprites lib a (indices T) (T, l)
      = Inr (T', fold (\<lambda>e l. snd (destroy_sprite lib (sp_ptr e) l)) (filter (owned_sprite a) (items T)) l)
    \<and> table_wf sizeof_SpriteEntry T' \<and> items T' = map (disown_sprite a) (items T)"
proof -
  have rem: "\<exists>T'. and_then (sprite_remove lib (int i) (T, l)) (\<lambda>(ret, S1). Inr S1)
        = Inr (T', snd (destroy_sprite lib (sp_ptr (items T ! i)) l))
      \<and> table_wf sizeof_SpriteEntry T' \<and> items T' = (items T)[i := (items T ! i)\<lparr>sp_ptr := None\<rparr>]"
    if "table_wf sizeof_SpriteEntry T" "i < length (items T)" for T i l
    using sprite_remove_wf [OF that(1), of "int i" i lib l] that by (auto simp: sprite.lookup_law)
  show ?thesis
    unfolding sweep_sprites_def disown_sprite_def [abs_def]
    using sweep_indices [where remove = "\<lambda>i S. and_then (sprite_remove lib i S) (\<lambda>(ret, S1). Inr S1)"
      and destr = "\<lambda>e l. snd (destroy_sprite lib (sp_ptr e) l)"
      and clear = "\<lambda>e. e\<lparr>sp_ptr := None\<rparr>" and es = sizeof_SpriteEntry and T = T and owned = "owned_sprite a"
      and disown = "\<lambda>se. se\<lparr>sp_owner := None\<rparr>" and l = l, OF rem assms] by simp
qed

lemma sweep_placements_wf:
  assumes "table_wf sizeof_PlacementEntry T"
  shows "\<exists>T'. sweep_placements lib a (indices T) (T, l)
      = Inr (T', fold (\<lambda>e. destroy_placement lib (pl_ptr e)) (filter (owned_placement a) (items T)) l)
    \<and> table_wf sizeof_PlacementEntry T' \<and> items T' = map (disown_placement a) (items T)"
  unfolding sweep_placements_def disown_placement_def [abs_def]
  using sweep_indices [where remove = "placement_remove lib" and destr = "\<lambda>e. destroy_placement lib (pl_ptr e)"
      and clear = "\<lambda>e. e\<lparr>pl_ptr := None\<rparr>" and es = sizeof_PlacementEntry and T = T and owned = "owned_placement a"
      and disown = "\<lambda>pe. pe\<lparr>pl_owner := None\<rparr>" and l = l] assms
  by (simp add: placement_remove_wf placement.lookup_law)

lemma destroy_objects_wf:
  assumes "tables_wf tb"
  shows "\<exists>tb'. destroy_objects lib a (tb, l) = Inr (tb', destroy_calls lib a tb l) \<and> tables_wf tb'
    \<and> items (CANVAS_TABLE tb') = map (disown_canvas a) (items (CANVAS_TABLE tb))
    \<and> items (SPRITE_TABLE tb') = map (disown_sprite a) (items (SPRITE_TABLE tb))
    \<and> items (PLACEMENT_TABLE tb') = map (disown_placement a) (items (PLACEMENT_TABLE tb))"
proof -
  note wf = assms [unfolded tables_wf_def]
  from sweep_canvases_wf [of "CANVAS_TABLE tb" lib a l] wf obtain ct l1 where
    1: "sweep_canvases lib a (indices (CANVAS_TABLE tb)) (CANVAS_TABLE tb, l) = Inr (ct, l1)"
      "l1 = fold (\<lambda>e. destroy_canvas lib (cv_ptr e)) (filter (owned_canvas a) (items (CANVAS_TABLE tb))) l"
      "table_wf sizeof_CanvasEntry ct" "items ct = map (disown_canvas a) (items (CANVAS_TABLE tb))" by blast
  from sweep_sprites_wf [of "SPRITE_TABLE tb" lib a l1] wf obtain st l2 where
    2: "sweep_sprites lib a (indices (SPRITE_TABLE tb)) (SPRITE_TABLE tb, l1) = Inr (st, l2)"
      "l2 = fold (\<lambda>e l. snd (destroy_sprite lib (sp_ptr e) l)) (filter (owned_sprite a) (items (SPRITE_TABLE tb))) l1"
      "table_wf sizeof_SpriteEntry st" "items st = map (disown_sprite a) (items (SPRITE_TABLE tb))" by blast
  from sweep_placements_wf [of "PLACEMENT_TABLE tb" lib a l2] wf obtain pt l3 where
    3: "sweep_placements lib a (indices (PLACEMENT_TABLE tb)) (PLACEMENT_TABLE tb, l2) = Inr (pt, l3)"
      "l3 = fold (\<lambda>e. destroy_placement lib (pl_ptr e)) (filter (owned_placement a) (items (PLACEMENT_TABLE tb))) l2"
      "table_wf sizeof_PlacementEntry pt" "items pt = map (disown_placement a) (items (PLACEMENT_TABLE tb))" by blast
  show ?thesis
    using 1 2 3 by (simp add: destroy_objects_def tables_wf_def destroy_calls_def)
qed

section \<open>Reference counts\<close>

text \<open>\<open>k\<close> releases in a row.\<close>

fun releases :: "(addr \<Rightarrow> 's \<Rightarrow> ('ev list \<times> 's) res) \<Rightarrow> nat \<Rightarrow> addr \<Rightarrow> 's \<Rightarrow> ('ev list \<times> 's) res" where
  "releases release 0 a s = Inr ([], s)"
| "releases release (Suc k) a s = and_then (releases release k a s) (\<lambda>(evs, s1).
     and_then (release a s1) (\<lambda>(evs', s2). Inr (evs @ evs', s2)))"

text \<open>
  The contract of a reference-counted block: \<open>refs s a\<close> is the number of references to the
  block at \<open>a\<close>, \<open>None\<close> once it is freed. A reference is taken from a live block only; a block
  that is dead is freed by the release of its last reference, and no release may follow.
\<close>

locale ref_counted =
  fixes acquire :: "addr \<Rightarrow> 's \<Rightarrow> (ErrType \<times> 's) res"
    and release :: "addr \<Rightarrow> 's \<Rightarrow> ('ev list \<times> 's) res"
    and refs :: "'s \<Rightarrow> addr \<Rightarrow> nat option"
    and is_dead :: "'s \<Rightarrow> addr \<Rightarrow> bool"
  assumes acquire_live: "refs s a = Some m \<Longrightarrow> \<not> is_dead s a \<Longrightarrow> Suc m < 2 ^ 64 \<Longrightarrow>
        \<exists>s'. acquire a s = Inr (SUCCESS, s') \<and> refs s' = (refs s)(a \<mapsto> Suc m) \<and> is_dead s' = is_dead s"
    and acquire_dead: "refs s a = Some m \<Longrightarrow> is_dead s a \<Longrightarrow> acquire a s = Inr (FAIL, s)"
    and release_keep: "refs s a = Some (Suc m) \<Longrightarrow> Suc m < 2 ^ 64 \<Longrightarrow> \<not> (is_dead s a \<and> m = 0) \<Longrightarrow>
        \<exists>s'. release a s = Inr ([], s') \<and> refs s' = (refs s)(a \<mapsto> m) \<and> is_dead s' = is_dead s"
    and release_last: "refs s a = Some 1 \<Longrightarrow> is_dead s a \<Longrightarrow>
        \<exists>evs s'. release a s = Inr (evs, s') \<and> refs s' = (refs s)(a := None)"
    and release_freed: "refs s a = None \<Longrightarrow> release a s = Inl (UseAfterFree a)"
begin

lemma releases_keep:
  "refs s a = Some m \<Longrightarrow> m < 2 ^ 64 \<Longrightarrow> is_dead s a \<Longrightarrow> k < m \<Longrightarrow>
   \<exists>s'. releases release k a s = Inr ([], s') \<and> refs s' = (refs s)(a \<mapsto> m - k) \<and> is_dead s' a"
proof (induction k)
  case 0
  then show ?case by auto
next
  case (Suc k)
  then obtain s1 where s1: "releases release k a s = Inr ([], s1)" "refs s1 = (refs s)(a \<mapsto> m - k)" "is_dead s1 a"
    using Suc_lessD by blast
  have "refs s1 a = Some (Suc (m - Suc k))" using s1(2) Suc.prems by simp
  moreover have "Suc (m - Suc k) < 2 ^ 64" "m - Suc k \<noteq> 0" using Suc.prems by linarith+
  ultimately obtain s2 where
    "release a s1 = Inr ([], s2)" "refs s2 = (refs s1)(a \<mapsto> m - Suc k)" "is_dead s2 = is_dead s1"
    using release_keep [of s1 a "m - Suc k"] by metis
  with s1 show ?case by auto
qed

lemma releases_all:
  assumes "refs s a = Some m" "0 < m" "m < 2 ^ 64" "is_dead s a"
  shows "\<exists>s1 evs s2. releases release (m - 1) a s = Inr ([], s1) \<and> release a s1 = Inr (evs, s2)
    \<and> releases release m a s = Inr (evs, s2) \<and> refs s2 = (refs s)(a := None)
    \<and> releases release (Suc m) a s = Inl (UseAfterFree a)"
proof -
  obtain k where m: "m = Suc k" using assms(2) by (cases m) auto
  from releases_keep [of s a m k] assms m obtain s1 where
    s1: "releases release k a s = Inr ([], s1)" "refs s1 = (refs s)(a \<mapsto> 1)" "is_dead s1 a" by auto
  from release_last [of s1 a] s1 obtain evs s2 where
    s2: "release a s1 = Inr (evs, s2)" "refs s2 = (refs s1)(a := None)" by auto
  from s2(2) have "refs s2 a = None" by simp
  from release_freed [OF this] s1 s2 m show ?thesis by auto
qed

end

definition refs :: "ClientRegistry \<Rightarrow> addr \<Rightarrow> nat option" where
  "refs R a = map_option (\<lambda>c. unat (refcount c)) (cr_mem R a)"

definition is_dead :: "ClientRegistry \<Rightarrow> addr \<Rightarrow> bool" where
  "is_dead R a = (case cr_mem R a of None \<Rightarrow> False | Some c \<Rightarrow> dead c)"

lemma unat_1_iff: "unat (w :: size_t) = Suc 0 \<longleftrightarrow> w = 1"
  by (metis One_nat_def unat_1 word_unat_eq_iff)

lemma unat_pred: "unat (w :: size_t) = Suc m \<Longrightarrow> unat (w - 1) = m"
  by (metis diff_Suc_1 unat_minus_one unat_0 nat.distinct(1))

lemma unat_succ: "Suc (unat (w :: size_t)) < 2 ^ 64 \<Longrightarrow> unat (w + 1) = Suc (unat w)"
  by (simp add: unat_word_ariths)

interpretation rc: ref_counted creg_acquire_client creg_release_client refs is_dead
proof
  fix s a m
  show "\<exists>s'. creg_acquire_client a s = Inr (SUCCESS, s') \<and> refs s' = (refs s)(a \<mapsto> Suc m) \<and> is_dead s' = is_dead s"
    if "refs s a = Some m" "\<not> is_dead s a" "Suc m < 2 ^ 64"
    using that by (auto simp: creg_acquire_client_def refs_def is_dead_def unat_succ fun_eq_iff)
  show "creg_acquire_client a s = Inr (FAIL, s)" if "refs s a = Some m" "is_dead s a"
    using that by (auto simp: creg_acquire_client_def refs_def is_dead_def)
  show "\<exists>s'. creg_release_client a s = Inr ([], s') \<and> refs s' = (refs s)(a \<mapsto> m) \<and> is_dead s' = is_dead s"
    if "refs s a = Some (Suc m)" "Suc m < 2 ^ 64" "\<not> (is_dead s a \<and> m = 0)"
    using that by (auto simp: creg_release_client_def refs_def is_dead_def unat_pred Let_def fun_eq_iff)
  show "\<exists>evs s'. creg_release_client a s = Inr (evs, s') \<and> refs s' = (refs s)(a := None)"
    if "refs s a = Some 1" "is_dead s a"
    using that by (auto simp: creg_release_client_def refs_def is_dead_def Let_def unat_1_iff fun_eq_iff)
  show "creg_release_client a s = Inl (UseAfterFree a)" if "refs s a = None"
    using that by (simp add: creg_release_client_def refs_def)
qed

section \<open>Properties\<close>

text \<open>a new client is put at the front of the list with one reference, not logged in, and nothing
  else changes, whatever the list was.\<close>

theorem creg_insert_front:
  assumes "reg_rep R as" and "malloc_ok (cr_mem R) a"
  shows "\<exists>R'. creg_insert (Some a) pid c2s s2c R = Inr (Some a, R') \<and> reg_rep R' (a # as)
    \<and> client_at R' = (client_at R)(a \<mapsto> new_client pid c2s s2c None)"
  using assms by (rule creg_insert_rep)

definition two_clients :: ClientRegistry where
  "two_clients = \<lparr>cr_clients = Some 2, cr_count = 2,
     cr_mem = [1 \<mapsto> (new_client 100 10 11 None)\<lparr>c_prev := Some 2\<rparr>,
               2 \<mapsto> new_client 200 20 21 (Some 1)]\<rparr>"

lemma two_clients_rep: "reg_rep two_clients [2, 1]"
  by (simp add: reg_rep_def two_clients_def links_of_def new_client_def valid_addr_def)

theorem creg_insert_front_witness:
  "\<exists>R'. creg_insert (Some 3) 300 30 31 two_clients = Inr (Some 3, R') \<and> reg_rep R' [3, 2, 1]
    \<and> client_at R' = (client_at two_clients)(3 \<mapsto> new_client 300 30 31 None)"
  by (rule creg_insert_front [OF two_clients_rep]) (simp add: malloc_ok_def valid_addr_def two_clients_def)

lemma creg_release_dead:
  assumes rep: "reg_rep R as" and a: "a \<notin> set as" and c: "client_at R a = Some c" "dead c"
  shows "\<exists>R'. creg_release_client a R = Inr
      (if refcount c = 1 then destroy_client_pipes (client_pid c) (c2s_fd c) (s2c_fd c) else [], R')
    \<and> reg_rep R' as
    \<and> client_at R' = (client_at R)(a := if refcount c = 1 then None else Some (c\<lparr>refcount := refcount c - 1\<rparr>))"
proof -
  obtain d where d: "cr_mem R a = Some d" "c = d\<lparr>c_next := None, c_prev := None\<rparr>"
    using c by (auto simp: client_at_def)
  show ?thesis
  proof (cases "refcount c = 1")
    case True
    then have "creg_release_client a R = Inr (destroy_client_pipes (client_pid c) (c2s_fd c) (s2c_fd c),
        R\<lparr>cr_mem := (cr_mem R)(a := None)\<rparr>)"
      using d c(2) by (simp add: creg_release_client_def Let_def)
    with True reg_rep_free [OF rep a] show ?thesis by (auto simp: client_at_def fun_eq_iff)
  next
    case False
    let ?R = "R\<lparr>cr_mem := (cr_mem R)(a \<mapsto> d\<lparr>refcount := refcount d - 1\<rparr>)\<rparr>"
    have "creg_release_client a R = Inr ([], ?R)"
      using False d by (simp add: creg_release_client_def Let_def)
    moreover have "reg_rep ?R as" using rep d by (intro reg_rep_upd) simp_all
    ultimately show ?thesis using False d by (auto simp: client_at_def fun_eq_iff)
  qed
qed

lemma creg_remove_exact:
  assumes "reg_rep R as" and a: "a \<in> set as" and tb: "tables_wf tb" and c: "client_at R a = Some c"
  shows "\<exists>R' tb'. creg_remove lib a (R, tb, l) =
       Inr (if refcount c = 1 then destroy_client_pipes (client_pid c) (c2s_fd c) (s2c_fd c) else [],
            R', tb', destroy_calls lib a tb l)
     \<and> reg_rep R' (remove1 a as)
     \<and> client_at R' = (client_at R)(a := if refcount c = 1 then None
                          else Some (c\<lparr>dead := True, refcount := refcount c - 1\<rparr>))
     \<and> tables_wf tb'
     \<and> items (CANVAS_TABLE tb') = map (disown_canvas a) (items (CANVAS_TABLE tb))
     \<and> items (SPRITE_TABLE tb') = map (disown_sprite a) (items (SPRITE_TABLE tb))
     \<and> items (PLACEMENT_TABLE tb') = map (disown_placement a) (items (PLACEMENT_TABLE tb))"
proof -
  obtain b where b: "cr_mem R a = Some b" "c = b\<lparr>c_next := None, c_prev := None\<rparr>"
    using c by (auto simp: client_at_def)
  let ?R1 = "R\<lparr>cr_mem := (cr_mem R)(a \<mapsto> b\<lparr>dead := True\<rparr>)\<rparr>"
  have rep1: "reg_rep ?R1 as" using assms(1) b by (intro reg_rep_upd) simp_all
  have at1: "client_at ?R1 = (client_at R)(a \<mapsto> c\<lparr>dead := True\<rparr>)"
    using b by (auto simp: client_at_def fun_eq_iff)
  obtain tb1 where tb1: "destroy_objects lib a (tb, l) = Inr (tb1, destroy_calls lib a tb l)" "tables_wf tb1"
    "items (CANVAS_TABLE tb1) = map (disown_canvas a) (items (CANVAS_TABLE tb))"
    "items (SPRITE_TABLE tb1) = map (disown_sprite a) (items (SPRITE_TABLE tb))"
    "items (PLACEMENT_TABLE tb1) = map (disown_placement a) (items (PLACEMENT_TABLE tb))"
    using destroy_objects_wf [OF tb, of lib a l] by blast
  obtain R2 where R2: "creg_unlink a ?R1 = Inr R2" "reg_rep R2 (remove1 a as)" "client_at R2 = client_at ?R1"
    using creg_unlink_rep [OF rep1 a] by blast
  have "a \<notin> set (remove1 a as)" using assms(1) by (simp add: reg_rep_def)
  obtain R3 where R3: "creg_release_client a R2 = Inr
      (if refcount c = 1 then destroy_client_pipes (client_pid c) (c2s_fd c) (s2c_fd c) else [], R3)"
    "reg_rep R3 (remove1 a as)"
    "client_at R3 = (client_at R2)(a := if refcount c = 1 then None
        else Some (c\<lparr>dead := True, refcount := refcount c - 1\<rparr>))"
    using creg_release_dead [OF R2(2) \<open>a \<notin> _\<close>, of "c\<lparr>dead := True\<rparr>"] R2(3) at1 by (auto split: if_splits)
  have mk: "client_markdead lib a (R, tb, l) = Inr (?R1, tb1, destroy_calls lib a tb l)"
    using b tb1(1) by (simp add: client_markdead_def upd_client_def)
  have "client_at R3 = (client_at R)(a := if refcount c = 1 then None
        else Some (c\<lparr>dead := True, refcount := refcount c - 1\<rparr>))"
    using R3(3) R2(3) at1 by simp
  then show ?thesis using mk R2(1) tb1 R3(1,2) by (simp add: creg_remove_def)
qed

text \<open>C13: \<open>creg_remove\<close> of a listed client takes exactly it off the list, tells the library to
  destroy exactly the objects it owns and still holds (each once, canvases, then sprites, then
  placements, in the order of their ids), clears and disowns their entries and no others, and drops the
  registry's reference: the client is freed and its pipes destroyed if that was the last one, and
  stays allocated, dead, if a task or a result still holds one.\<close>

theorem creg_remove_complete:
  assumes "reg_rep R as" and "a \<in> set as" and "tables_wf tb" and "client_at R a = Some c"
  shows "\<exists>R' tb'. creg_remove lib a (R, tb, l) =
       Inr (if refcount c = 1 then destroy_client_pipes (client_pid c) (c2s_fd c) (s2c_fd c) else [],
            R', tb', destroy_calls lib a tb l)
     \<and> reg_rep R' (remove1 a as)
     \<and> client_at R' = (client_at R)(a := if refcount c = 1 then None
                          else Some (c\<lparr>dead := True, refcount := refcount c - 1\<rparr>))
     \<and> tables_wf tb'
     \<and> items (CANVAS_TABLE tb') = map (disown_canvas a) (items (CANVAS_TABLE tb))
     \<and> items (SPRITE_TABLE tb') = map (disown_sprite a) (items (SPRITE_TABLE tb))
     \<and> items (PLACEMENT_TABLE tb') = map (disown_placement a) (items (PLACEMENT_TABLE tb))"
  using assms by (rule creg_remove_exact)

definition one_object :: tables where
  "one_object = tables_init\<lparr>CANVAS_TABLE := one_canvas\<rparr>"

lemma one_object_wf: "tables_wf one_object"
  by (simp add: one_object_def tables_wf_def tables_init_def table_wf_empty)
     (simp add: table_wf_def one_canvas_def cells_def sizeof_CanvasEntry_def int_limits)

theorem creg_remove_complete_witness:
  "\<exists>R' tb'. creg_remove log_lib 1 (two_clients, one_object, []) =
       Inr ([Close 10, Close 11, Unlink ''FIFO_C2S_100'', Unlink ''FIFO_S2C_100''],
            R', tb', [DestroyCanvas (Some 7)])
     \<and> reg_rep R' [2] \<and> client_at R' = (client_at two_clients)(1 := None)"
proof -
  have "client_at two_clients 1 = Some (new_client 100 10 11 None)"
    by (simp add: client_at_def two_clients_def new_client_def)
  from creg_remove_complete [OF two_clients_rep _ one_object_wf this, of log_lib "[]"]
  have *: "\<exists>R' tb'. creg_remove log_lib 1 (two_clients, one_object, []) =
       Inr (destroy_client_pipes 100 10 11, R', tb', destroy_calls log_lib 1 one_object [])
     \<and> reg_rep R' [2] \<and> client_at R' = (client_at two_clients)(1 := None)"
    by (auto simp: new_client_def)
  have "destroy_client_pipes 100 10 11 = [Close 10, Close 11, Unlink ''FIFO_C2S_100'', Unlink ''FIFO_S2C_100'']"
    by (simp add: destroy_client_pipes_def) code_simp
  moreover have "destroy_calls log_lib 1 one_object [] = [DestroyCanvas (Some 7)]"
    by (simp add: destroy_calls_def one_object_def tables_init_def log_lib_def one_canvas_def items_def cells_def
        owned_canvas_def new_canvas_def empty_table_def)
  ultimately show ?thesis using * by auto
qed

lemma creg_release_last_events:
  assumes "refs R a = Some 1" "is_dead R a" and "cr_mem R a = Some c"
  shows "creg_release_client a R = Inr (destroy_client_pipes (client_pid c) (c2s_fd c) (s2c_fd c),
    R\<lparr>cr_mem := (cr_mem R)(a := None)\<rparr>)"
  using assms by (auto simp: creg_release_client_def refs_def is_dead_def Let_def unat_1_iff)

text \<open>A release changes only the reference count of the client it keeps.\<close>

lemma release_fields:
  "creg_release_client a R = Inr (evs, R') \<Longrightarrow> cr_mem R a = Some c \<Longrightarrow> cr_mem R' a = Some c' \<Longrightarrow>
   client_pid c' = client_pid c \<and> c2s_fd c' = c2s_fd c \<and> s2c_fd c' = s2c_fd c"
  by (auto simp: creg_release_client_def Let_def split: if_splits)

lemma releases_fields:
  "releases creg_release_client k a R = Inr (evs, R') \<Longrightarrow> cr_mem R a = Some c \<Longrightarrow> cr_mem R' a = Some c' \<Longrightarrow>
   client_pid c' = client_pid c \<and> c2s_fd c' = c2s_fd c \<and> s2c_fd c' = s2c_fd c"
proof (induction k arbitrary: evs R' c')
  case 0
  then show ?case by simp
next
  case (Suc k)
  then obtain evs1 evs2 R1 where 1: "releases creg_release_client k a R = Inr (evs1, R1)"
    "creg_release_client a R1 = Inr (evs2, R')" by (auto simp: and_then_eq_Inr split: prod.splits)
  then obtain c1 where "cr_mem R1 a = Some c1" by (cases "cr_mem R1 a") (auto simp: creg_release_client_def)
  with Suc.IH [OF 1(1) Suc.prems(2)] release_fields [OF 1(2) _ Suc.prems(3)] show ?case by auto
qed

text \<open>C4: a client that is dead and has \<open>m\<close> references is freed by the \<open>m\<close>-th release and by none before
  it; its pipes are closed and unlinked exactly once, at that release; and one release more uses freed memory.\<close>

theorem client_freed_exactly_once:
  assumes "cr_mem R a = Some c" and "dead c" and "refcount c \<noteq> 0"
  shows "(\<forall>k < unat (refcount c).
        \<exists>R'. releases creg_release_client k a R = Inr ([], R') \<and> cr_mem R' a \<noteq> None)
    \<and> (\<exists>R'. releases creg_release_client (unat (refcount c)) a R
        = Inr (destroy_client_pipes (client_pid c) (c2s_fd c) (s2c_fd c), R') \<and> cr_mem R' a = None)
    \<and> releases creg_release_client (Suc (unat (refcount c))) a R = Inl (UseAfterFree a)"
proof -
  let ?m = "unat (refcount c)"
  have r: "refs R a = Some ?m" "?m < 2 ^ 64" "0 < ?m" "is_dead R a"
    using assms unsigned_less [of "refcount c", where 'a = nat]
    by (simp_all add: refs_def is_dead_def unat_gt_0)
  have keep: "\<exists>R'. releases creg_release_client k a R = Inr ([], R') \<and> cr_mem R' a \<noteq> None" if "k < ?m" for k
    using rc.releases_keep [OF r(1,2,4) that] by (force simp: refs_def [of _ a] dest: fun_cong [of _ _ a])
  obtain R1 evs R2 where all: "releases creg_release_client (?m - 1) a R = Inr ([], R1)"
      "creg_release_client a R1 = Inr (evs, R2)" "releases creg_release_client ?m a R = Inr (evs, R2)"
      "refs R2 = (refs R)(a := None)" "releases creg_release_client (Suc ?m) a R = Inl (UseAfterFree a)"
    using rc.releases_all [OF r(1,3,2,4)] by blast
  have "?m - 1 < ?m" using r(3) by simp
  from rc.releases_keep [OF r(1,2,4) this] all(1) r(3) have 1: "refs R1 a = Some 1" "is_dead R1 a" by auto
  then obtain c1 where c1: "cr_mem R1 a = Some c1" by (auto simp: refs_def)
  have "evs = destroy_client_pipes (client_pid c) (c2s_fd c) (s2c_fd c)"
    using creg_release_last_events [OF 1 c1] all(2) releases_fields [OF all(1) assms(1) c1] by auto
  moreover have "cr_mem R2 a = None" using fun_cong [OF all(4), of a] by (simp add: refs_def)
  ultimately show ?thesis using keep all(3,5) by auto
qed

definition held_client :: ClientRegistry where
  "held_client = \<lparr>cr_clients = None, cr_count = 0,
     cr_mem = [1 \<mapsto> (new_client 100 10 11 None)\<lparr>dead := True, refcount := 2\<rparr>]\<rparr>"

theorem client_freed_exactly_once_witness:
  "(\<exists>R'. releases creg_release_client 1 1 held_client = Inr ([], R') \<and> cr_mem R' 1 \<noteq> None)
   \<and> (\<exists>R'. releases creg_release_client 2 1 held_client = Inr (destroy_client_pipes 100 10 11, R')
        \<and> cr_mem R' 1 = None)
   \<and> releases creg_release_client 3 1 held_client = Inl (UseAfterFree 1)"
proof -
  let ?c = "(new_client 100 10 11 None)\<lparr>dead := True, refcount := 2\<rparr>"
  have c: "cr_mem held_client 1 = Some ?c" "dead ?c" "refcount ?c \<noteq> 0" "unat (refcount ?c) = 2"
    by (simp_all add: held_client_def)
  have f: "client_pid ?c = 100" "c2s_fd ?c = 10" "s2c_fd ?c = 11" "Suc 2 = (3 :: nat)"
    by (simp_all add: new_client_def)
  note once = client_freed_exactly_once [OF c(1,2,3), unfolded c(4) f]
  have "(1 :: nat) < 2" by simp
  from once [THEN conjunct1, rule_format, OF this] once [THEN conjunct2] show ?thesis by (rule conjI)
qed

text \<open>The calls that destroy the pipes of the client at an address.\<close>

definition pipes_at :: "(addr \<rightharpoonup> ActiveClient) \<Rightarrow> addr \<Rightarrow> os_event list" where
  "pipes_at mem a = (case mem a of None \<Rightarrow> []
     | Some c \<Rightarrow> destroy_client_pipes (client_pid c) (c2s_fd c) (s2c_fd c))"

lemma creg_destroy_lpath:
  assumes "lpath (links_of mem) q p as" and "distinct as"
  shows "while_option
     (\<lambda>s. case s of Inr (Some c, evs, mem) \<Rightarrow> True | _ \<Rightarrow> False)
     (\<lambda>s. case s of
         Inr (Some c, evs, mem) \<Rightarrow>
           and_then (load mem c) (\<lambda>cl.
             Inr (c_next cl, evs @ destroy_client_pipes (client_pid cl) (c2s_fd cl) (s2c_fd cl), mem(c := None)))
       | _ \<Rightarrow> s)
     (Inr (p, evs, mem))
   = Some (Inr (None, evs @ concat (map (pipes_at mem) as),
       mem |` (- set as)) :: (addr option \<times> os_event list \<times> (addr \<rightharpoonup> ActiveClient)) res)"
  using assms
proof (induction as arbitrary: q p evs mem)
  case Nil
  then show ?case by (subst while_option_unfold) (simp add: restrict_map_def)
next
  case (Cons b bs)
  then obtain c where c: "p = Some b" "mem b = Some c" "lpath (links_of mem) (Some b) (c_next c) bs"
    by (auto simp: links_of_Some)
  have "lpath (links_of (mem(b := None))) (Some b) (c_next c) bs"
    by (rule lpath_cong [THEN iffD1, rotated, OF c(3)]) (use Cons.prems in \<open>auto simp: links_of_def\<close>)
  note IH = Cons.IH [OF this]
  have "map (pipes_at (mem(b := None))) bs = map (pipes_at mem) bs"
    using Cons.prems by (intro map_cong) (auto simp: pipes_at_def)
  moreover have "(mem(b := None)) |` (- set bs) = mem |` (- set (b # bs))"
    by (auto simp: restrict_map_def fun_eq_iff)
  ultimately show ?case
    using c(1,2) by (subst while_option_unfold) (simp add: IH Cons.prems(2) [simplified] pipes_at_def [of _ b] cong: map_cong del: fun_upd_apply)
qed

text \<open>at shutdown \<open>creg_destroy\<close> closes and unlinks the pipes of every listed client, in the order of the
  list, and frees each of them whatever its reference count; while the server is running it does nothing.\<close>

theorem creg_destroy_all:
  assumes "reg_rep R as"
  shows "creg_destroy True R = Inr ([], R)
    \<and> creg_destroy False R = Inr (concat (map (pipes_at (cr_mem R)) as),
         \<lparr>cr_clients = None, cr_count = 0, cr_mem = cr_mem R |` (- set as)\<rparr>)"
  using creg_destroy_lpath [of "cr_mem R" None "cr_clients R" as "[]"] assms
  by (simp add: creg_destroy_def reg_rep_def)

theorem creg_destroy_all_witness:
  "creg_destroy False two_clients = Inr (destroy_client_pipes 200 20 21 @ destroy_client_pipes 100 10 11, creg_init)"
  using creg_destroy_all [OF two_clients_rep]
  by (simp add: two_clients_def pipes_at_def new_client_def creg_init_def restrict_map_def fun_eq_iff)

text \<open>the search of SHARE ends and finds the first client of the list that is logged in under the
  name, or none when there is none, provided every client that is logged in has a name.\<close>

theorem find_user_first:
  assumes "reg_rep R as" and "\<forall>a \<in> set as. names_set (cr_mem R a)"
  shows "find_user user R = Inr (List.find (\<lambda>a. user_matches user (cr_mem R a)) as)"
  using assms by (rule find_user_rep)

definition ann_twice :: ClientRegistry where
  "ann_twice = two_clients\<lparr>cr_mem := map_option (\<lambda>c. c\<lparr>logged_in := True, username := Some ''ann''\<rparr>) \<circ> cr_mem two_clients\<rparr>"

lemma ann_twice_rep: "reg_rep ann_twice [2, 1]"
  by (simp add: reg_rep_def ann_twice_def two_clients_def links_of_def new_client_def valid_addr_def)

theorem find_user_first_witness:
  "find_user ''ann'' ann_twice = Inr (Some 2) \<and> find_user ''bob'' ann_twice = Inr None"
  using find_user_first [OF ann_twice_rep, of "''ann''"] find_user_first [OF ann_twice_rep, of "''bob''"]
  by (simp add: ann_twice_def two_clients_def names_set_def user_matches_def new_client_def)

end
