(* ===== verification/PollSlots.thy ===== *)
theory PollSlots
  imports Registry "HOL-Library.Multiset"
begin

text \<open>
  \<open>server/src/s_helper.c\<close>: the self pipes, and the two parallel arrays the main loop polls: one
  slot per descriptor with the client it belongs to. The slots 0 and 1 are the reading ends of the
  self pipes; the others are the clients' pipes, in no order: a slot is removed by
  moving the last one into its place.
\<close>

section \<open>State\<close>

definition POLLFD_INIT_N :: nat where "POLLFD_INIT_N = 32"

definition POLLIN :: "16 word" where "POLLIN = 1"
definition POLLERR :: "16 word" where "POLLERR = 8"
definition POLLHUP :: "16 word" where "POLLHUP = 16"
definition POLLNVAL :: "16 word" where "POLLNVAL = 32"

record pollfd =
  p_fd :: int
  p_events :: "16 word"
  p_revents :: "16 word"

text \<open>The cells of both arrays are \<open>None\<close> until they are written.\<close>

record PollSlots =
  ps_fds :: "pollfd option list"
  ps_clients :: "addr option option list"
  ps_capacity :: nat
  ps_count :: nat

text \<open>The descriptors of the two self pipes, \<open>HSK_R\<close>, \<open>HSK_W\<close>, \<open>RPC_R\<close> and \<open>RPC_W\<close>.\<close>

record self_pipes =
  hsk_r :: int
  hsk_w :: int
  rpc_r :: int
  rpc_w :: int

section \<open>Operations\<close>

definition slot :: "PollSlots \<Rightarrow> nat \<Rightarrow> (pollfd \<times> addr option) res" where
  "slot S i =
     and_then (peek (ps_fds S) i) (\<lambda>p. and_then (peek (ps_clients S) i) (\<lambda>c.
       case (p, c) of (Some p', Some c') \<Rightarrow> Inr (p', c') | _ \<Rightarrow> Inl Uninitialised))"

definition set_slot :: "nat \<Rightarrow> pollfd \<Rightarrow> addr option \<Rightarrow> PollSlots \<Rightarrow> PollSlots res" where
  "set_slot i p c S =
     and_then (poke (ps_fds S) i (Some p)) (\<lambda>fds.
     and_then (poke (ps_clients S) i (Some c)) (\<lambda>cls.
       Inr (S\<lparr>ps_fds := fds, ps_clients := cls\<rparr>)))"

text \<open>
  \<open>pipe2\<close> twice and \<open>malloc\<close> twice; a failure of one \<open>malloc\<close> frees the other block. The first component
  is the value returned, which every failing path also stores in \<open>retval\<close>.
\<close>

definition server_setup_pipes ::
  "(int \<times> int) option \<Rightarrow> (int \<times> int) option \<Rightarrow> bool \<Rightarrow> bool
   \<Rightarrow> (ErrType \<times> (self_pipes \<times> PollSlots) option) res" where
  "server_setup_pipes hsk rpc malloc_pf malloc_cl =
     (case (hsk, rpc) of
        (Some (hr, hw), Some (rr, rw)) \<Rightarrow>
          if \<not> malloc_pf \<or> \<not> malloc_cl then Inr (POLLFD_FAIL, None)
          else
            let S = \<lparr>ps_fds = replicate POLLFD_INIT_N None, ps_clients = replicate POLLFD_INIT_N None,
                     ps_capacity = POLLFD_INIT_N, ps_count = 0\<rparr>
            in and_then (set_slot 0 \<lparr>p_fd = hr, p_events = POLLIN, p_revents = 0\<rparr> None S) (\<lambda>S1.
               and_then (set_slot 1 \<lparr>p_fd = rr, p_events = POLLIN, p_revents = 0\<rparr> None S1) (\<lambda>S2.
                 Inr (SUCCESS, Some (\<lparr>hsk_r = hr, hsk_w = hw, rpc_r = rr, rpc_w = rw\<rparr>, S2\<lparr>ps_count := 2\<rparr>))))
      | _ \<Rightarrow> Inr (PIPE_FAIL, None))"

definition server_destroy_selfpipes :: "bool \<Rightarrow> self_pipes \<Rightarrow> os_event list" where
  "server_destroy_selfpipes running P =
     (if running then []
      else map Close (filter (\<lambda>fd. fd > 2) [hsk_r P, hsk_w P, rpc_r P, rpc_w P]))"

text \<open>
  \<open>reallocarray(p, n, 8)\<close>: \<open>alloc\<close> says whether there is memory for the bytes, and a size that
  overflows or is above \<open>PTRDIFF_MAX\<close> is refused. The cells beyond the old size are
  uninitialised. \<open>struct pollfd\<close> and a pointer both have 8 bytes.
\<close>

definition reallocarray :: "(nat \<Rightarrow> bool) \<Rightarrow> nat \<Rightarrow> 'a option list \<Rightarrow> 'a option list option" where
  "reallocarray alloc n old =
     (if realloc_ok alloc (n * 8) then Some (take n old @ replicate (n - length old) None) else None)"

definition server_grow_pollslots ::
  "(nat \<Rightarrow> bool) \<Rightarrow> (nat \<Rightarrow> bool) \<Rightarrow> PollSlots \<Rightarrow> ErrType \<times> PollSlots" where
  "server_grow_pollslots alloc_pf alloc_cl S =
     (let new_capacity = (ps_capacity S * 2) mod 2 ^ 64
      in case reallocarray alloc_pf new_capacity (ps_fds S) of
           None \<Rightarrow> (GROW_FAIL, S)
         | Some pf \<Rightarrow>
             let S1 = S\<lparr>ps_fds := pf\<rparr>
             in case reallocarray alloc_cl new_capacity (ps_clients S1) of
                  None \<Rightarrow> (GROW_FAIL, S1)
                | Some cl \<Rightarrow> (SUCCESS, S1\<lparr>ps_clients := cl, ps_capacity := new_capacity\<rparr>))"

definition server_insert_pollslots ::
  "(nat \<Rightarrow> bool) \<Rightarrow> (nat \<Rightarrow> bool) \<Rightarrow> int \<Rightarrow> addr option \<Rightarrow> PollSlots \<Rightarrow> (ErrType \<times> PollSlots) res" where
  "server_insert_pollslots alloc_pf alloc_cl fd client S =
     (let (g, S1) = (if ps_capacity S = ps_count S then server_grow_pollslots alloc_pf alloc_cl S
                     else (SUCCESS, S))
      in if g \<noteq> SUCCESS then Inr (GROW_FAIL, S1)
         else and_then (set_slot (ps_count S1) \<lparr>p_fd = fd, p_events = POLLIN, p_revents = 0\<rparr> client
                          (S1\<lparr>ps_count := sz_succ (ps_count S1)\<rparr>))
                (\<lambda>S2. Inr (SUCCESS, S2)))"

text \<open>The loop of \<open>server_remove_pollslots\<close> from the slot \<open>i\<close> on.\<close>

function remove_from :: "int \<Rightarrow> nat \<Rightarrow> PollSlots \<Rightarrow> PollSlots res" where
  "remove_from fd i S =
     (if i < ps_count S then
        and_then (slot S i) (\<lambda>(p, c).
          if p_fd p \<noteq> fd then remove_from fd (Suc i) S
          else
            let l = ps_count S - 1
            in and_then (slot S l) (\<lambda>(pl, cl).
               and_then (set_slot i pl cl S) (\<lambda>S1.
               and_then (set_slot l \<lparr>p_fd = - 1, p_events = 0, p_revents = 0\<rparr> None S1) (\<lambda>S2.
                 Inr (S2\<lparr>ps_count := ps_count S - 1\<rparr>)))))
      else Inr S)"
  by pat_completeness auto
termination
  by (relation "measure (\<lambda>(fd, i, S). ps_count S - i)") auto

declare remove_from.simps [simp del]

definition server_remove_pollslots :: "int \<Rightarrow> PollSlots \<Rightarrow> PollSlots res" where
  "server_remove_pollslots fd S = remove_from fd 0 S"

section \<open>Well-formed slots\<close>

type_synonym slot = "pollfd \<times> addr option"

text \<open>The slots in use.\<close>

definition slots :: "PollSlots \<Rightarrow> slot list" where
  "slots S = zip (map the (take (ps_count S) (ps_fds S))) (map the (take (ps_count S) (ps_clients S)))"

definition slots_wf :: "PollSlots \<Rightarrow> bool" where
  "slots_wf S \<longleftrightarrow> 0 < ps_capacity S \<and> ps_capacity S < 2 ^ 60 \<and> ps_count S \<le> ps_capacity S
     \<and> ps_capacity S \<le> length (ps_fds S) \<and> ps_capacity S \<le> length (ps_clients S)
     \<and> (\<forall>i < ps_count S. ps_fds S ! i \<noteq> None \<and> ps_clients S ! i \<noteq> None)"

lemma slots_wfD:
  assumes "slots_wf S"
  shows "0 < ps_capacity S" "ps_capacity S < 2 ^ 60" "ps_count S \<le> ps_capacity S"
    "ps_count S \<le> length (ps_fds S)" "ps_count S \<le> length (ps_clients S)"
    "ps_capacity S \<le> length (ps_fds S)" "ps_capacity S \<le> length (ps_clients S)"
    "i < ps_count S \<Longrightarrow> ps_fds S ! i \<noteq> None" "i < ps_count S \<Longrightarrow> ps_clients S ! i \<noteq> None"
  using assms by (auto simp: slots_wf_def)

lemma length_slots: "slots_wf S \<Longrightarrow> length (slots S) = ps_count S"
  using slots_wfD [of S] by (simp add: slots_def)

lemma slot_wf: "slots_wf S \<Longrightarrow> i < ps_count S \<Longrightarrow> slot S i = Inr (slots S ! i)"
  using slots_wfD(4,5) [of S] slots_wfD(8,9) [of S i]
  by (cases "ps_fds S ! i"; cases "ps_clients S ! i") (simp_all add: slot_def slots_def)

lemma set_slot_wf:
  assumes wf: "slots_wf S" and i: "i < ps_count S"
  shows "\<exists>S'. set_slot i p c S = Inr S' \<and> slots_wf S' \<and> slots S' = (slots S)[i := (p, c)]
    \<and> ps_count S' = ps_count S \<and> ps_capacity S' = ps_capacity S"
proof -
  let ?S = "S\<lparr>ps_fds := (ps_fds S)[i := Some p], ps_clients := (ps_clients S)[i := Some c]\<rparr>"
  have "set_slot i p c S = Inr ?S" using slots_wfD [OF wf] i by (simp add: set_slot_def)
  moreover have "slots_wf ?S" using wf i by (auto simp: slots_wf_def nth_list_update)
  moreover have "slots ?S = (slots S)[i := (p, c)]"
    using slots_wfD [OF wf] i by (simp add: slots_def take_update_swap map_update zip_update)
  ultimately show ?thesis by simp
qed

text \<open>What the removal of the slot \<open>i\<close> does to the list of slots.\<close>

definition swap_remove :: "nat \<Rightarrow> 'a list \<Rightarrow> 'a list" where
  "swap_remove i xs = butlast (xs[i := List.last xs])"

lemma swap_remove_mset: "i < length xs \<Longrightarrow> add_mset (xs ! i) (mset (swap_remove i xs)) = mset xs"
proof (cases xs rule: rev_cases)
  case (snoc ys y)
  assume i: "i < length xs"
  show ?thesis
  proof (cases "i < length ys")
    case True
    then have "ys ! i \<in># mset ys" by simp
    with True snoc show ?thesis by (simp add: swap_remove_def list_update_append nth_append mset_update)
  next
    case False
    with i snoc show ?thesis by (simp add: swap_remove_def list_update_append nth_append)
  qed
qed simp

lemma length_swap_remove [simp]: "length (swap_remove i xs) = length xs - 1"
  by (simp add: swap_remove_def)

lemma swap_remove_nth:
  "j < length xs - 1 \<Longrightarrow> swap_remove i xs ! j = (if j = i then List.last xs else xs ! j)"
  by (auto simp: swap_remove_def nth_butlast)

section \<open>Insertion and removal\<close>

text \<open>A failed insertion leaves the slots as they were, even when one of the two arrays has grown.\<close>

lemma server_grow_wf:
  assumes wf: "slots_wf S"
  shows "slots_wf (snd (server_grow_pollslots a1 a2 S))"
    and "slots (snd (server_grow_pollslots a1 a2 S)) = slots S"
    and "ps_count (snd (server_grow_pollslots a1 a2 S)) = ps_count S"
    and "fst (server_grow_pollslots a1 a2 S) = SUCCESS \<Longrightarrow>
      ps_capacity (snd (server_grow_pollslots a1 a2 S)) = 2 * ps_capacity S"
    and "fst (server_grow_pollslots a1 a2 S) \<in> {SUCCESS, GROW_FAIL}"
proof -
  note d = slots_wfD [OF wf]
  have cap: "ps_capacity S * 2 mod 2 ^ 64 = ps_capacity S * 2" using d(2) by simp
  have wf': "\<forall>i < ps_count S. ps_fds S ! i \<noteq> None \<and> ps_clients S ! i \<noteq> None"
    using wf by (simp add: slots_wf_def)
  show "slots_wf (snd (server_grow_pollslots a1 a2 S))"
  proof (cases "ps_capacity S < 2 ^ 59")
    case True
    then show ?thesis
      using d(1-7) wf' unfolding server_grow_pollslots_def cap reallocarray_def
      by (auto simp: Let_def slots_wf_def nth_append)
  next
    case False
    then have "\<not> realloc_ok a1 (ps_capacity S * 2 * 8)" by (simp add: realloc_ok_def)
    then show ?thesis using wf unfolding server_grow_pollslots_def cap reallocarray_def by (simp add: Let_def)
  qed
  show "slots (snd (server_grow_pollslots a1 a2 S)) = slots S"
    using d(1-7) unfolding server_grow_pollslots_def cap reallocarray_def
    by (auto simp: Let_def slots_def)
  show "ps_count (snd (server_grow_pollslots a1 a2 S)) = ps_count S"
    by (simp add: server_grow_pollslots_def Let_def split: option.split)
  show "fst (server_grow_pollslots a1 a2 S) = SUCCESS \<Longrightarrow>
      ps_capacity (snd (server_grow_pollslots a1 a2 S)) = 2 * ps_capacity S"
    unfolding server_grow_pollslots_def cap by (auto simp: Let_def split: option.splits)
  show "fst (server_grow_pollslots a1 a2 S) \<in> {SUCCESS, GROW_FAIL}"
    by (simp add: server_grow_pollslots_def Let_def split: option.split)
qed

lemma append_slot:
  assumes wf: "slots_wf S" and room: "ps_count S < ps_capacity S"
  shows "\<exists>S'. set_slot (ps_count S) p c (S\<lparr>ps_count := sz_succ (ps_count S)\<rparr>) = Inr S'
    \<and> slots_wf S' \<and> slots S' = slots S @ [(p, c)]"
proof -
  note d = slots_wfD [OF wf]
  let ?n = "ps_count S"
  have n: "sz_succ ?n = Suc ?n" using d(2,3) by simp
  let ?S = "S\<lparr>ps_count := Suc ?n, ps_fds := (ps_fds S)[?n := Some p], ps_clients := (ps_clients S)[?n := Some c]\<rparr>"
  have len: "?n < length (ps_fds S)" "?n < length (ps_clients S)" using d room by linarith+
  have "set_slot ?n p c (S\<lparr>ps_count := sz_succ ?n\<rparr>) = Inr ?S" using len by (simp add: set_slot_def n)
  moreover have "slots_wf ?S"
    using wf room by (auto simp: slots_wf_def nth_list_update less_Suc_eq)
  moreover have "slots ?S = slots S @ [(p, c)]"
    using len by (simp add: slots_def take_list_update_snoc)
  ultimately show ?thesis by blast
qed

lemma server_insert_cases:
  assumes wf: "slots_wf S"
  shows "(\<exists>S'. server_insert_pollslots a1 a2 fd c S = Inr (SUCCESS, S') \<and> slots_wf S'
            \<and> slots S' = slots S @ [(\<lparr>p_fd = fd, p_events = POLLIN, p_revents = 0\<rparr>, c)])
       \<or> (\<exists>S'. server_insert_pollslots a1 a2 fd c S = Inr (GROW_FAIL, S') \<and> slots_wf S' \<and> slots S' = slots S
            \<and> ps_count S = ps_capacity S \<and> fst (server_grow_pollslots a1 a2 S) = GROW_FAIL)"
proof (cases "ps_capacity S = ps_count S")
  case False
  then have "ps_count S < ps_capacity S" using slots_wfD(3) [OF wf] by simp
  from append_slot [OF wf this, of "\<lparr>p_fd = fd, p_events = POLLIN, p_revents = 0\<rparr>" c] False
  show ?thesis by (auto simp: server_insert_pollslots_def)
next
  case full: True
  obtain g S1 where g: "server_grow_pollslots a1 a2 S = (g, S1)" by fastforce
  note grow = server_grow_wf [OF wf, of a1 a2, unfolded g, simplified]
  have wf1: "slots_wf S1" using grow(1) by simp
  show ?thesis
  proof (cases "g = SUCCESS")
    case True
    have "ps_count S1 < ps_capacity S1" using grow(3,4) True full slots_wfD(1) [OF wf] by simp
    from append_slot [OF wf1 this, of "\<lparr>p_fd = fd, p_events = POLLIN, p_revents = 0\<rparr>" c] True g full grow(2)
    show ?thesis by (auto simp: server_insert_pollslots_def)
  next
    case False
    with grow(5) g full wf1 grow(2) show ?thesis by (auto simp: server_insert_pollslots_def)
  qed
qed

lemma remove_from_wf:
  assumes "slots_wf S" and "i \<le> j" and "j < ps_count S" and "p_fd (fst (slots S ! j)) = fd"
    and "\<forall>k. i \<le> k \<and> k < j \<longrightarrow> p_fd (fst (slots S ! k)) \<noteq> fd"
  shows "\<exists>S'. remove_from fd i S = Inr S' \<and> slots_wf S' \<and> slots S' = swap_remove j (slots S)
    \<and> ps_capacity S' = ps_capacity S"
  using assms
proof (induction fd i S rule: remove_from.induct)
  case (1 fd i S)
  note wf = 1(2)
  have i: "i < ps_count S" "slot S i = Inr (slots S ! i)" using 1 slot_wf [OF wf, of i] by simp_all
  obtain p c where pc: "slots S ! i = (p, c)" by fastforce
  show ?case
  proof (cases "i = j")
    case False
    then have "p_fd p \<noteq> fd" using 1(3,6) pc by (metis fst_conv le_neq_implies_less order_refl)
    moreover have "\<exists>S'. remove_from fd (Suc i) S = Inr S' \<and> slots_wf S' \<and> slots S' = swap_remove j (slots S)
        \<and> ps_capacity S' = ps_capacity S"
      using 1(1) [OF i(1) i(2) pc [symmetric]] 1(2-6) \<open>p_fd p \<noteq> fd\<close> False by simp
    ultimately show ?thesis using i pc by (subst remove_from.simps) simp
  next
    case True
    let ?l = "ps_count S - 1"
    have l: "?l < ps_count S" using i by simp
    obtain pl cl where last: "slots S ! ?l = (pl, cl)" by fastforce
    obtain S1 where S1: "set_slot i pl cl S = Inr S1" "slots_wf S1" "slots S1 = (slots S)[i := (pl, cl)]"
      "ps_count S1 = ps_count S" "ps_capacity S1 = ps_capacity S" using set_slot_wf [OF wf i(1)] by blast
    obtain S2 where S2: "set_slot ?l \<lparr>p_fd = - 1, p_events = 0, p_revents = 0\<rparr> None S1 = Inr S2" "slots_wf S2"
      "slots S2 = (slots S1)[?l := (\<lparr>p_fd = - 1, p_events = 0, p_revents = 0\<rparr>, None)]"
      "ps_count S2 = ps_count S" "ps_capacity S2 = ps_capacity S"
      using set_slot_wf [OF S1(2)] S1(4,5) l by metis
    have "remove_from fd i S = Inr (S2\<lparr>ps_count := ?l\<rparr>)"
      using i pc True 1(5) slot_wf [OF wf l] last S1(1) S2(1) by (subst remove_from.simps) (simp add: Let_def)
    moreover have "slots_wf (S2\<lparr>ps_count := ?l\<rparr>)" using S2(2,4) by (auto simp: slots_wf_def)
    moreover have "slots (S2\<lparr>ps_count := ?l\<rparr>) = butlast (slots S2)"
      using S2(4) slots_wfD(4,5) [OF S2(2)]
      by (simp add: slots_def butlast_conv_take take_zip min_def take_map)
    moreover have "butlast (slots S2) = swap_remove j (slots S)"
    proof -
      have len: "length (slots S) = ps_count S" "slots S \<noteq> []" using length_slots [OF wf] i(1) by auto
      then have "List.last (slots S) = (pl, cl)" using last by (simp add: last_conv_nth)
      then have S2': "slots S2 = ((slots S)[j := List.last (slots S)])
          [?l := (\<lparr>p_fd = - 1, p_events = 0, p_revents = 0\<rparr>, None)]"
        using S2(3) S1(3) True by simp
      show ?thesis unfolding S2' swap_remove_def using len by (simp add: butlast_list_update)
    qed
    ultimately show ?thesis using S2(5) by simp
  qed
qed

text \<open>The descriptors in use; the kernel never hands out one that is open, so they are distinct.\<close>

definition slot_fds :: "PollSlots \<Rightarrow> int list" where
  "slot_fds S = map (p_fd \<circ> fst) (slots S)"

lemma server_remove_at:
  assumes "slots_wf S" and "distinct (slot_fds S)" and "j < ps_count S"
  shows "\<exists>S'. server_remove_pollslots (p_fd (fst (slots S ! j))) S = Inr S' \<and> slots_wf S'
    \<and> slots S' = swap_remove j (slots S) \<and> ps_capacity S' = ps_capacity S"
  unfolding server_remove_pollslots_def
proof (rule remove_from_wf)
  show "\<forall>k. 0 \<le> k \<and> k < j \<longrightarrow> p_fd (fst (slots S ! k)) \<noteq> p_fd (fst (slots S ! j))"
    using assms(2,3) length_slots [OF assms(1)] by (auto simp: slot_fds_def distinct_conv_nth)
qed (use assms in auto)

lemma remove_from_absent:
  "slots_wf S \<Longrightarrow> \<forall>k < ps_count S. i \<le> k \<longrightarrow> p_fd (fst (slots S ! k)) \<noteq> fd \<Longrightarrow> remove_from fd i S = Inr S"
proof (induction fd i S rule: remove_from.induct)
  case (1 fd i S)
  show ?case
  proof (cases "i < ps_count S")
    case True
    obtain p c where pc: "slots S ! i = (p, c)" by fastforce
    with 1 True slot_wf [OF 1(2) True] show ?thesis by (subst remove_from.simps) auto
  qed (subst remove_from.simps, simp)
qed

lemma server_remove_absent:
  "slots_wf S \<Longrightarrow> fd \<notin> set (slot_fds S) \<Longrightarrow> server_remove_pollslots fd S = Inr S"
  unfolding server_remove_pollslots_def
  by (rule remove_from_absent) (force simp: slot_fds_def length_slots)+

text \<open>Whatever the arrays hold, removing the descriptor of a slot in use takes one slot away.\<close>

lemma remove_from_count:
  "remove_from fd k S = Inr S' \<Longrightarrow> k \<le> i \<Longrightarrow> i < ps_count S \<Longrightarrow> slot S i = Inr (p, c) \<Longrightarrow> p_fd p = fd \<Longrightarrow>
   ps_count S' = ps_count S - 1"
proof (induction fd k S rule: remove_from.induct)
  case (1 fd k S)
  then have k: "k < ps_count S" by simp
  from 1(2) k obtain q d where qd: "slot S k = Inr (q, d)"
    by (subst (asm) remove_from.simps) (auto split: prod.splits)
  show ?case
  proof (cases "p_fd q = fd")
    case True
    with 1(2) k qd show ?thesis
      by (subst (asm) remove_from.simps) (auto simp: Let_def and_then_eq_Inr split: prod.splits)
  next
    case False
    with 1(3,5,6) qd have "k \<noteq> i" by auto
    moreover have "remove_from fd (Suc k) S = Inr S'"
      using 1(2) k qd False by (subst (asm) remove_from.simps) simp
    ultimately show ?thesis using 1(1) [OF k qd refl False] 1(3-6) by simp
  qed
qed

section \<open>The scan of the main loop\<close>

text \<open>
  The loop of \<open>main\<close> over the slots, for any treatment of one slot: \<open>visit\<close> says whether the client
  is to be removed, \<open>drop_client\<close> removes it, \<open>run\<close> reads \<open>RUNNING\<close>. A removed slot is taken by the
  last one, so that the index stays where it is.
\<close>

function slot_loop ::
  "('s \<Rightarrow> bool) \<Rightarrow> (slot \<Rightarrow> 's \<Rightarrow> (bool \<times> 's) res) \<Rightarrow> (slot \<Rightarrow> 's \<Rightarrow> 's res) \<Rightarrow> nat \<Rightarrow> PollSlots \<Rightarrow> 's
   \<Rightarrow> (PollSlots \<times> 's) res" where
  "slot_loop run visit drop_client i S s =
     (if run s \<and> i < ps_count S then
        and_then (slot S i) (\<lambda>x.
        and_then (visit x s) (\<lambda>(to_remove, s1).
          if \<not> to_remove then slot_loop run visit drop_client (Suc i) S s1
          else
            and_then (server_remove_pollslots (p_fd (fst x)) S) (\<lambda>S1.
            and_then (drop_client x s1) (\<lambda>s2. slot_loop run visit drop_client i S1 s2))))
      else Inr (S, s))"
  by pat_completeness auto
termination
proof (relation "measure (\<lambda>(run, visit, drop_client, i, S, s). ps_count S - i)", goal_cases)
  case (3 run visit drop_client i S s x y to_remove s1 S1 s2)
  then have "ps_count S1 = ps_count S - 1"
    using remove_from_count [of "p_fd (fst x)" 0 S S1 i "fst x" "snd x"]
    by (simp add: server_remove_pollslots_def)
  moreover have "i < ps_count S" using 3 by simp
  ultimately show ?case by simp
qed auto

declare slot_loop.simps [simp del]

lemma take_2: "2 \<le> length xs \<Longrightarrow> take 2 xs = [xs ! 0, xs ! 1]"
  by (cases xs; cases "tl xs") (auto simp: numeral_2_eq_2)

lemma swap_remove_take: "i < length xs \<Longrightarrow> take i (swap_remove i xs) = take i xs"
  by (cases "i = length xs - 1") (auto simp: swap_remove_def butlast_conv_take list_update_beyond)

lemma swap_remove_drop_mset:
  "i < length xs \<Longrightarrow> add_mset (xs ! i) (mset (drop i (swap_remove i xs))) = mset (drop i xs)"
  using swap_remove_mset [of i xs] swap_remove_take [of i xs]
  by (metis add_diff_cancel_left' append_take_drop_id mset_append union_mset_add_mset_right)

lemma swap_remove_distinct:
  "distinct (map f xs) \<Longrightarrow> i < length xs \<Longrightarrow> distinct (map f (swap_remove i xs))"
proof -
  assume d: "distinct (map f xs)" and i: "i < length xs"
  have "add_mset (f (xs ! i)) (mset (map f (swap_remove i xs))) = mset (map f xs)"
    using swap_remove_mset [OF i] by (metis image_mset_add_mset mset_map)
  then have "mset (map f (xs ! i # swap_remove i xs)) = mset (map f xs)" by simp
  with d have "distinct (map f (xs ! i # swap_remove i xs))" by (metis mset_eq_imp_distinct_iff)
  then show ?thesis by simp
qed

text \<open>
  The scan with visits that are recorded in a list: it neither skips a slot nor visits one twice, and keeps
  the slots that are not to be removed.
\<close>

lemma slot_loop_visits:
  assumes "slots_wf S" and "distinct (slot_fds S)" and "i \<le> ps_count S"
  shows "\<exists>S' vs. slot_loop (\<lambda>s. True) (\<lambda>x s. Inr (bad x, s @ [x])) (\<lambda>x s. Inr s) i S log = Inr (S', log @ vs)
    \<and> slots_wf S' \<and> take i (slots S') = take i (slots S)
    \<and> mset vs = mset (drop i (slots S)) \<and> i \<le> ps_count S'
    \<and> mset (drop i (slots S')) = filter_mset (\<lambda>x. \<not> bad x) (mset (drop i (slots S)))"
  using assms
proof (induction "ps_count S - i" arbitrary: S i log rule: less_induct)
  case less
  note wf = less.prems(1)
  have len: "length (slots S) = ps_count S" using length_slots [OF wf] .
  show ?case
  proof (cases "i < ps_count S")
    case False
    with less.prems(3) len wf show ?thesis
      by (intro exI [of _ S] exI [of _ "[]"]) (simp add: slot_loop.simps [of _ _ _ "ps_count S" S])
  next
    case True
    let ?x = "slots S ! i"
    have x: "slot S i = Inr ?x" using slot_wf [OF wf True] .
    have drop: "drop i (slots S) = ?x # drop (Suc i) (slots S)" using True len by (simp add: Cons_nth_drop_Suc)
    show ?thesis
    proof (cases "bad ?x")
      case False
      have "ps_count S - Suc i < ps_count S - i" using True by simp
      from less.hyps [OF this wf less.prems(2), of "log @ [?x]"] True obtain S' vs where
        r: "slot_loop (\<lambda>s. True) (\<lambda>x s. Inr (bad x, s @ [x])) (\<lambda>x s. Inr s) (Suc i) S (log @ [?x]) = Inr (S', (log @ [?x]) @ vs)"
        "slots_wf S'" "take (Suc i) (slots S') = take (Suc i) (slots S)" "mset vs = mset (drop (Suc i) (slots S))"
        "Suc i \<le> ps_count S'"
        "mset (drop (Suc i) (slots S')) = filter_mset (\<lambda>x. \<not> bad x) (mset (drop (Suc i) (slots S)))" by auto
      have "i < length (slots S')" using r(2,5) by (simp add: length_slots)
      moreover from this have "slots S' ! i = ?x" using r(3) True len
        by (metis lessI nth_take)
      ultimately have "drop i (slots S') = ?x # drop (Suc i) (slots S')" by (simp add: Cons_nth_drop_Suc [symmetric])
      moreover have "take i (slots S') = take i (slots S)" using arg_cong [OF r(3), of "take i"] by simp
      ultimately show ?thesis using r True x False drop
        by (intro exI [of _ S'] exI [of _ "?x # vs"]) (simp add: slot_loop.simps [of _ _ _ i S])
    next
      case bad: True
      obtain S1 where S1: "server_remove_pollslots (p_fd (fst ?x)) S = Inr S1" "slots_wf S1"
        "slots S1 = swap_remove i (slots S)" using server_remove_at [OF wf less.prems(2) True] by blast
      have cnt: "ps_count S1 = ps_count S - 1" using S1(3) length_slots [OF S1(2)] len by simp
      have "distinct (slot_fds S1)"
        using swap_remove_distinct [of "p_fd \<circ> fst" "slots S" i] less.prems(2) True len S1(3) by (simp add: slot_fds_def)
      moreover have "ps_count S1 - i < ps_count S - i" "i \<le> ps_count S1" using True cnt by simp_all
      ultimately obtain S' vs where
        r: "slot_loop (\<lambda>s. True) (\<lambda>x s. Inr (bad x, s @ [x])) (\<lambda>x s. Inr s) i S1 (log @ [?x]) = Inr (S', (log @ [?x]) @ vs)"
        "slots_wf S'" "take i (slots S') = take i (slots S1)" "mset vs = mset (drop i (slots S1))" "i \<le> ps_count S'"
        "mset (drop i (slots S')) = filter_mset (\<lambda>x. \<not> bad x) (mset (drop i (slots S1)))"
        using less.hyps [of S1 i "log @ [?x]"] S1(2) by blast
      have "mset (drop i (slots S)) = add_mset ?x (mset (drop i (slots S1)))"
        using swap_remove_drop_mset [of i "slots S"] True len S1(3) by simp
      moreover have "take i (slots S1) = take i (slots S)" using swap_remove_take True len S1(3) by metis
      ultimately show ?thesis using r True x bad S1(1)
        by (intro exI [of _ S'] exI [of _ "?x # vs"]) (simp add: slot_loop.simps [of _ _ _ i S])
    qed
  qed
qed

section \<open>Properties\<close>

text \<open>setting up the pipes yields well-formed slots with exactly the reading ends of the two self
  pipes at the indices 0 and 1, or one of the two error codes and no slots; it never writes out of bounds.\<close>

theorem server_setup_pipes_slots:
  "(\<exists>S. server_setup_pipes (Some (hr, hw)) (Some (rr, rw)) True True
       = Inr (SUCCESS, Some (\<lparr>hsk_r = hr, hsk_w = hw, rpc_r = rr, rpc_w = rw\<rparr>, S))
     \<and> slots_wf S \<and> slots S = [(\<lparr>p_fd = hr, p_events = POLLIN, p_revents = 0\<rparr>, None),
                                (\<lparr>p_fd = rr, p_events = POLLIN, p_revents = 0\<rparr>, None)])
   \<and> (\<forall>hsk rpc m1 m2. hsk = None \<or> rpc = None \<or> \<not> m1 \<or> \<not> m2 \<longrightarrow>
        (\<exists>e \<in> {PIPE_FAIL, POLLFD_FAIL}. server_setup_pipes hsk rpc m1 m2 = Inr (e, None)))"
proof -
  let ?p = "\<lparr>p_fd = hr, p_events = POLLIN, p_revents = 0\<rparr>" and ?q = "\<lparr>p_fd = rr, p_events = POLLIN, p_revents = 0\<rparr>"
  let ?S = "\<lparr>ps_fds = (replicate 32 None)[0 := Some ?p, 1 := Some ?q],
             ps_clients = (replicate 32 None)[0 := Some None, 1 := Some None], ps_capacity = 32, ps_count = 2\<rparr>"
  have "server_setup_pipes (Some (hr, hw)) (Some (rr, rw)) True True
      = Inr (SUCCESS, Some (\<lparr>hsk_r = hr, hsk_w = hw, rpc_r = rr, rpc_w = rw\<rparr>, ?S))"
    by (simp add: server_setup_pipes_def set_slot_def POLLFD_INIT_N_def Let_def)
  moreover have "slots_wf ?S" by (auto simp: slots_wf_def nth_list_update less_2_cases_iff)
  moreover have "slots ?S = [(?p, None), (?q, None)]" by (simp add: slots_def take_2 nth_list_update)
  moreover have "\<exists>e \<in> {PIPE_FAIL, POLLFD_FAIL}. server_setup_pipes hsk rpc m1 m2 = Inr (e, None)"
    if "hsk = None \<or> rpc = None \<or> \<not> m1 \<or> \<not> m2" for hsk rpc m1 m2
    using that by (auto simp: server_setup_pipes_def split: option.split)
  ultimately show ?thesis by blast
qed

theorem server_setup_pipes_slots_witness:
  "\<exists>e \<in> {PIPE_FAIL, POLLFD_FAIL}. server_setup_pipes None (Some (5, 6)) True True = Inr (e, None)"
  using server_setup_pipes_slots by blast

text \<open>registering a client's pipe appends one slot with no event pending, growing the arrays when they
  are full; when memory is exhausted the slots are unchanged, even if one of the two arrays has already
  been moved.\<close>

theorem server_insert_pollslots_appends:
  assumes "slots_wf S"
  shows "\<exists>e S'. server_insert_pollslots alloc_pf alloc_cl fd client S = Inr (e, S') \<and> slots_wf S'
    \<and> slots S' = (if e = SUCCESS then slots S @ [(\<lparr>p_fd = fd, p_events = POLLIN, p_revents = 0\<rparr>, client)] else slots S)
    \<and> (e = SUCCESS \<or> e = GROW_FAIL \<and> ps_count S = ps_capacity S)"
  using server_insert_cases [OF assms, of alloc_pf alloc_cl fd client] by force

definition three_slots :: PollSlots where
  "three_slots = \<lparr>ps_fds = map (\<lambda>f. Some \<lparr>p_fd = f, p_events = POLLIN, p_revents = 0\<rparr>) [3, 5, 10, 20],
     ps_clients = [Some None, Some None, Some (Some 1), Some (Some 2)], ps_capacity = 4, ps_count = 4\<rparr>"

lemma three_slots_wf: "slots_wf three_slots" "distinct (slot_fds three_slots)"
  by (simp_all add: three_slots_def slots_wf_def slot_fds_def slots_def nth_Cons split: nat.split)

theorem server_insert_pollslots_appends_witness:
  "\<exists>e S'. server_insert_pollslots (\<lambda>n. True) (\<lambda>n. False) 30 (Some 3) three_slots = Inr (e, S') \<and> slots_wf S'
    \<and> slots S' = (if e = SUCCESS
        then slots three_slots @ [(\<lparr>p_fd = 30, p_events = POLLIN, p_revents = 0\<rparr>, Some 3)] else slots three_slots)"
proof -
  from server_insert_pollslots_appends [OF three_slots_wf(1), of "\<lambda>n. True" "\<lambda>n. False" 30 "Some 3"]
  show ?thesis by blast
qed

text \<open>removing a descriptor takes away its slot and no other, without a fault: the multiset of the
  other slots is unchanged, and a descriptor that has no slot changes nothing.\<close>

theorem server_remove_pollslots_exact:
  assumes "slots_wf S" and "distinct (slot_fds S)"
  shows "\<exists>S'. server_remove_pollslots fd S = Inr S' \<and> slots_wf S' \<and> distinct (slot_fds S')
    \<and> mset (slots S') = filter_mset (\<lambda>x. p_fd (fst x) \<noteq> fd) (mset (slots S))"
proof (cases "fd \<in> set (slot_fds S)")
  case False
  then have "filter (\<lambda>x. p_fd (fst x) \<noteq> fd) (slots S) = slots S"
    by (auto simp: slot_fds_def filter_id_conv)
  then have "filter_mset (\<lambda>x. p_fd (fst x) \<noteq> fd) (mset (slots S)) = mset (slots S)" by (metis mset_filter)
  with server_remove_absent [OF assms(1) False] assms show ?thesis by simp
next
  case True
  then obtain j where j: "j < ps_count S" "p_fd (fst (slots S ! j)) = fd"
    by (auto simp: slot_fds_def in_set_conv_nth length_slots [OF assms(1)])
  then have j': "j < length (slots S)" by (simp add: length_slots [OF assms(1)])
  obtain S' where S': "server_remove_pollslots fd S = Inr S'" "slots_wf S'" "slots S' = swap_remove j (slots S)"
    using server_remove_at [OF assms j(1)] j(2) by blast
  have d: "distinct (map (p_fd \<circ> fst) (slots S ! j # slots S'))"
    using swap_remove_mset [OF j'] assms(2) S'(3)
    by (metis (no_types) mset.simps(2) mset_map mset_eq_imp_distinct_iff slot_fds_def)
  then have "p_fd (fst x) \<noteq> fd" if "x \<in> set (slots S')" for x
    using j(2) imageI [OF that, of "\<lambda>x. p_fd (fst x)"] by (simp del: image_eqI) metis
  then have "filter (\<lambda>x. p_fd (fst x) \<noteq> fd) (slots S') = slots S'" by (simp add: filter_id_conv)
  then have "filter_mset (\<lambda>x. p_fd (fst x) \<noteq> fd) (mset (slots S)) = mset (slots S')"
    using swap_remove_mset [OF j', symmetric] S'(3) j(2) by (simp flip: mset_filter)
  with S' d show ?thesis by (simp add: slot_fds_def)
qed

theorem server_remove_pollslots_exact_witness:
  "\<exists>S'. server_remove_pollslots 10 three_slots = Inr S' \<and> size (slots S') = 3"
proof -
  obtain S' where "server_remove_pollslots 10 three_slots = Inr S'"
    "mset (slots S') = filter_mset (\<lambda>x. p_fd (fst x) \<noteq> 10) (mset (slots three_slots))"
    using server_remove_pollslots_exact [OF three_slots_wf, of 10] by blast
  moreover have "size (filter_mset (\<lambda>x. p_fd (fst x) \<noteq> 10) (mset (slots three_slots))) = 3"
    by (simp add: three_slots_def slots_def)
  ultimately show ?thesis by (metis size_mset)
qed

text \<open>C9: the scan of the main loop, which removes slots while it walks over them, visits every client slot exactly
  once, ends with exactly the slots it did not remove, and leaves the two slots of the self pipes in place.\<close>

theorem slot_loop_visits_once:
  assumes "slots_wf S" and "distinct (slot_fds S)" and "2 \<le> ps_count S"
  shows "\<exists>S' vs. slot_loop (\<lambda>s. True) (\<lambda>x s. Inr (bad x, s @ [x])) (\<lambda>x s. Inr s) 2 S [] = Inr (S', vs)
    \<and> slots_wf S' \<and> take 2 (slots S') = take 2 (slots S) \<and> mset vs = mset (drop 2 (slots S))
    \<and> mset (drop 2 (slots S')) = filter_mset (\<lambda>x. \<not> bad x) (mset (drop 2 (slots S)))"
  using slot_loop_visits [OF assms, of bad "[]"] by auto

theorem slot_loop_visits_once_witness:
  "\<exists>S' vs. slot_loop (\<lambda>s. True) (\<lambda>x s. Inr (snd x = Some 1, s @ [x])) (\<lambda>x s. Inr s) 2 three_slots [] = Inr (S', vs)
    \<and> size vs = 2 \<and> size (drop 2 (slots S')) = 1"
proof -
  have "2 \<le> ps_count three_slots" by (simp add: three_slots_def)
  from slot_loop_visits_once [OF three_slots_wf this, of "\<lambda>x. snd x = Some 1"] obtain S' vs where
    "slot_loop (\<lambda>s. True) (\<lambda>x s. Inr (snd x = Some 1, s @ [x])) (\<lambda>x s. Inr s) 2 three_slots [] = Inr (S', vs)"
    "mset vs = mset (drop 2 (slots three_slots))"
    "mset (drop 2 (slots S')) = filter_mset (\<lambda>x. snd x \<noteq> Some 1) (mset (drop 2 (slots three_slots)))" by blast
  moreover have "size (mset (drop 2 (slots three_slots))) = 2"
    "size (filter_mset (\<lambda>x. snd x \<noteq> Some 1) (mset (drop 2 (slots three_slots)))) = 1"
    by (simp_all add: three_slots_def slots_def)
  ultimately show ?thesis by (metis size_mset)
qed

end
