(* ===== verification/Auth.thy ===== *)
theory Auth
  imports Fifo Task
begin

text \<open>
  \<open>server/src/auth.c\<close>: the user database, a text file with a name and a balance on each line, and the
  search a login makes in it, with the fixed-size line buffer of the code.
\<close>

section \<open>Reading lines\<close>

text \<open>\<open>fgets(buf, n, f)\<close>: at most \<open>n - 1\<close> characters, up to and with a newline, and what is left of the file.\<close>

definition c_fgets :: "nat \<Rightarrow> string \<Rightarrow> (string \<times> string) option" where
  "c_fgets n s =
     (if s = [] then None
      else let k = min (n - 1) (Suc (length (takeWhile (\<lambda>c. c \<noteq> NL) s)))
           in Some (take k s, drop k s))"

text \<open>The buffer after \<open>fgets\<close>: the characters, a zero, and what the buffer held beyond.\<close>

definition fill :: "string \<Rightarrow> char list \<Rightarrow> char list" where
  "fill chunk buf = chunk @ NUL # drop (Suc (length chunk)) buf"

lemma c_fgets_Some:
  "c_fgets n s = Some (l, r) \<Longrightarrow> 1 < n \<Longrightarrow>
   l @ r = s \<and> l \<noteq> [] \<and> length l \<le> n - 1 \<and> length r < length s"
  by (cases s) (auto simp: c_fgets_def Let_def min_def split: if_splits)

lemma c_fgets_line:
  assumes "NL \<notin> set l" and "Suc (length l) < n"
  shows "c_fgets n (l @ NL # r) = Some (l @ [NL], r)"
proof -
  have "takeWhile (\<lambda>c. c \<noteq> NL) (l @ NL # r) = l"
  proof (rule takeWhile_all_append(1))
    show "list_all (\<lambda>c. c \<noteq> NL) l" using assms(1) by (auto simp: list_all_iff)
  qed simp
  then show ?thesis using assms(2) by (simp add: c_fgets_def)
qed

section \<open>The search\<close>

definition MAX_UTXT_LINEBUF_LEN :: nat where "MAX_UTXT_LINEBUF_LEN = 64"

definition usertxt_check :: "bool \<Rightarrow> ErrType" where
  "usertxt_check fopen_ok = (if fopen_ok then SUCCESS else USERTXT_FAIL)"

text \<open>
  The loop: the comparison, the bound of the character after the name, and \<open>strtol\<close> with its check that a
  number was there. \<open>buf\<close> is the array, with what earlier lines have left in it.
\<close>

function usertxt_loop :: "string \<Rightarrow> char list \<Rightarrow> string \<Rightarrow> (ResultType \<times> int option) res" where
  "usertxt_loop username buf file =
     (case c_fgets MAX_UTXT_LINEBUF_LEN file of
        None \<Rightarrow> Inr (AUTH_UN, None)
      | Some (chunk, rest) \<Rightarrow>
          and_then (sanitise_whitespace (fill chunk buf)) (\<lambda>buf1.
            let line = c_str buf1; n = length username
            in if \<not> strncmp_eq username line n then usertxt_loop username buf1 rest
               else and_then (peek buf1 n) (\<lambda>c.
                 if \<not> c_isspace c then usertxt_loop username buf1 rest
                 else
                   let (bal, endptr) = strtol (drop n line)
                   in if endptr = drop n line then usertxt_loop username buf1 rest
                      else Inr (if 0 < bal then AUTH_OK else AUTH_NO, Some bal))))"
  by pat_completeness auto
termination
  by (relation "measure (\<lambda>(u, b, f). length f)")
     (auto dest!: c_fgets_Some simp: MAX_UTXT_LINEBUF_LEN_def)

declare usertxt_loop.simps [simp del]

text \<open>\<open>file\<close> is \<open>None\<close> when \<open>users.txt\<close> cannot be opened; \<open>junk\<close> is the uninitialised buffer.\<close>

definition usertxt_get_balance ::
  "string option \<Rightarrow> char list \<Rightarrow> string \<Rightarrow> (ResultType \<times> int option) res" where
  "usertxt_get_balance file junk username =
     (case file of None \<Rightarrow> Inr (AUTH_UN, None) | Some f \<Rightarrow> usertxt_loop username junk f)"

section \<open>What the search computes\<close>

text \<open>The pieces of the file the loop looks at, and what one of them says about a user.\<close>

function chunks :: "string \<Rightarrow> string list" where
  "chunks file = (case c_fgets MAX_UTXT_LINEBUF_LEN file of None \<Rightarrow> [] | Some (l, r) \<Rightarrow> l # chunks r)"
  by pat_completeness auto
termination
  by (relation "measure length") (auto dest!: c_fgets_Some simp: MAX_UTXT_LINEBUF_LEN_def)

declare chunks.simps [simp del]

definition line_balance :: "string \<Rightarrow> string \<Rightarrow> int option" where
  "line_balance username chunk =
     (let line = normal (c_str chunk); n = length username
      in if take n line = username \<and> n < length line \<and> c_isspace (line ! n)
            \<and> scan_num (drop n line) \<noteq> None
         then Some (fst (strtol (drop n line))) else None)"

fun first_some :: "('a \<Rightarrow> 'b option) \<Rightarrow> 'a list \<Rightarrow> 'b option" where
  "first_some f [] = None"
| "first_some f (x # xs) = (case f x of None \<Rightarrow> first_some f xs | Some y \<Rightarrow> Some y)"

definition auth_result :: "int option \<Rightarrow> ResultType \<times> int option" where
  "auth_result b = (case b of None \<Rightarrow> (AUTH_UN, None)
     | Some v \<Rightarrow> (if 0 < v then AUTH_OK else AUTH_NO, Some v))"

lemma auth_result_simps [simp]:
  "auth_result None = (AUTH_UN, None)"
  "auth_result (Some v) = (if 0 < v then AUTH_OK else AUTH_NO, Some v)"
  by (simp_all add: auth_result_def)

lemma scan_num_shorter: "scan_num s = Some (neg, m, r) \<Longrightarrow> length r < length s"
proof -
  assume a: "scan_num s = Some (neg, m, r)"
  obtain sg u where u: "scan_sign (dropWhile c_isspace s) = (sg, u)" by fastforce
  with a have ds: "takeWhile c_isdigit u \<noteq> []" and r: "r = dropWhile c_isdigit u"
    by (auto simp: scan_num_def Let_def split: if_splits)
  have "length u = length (takeWhile c_isdigit u) + length r"
    unfolding r by (metis length_append takeWhile_dropWhile_id)
  moreover have "length u \<le> length (dropWhile c_isspace s)"
  proof -
    have "length v \<le> length t" if "scan_sign t = (b, v)" for t v b
      using that by (auto simp: scan_sign_def split: list.splits if_splits)
    from this [OF u] show ?thesis .
  qed
  moreover have "length (dropWhile c_isspace s) \<le> length s" by (rule length_dropWhile_le)
  moreover have "0 < length (takeWhile c_isdigit u)" using ds by simp
  ultimately show ?thesis by linarith
qed

lemma strtol_endptr: "snd (strtol s) = s \<longleftrightarrow> scan_num s = None"
  using scan_num_shorter [of s] by (force simp: strtol_def split: option.split)

lemma c_str_split: "\<exists>t. chunk @ NUL # rest = c_str chunk @ NUL # t"
proof (cases "NUL \<in> set chunk")
  case True
  then have "dropWhile (\<lambda>c. c \<noteq> NUL) chunk \<noteq> []" by (auto simp: dropWhile_eq_Nil_conv)
  then obtain x t where d: "dropWhile (\<lambda>c. c \<noteq> NUL) chunk = x # t" by (cases "dropWhile (\<lambda>c. c \<noteq> NUL) chunk") auto
  moreover have "x = NUL" using d by (simp add: dropWhile_eq_Cons_conv)
  ultimately show ?thesis unfolding c_str_def by (metis append.assoc append_Cons takeWhile_dropWhile_id)
next
  case False
  then have "c_str chunk = chunk" by (auto simp: c_str_def takeWhile_eq_all_conv)
  then show ?thesis by auto
qed

lemma no_nul_c_str [simp]: "no_nul (c_str s)"
  by (auto simp: no_nul_def c_str_def list_all_iff dest: set_takeWhileD)

text \<open>The buffer after one piece has been read and sanitised.\<close>

lemma sanitise_fill:
  assumes "length chunk < length buf"
  shows "\<exists>t. sanitise_whitespace (fill chunk buf) = Inr (normal (c_str chunk) @ NUL # t)
    \<and> length (normal (c_str chunk) @ NUL # t) = length buf"
proof -
  obtain t where t: "fill chunk buf = c_str chunk @ NUL # t"
    using c_str_split [of chunk] by (auto simp: fill_def)
  moreover have "length (fill chunk buf) = length buf" using assms by (simp add: fill_def)
  ultimately show ?thesis using sanitise_normal [of "c_str chunk" t] by auto
qed

lemma usertxt_loop_spec:
  "length buf = MAX_UTXT_LINEBUF_LEN \<Longrightarrow>
   usertxt_loop username buf db = Inr (auth_result (first_some (line_balance username) (chunks db)))"
proof (induction db arbitrary: buf rule: chunks.induct)
  case (1 db)
  show ?case
  proof (cases "c_fgets MAX_UTXT_LINEBUF_LEN db")
    case None
    then show ?thesis by (subst usertxt_loop.simps, subst chunks.simps) (simp add: auth_result_def)
  next
    case (Some p)
    obtain chunk rest where p: "p = (chunk, rest)" by fastforce
    have len: "length chunk < length buf"
      using c_fgets_Some [OF Some [unfolded p]] 1(2) by (simp add: MAX_UTXT_LINEBUF_LEN_def)
    from sanitise_fill [OF len] obtain t where
      t: "sanitise_whitespace (fill chunk buf) = Inr (normal (c_str chunk) @ NUL # t)"
        "length (normal (c_str chunk) @ NUL # t) = MAX_UTXT_LINEBUF_LEN" using 1(2) by auto
    let ?line = "normal (c_str chunk)" and ?n = "length username"
    have line: "c_str (?line @ NUL # t) = ?line" by simp
    note IH = 1(1) [OF Some [unfolded p] refl t(2)]
    have bound: "?n \<le> length ?line" if "take ?n ?line = username"
      using arg_cong [OF that, of length] by simp
    have at: "peek (?line @ NUL # t) ?n = Inr (if ?n < length ?line then ?line ! ?n else NUL)"
      if "take ?n ?line = username"
      using bound [OF that] by (auto simp: peek_def nth_append)
    show ?thesis
      using t(1) line at IH strtol_endptr [of "drop ?n ?line"]
      by (subst usertxt_loop.simps, subst chunks.simps)
         (auto simp: Some p strncmp_eq_def line_balance_def [of username chunk] Let_def split_beta)
  qed
qed

section \<open>Databases the search reads as they are meant\<close>

definition db_line :: "string \<times> int \<Rightarrow> string" where
  "db_line e = fst e @ SPC # show_int (snd e) @ [NL]"

text \<open>An entry that fits: a name without white space, a balance that is a \<open>long\<close>, a short line.\<close>

definition db_entry_ok :: "string \<times> int \<Rightarrow> bool" where
  "db_entry_ok e \<longleftrightarrow> is_word (fst e) \<and> no_nul (fst e) \<and> LONG_MIN \<le> snd e \<and> snd e \<le> LONG_MAX
     \<and> length (db_line e) < MAX_UTXT_LINEBUF_LEN"

lemma show_int_word: "is_word (show_int i)" "no_nul (show_int i)"
proof -
  have d: "\<not> c_isspace c \<and> c \<noteq> NUL" if "c_isdigit c" for c
    using that isdigit_not_space [OF that] by auto
  have "list_all (\<lambda>c. \<not> c_isspace c \<and> c \<noteq> NUL) (show_nat n)" for n
    using show_nat_digits [of n] d by (auto simp: list_all_iff)
  then have "list_all (\<lambda>c. \<not> c_isspace c \<and> c \<noteq> NUL) (show_int i)"
    by (simp add: show_int_def)
  then show "is_word (show_int i)" "no_nul (show_int i)" by (auto simp: is_word_def no_nul_def list_all_iff)
qed

lemma no_nul_append [simp]: "no_nul (s @ t) \<longleftrightarrow> no_nul s \<and> no_nul t"
  by (simp add: no_nul_def)

lemma c_str_id: "no_nul s \<Longrightarrow> c_str s = s"
  by (auto simp: c_str_def no_nul_def takeWhile_eq_all_conv list_all_iff)

lemma normal_db_line:
  assumes "db_entry_ok e"
  shows "normal (c_str (db_line e)) = fst e @ SPC # show_int (snd e)"
proof -
  have w: "is_word (fst e)" "list_all (\<lambda>c. \<not> c_isspace c) (fst e)" "list_all (\<lambda>c. \<not> c_isspace c) (show_int (snd e))"
    using assms show_int_word(1) by (auto simp: db_entry_ok_def is_word_def)
  have "no_nul (db_line e)"
    using assms show_int_word(2) by (simp add: db_line_def db_entry_ok_def) (simp add: no_nul_def)
  then have "normal (c_str (db_line e)) = unwords (words [] (db_line e))" by (simp add: c_str_id normal_def)
  also have "words [] (db_line e) = [fst e, show_int (snd e)]"
    using w words_word [OF w(2), of "[]"] words_word [OF w(3), of "[]" "[NL]"]
    by (simp add: db_line_def is_word_def)
  finally show ?thesis by simp
qed

lemma line_balance_db:
  assumes ok: "db_entry_ok e" and u: "is_word u"
  shows "line_balance u (db_line e) = (if fst e = u then Some (snd e) else None)"
proof -
  obtain n b where e: "e = (n, b)" by fastforce
  let ?line = "n @ SPC # show_int b"
  have line: "normal (c_str (db_line e)) = ?line" using normal_db_line [OF ok] e by simp
  note line' = line [unfolded e]
  have n: "list_all (\<lambda>c. \<not> c_isspace c) n" using ok e by (simp add: db_entry_ok_def is_word_def)
  have b: "LONG_MIN \<le> b" "b \<le> LONG_MAX" using ok e by (simp_all add: db_entry_ok_def)
  show ?thesis
  proof (cases "n = u")
    case True
    have "scan_num (SPC # show_int b) = Some (b < 0, nat \<bar>b\<bar>, [])"
      using scan_num_show_int [of "[]" b] by simp
    moreover from this have "fst (strtol (SPC # show_int b)) = b" using b by (auto simp: strtol_def int_simps)
    ultimately show ?thesis using True line' by (simp add: line_balance_def e Let_def)
  next
    case False
    have "\<not> (take (length u) ?line = u \<and> length u < length ?line \<and> c_isspace (?line ! length u))"
    proof
      assume a: "take (length u) ?line = u \<and> length u < length ?line \<and> c_isspace (?line ! length u)"
      have "length u \<le> length n"
      proof (rule ccontr)
        assume "\<not> length u \<le> length n"
        then have "u ! length n = ?line ! length n" and "length n < length u" using a by (metis nth_take not_le)+
        then show False using u by (auto simp: is_word_def list_all_length)
      qed
      moreover have "length u \<noteq> length n" using a False by auto
      ultimately have "length u < length n" "?line ! length u = n ! length u" by (simp_all add: nth_append)
      then show False using a n by (auto simp: list_all_length)
    qed
    then show ?thesis using False by (auto simp: line_balance_def line' e Let_def)
  qed
qed

lemma chunks_db:
  "list_all db_entry_ok db \<Longrightarrow> chunks (concat (map db_line db)) = map db_line db"
proof (induction db)
  case Nil
  then show ?case by (subst chunks.simps) (simp add: c_fgets_def)
next
  case (Cons e es)
  let ?l = "fst e @ SPC # show_int (snd e)"
  have "NL \<notin> set ?l"
    using Cons.prems show_int_word(1) [of "snd e"] by (auto simp: db_entry_ok_def is_word_def list_all_iff)
  moreover have "Suc (length ?l) < MAX_UTXT_LINEBUF_LEN" using Cons.prems by (simp add: db_entry_ok_def db_line_def)
  ultimately have "c_fgets MAX_UTXT_LINEBUF_LEN (?l @ NL # concat (map db_line es))
      = Some (?l @ [NL], concat (map db_line es))" by (rule c_fgets_line)
  then show ?case using Cons by (subst chunks.simps) (simp add: db_line_def [of e])
qed

lemma first_some_map_of:
  "list_all db_entry_ok db \<Longrightarrow> is_word u \<Longrightarrow> first_some (line_balance u) (map db_line db) = map_of db u"
  by (induction db) (auto simp: line_balance_db)

section \<open>Properties\<close>

text \<open>on any user database at all, the search ends, never reads or writes outside its 64 byte buffer, and
  returns the balance of the first piece of the file that begins with the name, white space and a number.\<close>

theorem usertxt_search_total:
  assumes "length junk = MAX_UTXT_LINEBUF_LEN"
  shows "usertxt_get_balance (Some db) junk username
    = Inr (auth_result (first_some (line_balance username) (chunks db)))"
  using usertxt_loop_spec [OF assms] by (simp add: usertxt_get_balance_def)

theorem usertxt_search_total_witness:
  "usertxt_get_balance (Some []) (replicate 64 NUL) ''ann'' = Inr (AUTH_UN, None)"
  using usertxt_search_total [of "replicate 64 NUL" "[]" "''ann''"]
  by (simp add: MAX_UTXT_LINEBUF_LEN_def chunks.simps c_fgets_def)

text \<open>C15: on a database of lines that fit the buffer, a login is looked up as in a map from names to
  balances: a name that is a prefix of another one, or the other way round, does not match, the first of two lines for
  a name counts, and the login succeeds exactly if the balance is positive.\<close>

theorem usertxt_is_map_lookup:
  assumes "list_all db_entry_ok db" and "is_word u" and "length junk = MAX_UTXT_LINEBUF_LEN"
  shows "usertxt_get_balance (Some (concat (map db_line db))) junk u = Inr (auth_result (map_of db u))"
  using usertxt_loop_spec [OF assms(3)] chunks_db [OF assms(1)] first_some_map_of [OF assms(1,2)]
  by (simp add: usertxt_get_balance_def)

definition sample_db :: "(string \<times> int) list" where
  "sample_db = [(''anna'', 5), (''ann'', 12), (''bob'', - 3)]"

lemma sample_db_ok: "list_all db_entry_ok sample_db"
proof -
  have "show_int 5 = ''5''" "show_int 12 = ''12''" "show_int (- 3) = ''-3''" by code_simp+
  then show ?thesis
    by (simp add: sample_db_def db_entry_ok_def db_line_def MAX_UTXT_LINEBUF_LEN_def int_limits is_word_def
        no_nul_def c_isspace_def)
qed

theorem usertxt_is_map_lookup_witness:
  "usertxt_get_balance (Some (concat (map db_line sample_db))) (replicate 64 NUL) ''ann'' = Inr (AUTH_OK, Some 12)
   \<and> usertxt_get_balance (Some (concat (map db_line sample_db))) (replicate 64 NUL) ''bob'' = Inr (AUTH_NO, Some (- 3))
   \<and> usertxt_get_balance (Some (concat (map db_line sample_db))) (replicate 64 NUL) ''an'' = Inr (AUTH_UN, None)"
  using usertxt_is_map_lookup [OF sample_db_ok, of "''ann''" "replicate 64 NUL"]
    usertxt_is_map_lookup [OF sample_db_ok, of "''bob''" "replicate 64 NUL"]
    usertxt_is_map_lookup [OF sample_db_ok, of "''an''" "replicate 64 NUL"]
  by (simp add: is_word_def c_isspace_def MAX_UTXT_LINEBUF_LEN_def) (simp add: sample_db_def)

lemma normal_hd: "normal s \<noteq> [] \<Longrightarrow> \<not> c_isspace (hd (normal s))"
proof -
  assume "normal s \<noteq> []"
  then obtain w ws where w: "words [] s = w # ws" by (cases "words [] s") (auto simp: normal_def)
  then have "is_word w" using words_is_word [of "[]" s] by simp
  then show ?thesis by (cases w) (auto simp: normal_def w unwords_cons is_word_def)
qed

text \<open>the empty name, which the request "Login " carries, is never authorised, whatever the database
  holds: not even a line that starts with white space matches it.\<close>

theorem empty_name_rejected:
  assumes "length junk = MAX_UTXT_LINEBUF_LEN"
  shows "usertxt_get_balance (Some db) junk [] = Inr (AUTH_UN, None)"
proof -
  have "line_balance [] c = None" for c
    using normal_hd [of "c_str c"] by (auto simp: line_balance_def Let_def hd_conv_nth)
  then have "first_some (line_balance []) cs = None" for cs by (induction cs) auto
  then show ?thesis using usertxt_loop_spec [OF assms] by (simp add: usertxt_get_balance_def)
qed

theorem empty_name_rejected_witness:
  "usertxt_get_balance (Some (SPC # ''5'' @ [NL])) (replicate 64 NUL) [] = Inr (AUTH_UN, None)"
  by (rule empty_name_rejected) (simp add: MAX_UTXT_LINEBUF_LEN_def)

text \<open>a line of 64 characters or more is not read as one line: what stands after its first 63 characters is
  matched as a line of its own, so the end of a long line can authorise a name that has no line.\<close>

theorem long_line_authorises_its_tail:
  assumes "length filler = 63" and "NL \<notin> set filler" and "is_word u" and "no_nul u" and "length u < 40"
    and "line_balance u filler = None"
    and "length junk = MAX_UTXT_LINEBUF_LEN"
  shows "usertxt_get_balance (Some (filler @ db_line (u, 1))) junk u = Inr (AUTH_OK, Some 1)"
proof -
  have s1: "show_int 1 = ''1''" by code_simp
  have ok: "db_entry_ok (u, 1)"
    using assms(3-5) by (simp add: db_entry_ok_def db_line_def s1 MAX_UTXT_LINEBUF_LEN_def int_limits)
  have "63 \<le> length (takeWhile (\<lambda>c. c \<noteq> NL) (filler @ db_line (u, 1)))"
    using assms(1,2) by (subst takeWhile_append2) auto
  then have "c_fgets MAX_UTXT_LINEBUF_LEN (filler @ db_line (u, 1)) = Some (filler, db_line (u, 1))"
    using assms(1) by (simp add: c_fgets_def MAX_UTXT_LINEBUF_LEN_def min_def db_line_def)
  then have "chunks (filler @ db_line (u, 1)) = filler # chunks (db_line (u, 1))" by (subst chunks.simps) simp
  also have "chunks (db_line (u, 1)) = [db_line (u, 1)]" using chunks_db [of "[(u, 1)]"] ok by simp
  finally show ?thesis
    using usertxt_loop_spec [OF assms(7)] line_balance_db [OF ok assms(3)] assms(6)
    by (simp add: usertxt_get_balance_def)
qed

theorem long_line_authorises_its_tail_witness:
  "usertxt_get_balance (Some (replicate 63 (CHR ''x'') @ db_line (''eve'', 1))) (replicate 64 NUL) ''eve''
     = Inr (AUTH_OK, Some 1)"
proof (rule long_line_authorises_its_tail)
  have "line_balance ''eve'' (replicate 63 (CHR ''x'')) = None" by code_simp
  then show "line_balance ''eve'' (replicate 63 (CHR ''x'')) = None" .
qed (simp_all add: is_word_def no_nul_def c_isspace_def MAX_UTXT_LINEBUF_LEN_def)

end
