(* ===== verification/Commands.thy ===== *)
theory Commands
  imports Task Registry "HOL-Library.Sublist"
begin

text \<open>
  \<open>server/src/commands.c\<close>: a line a client has sent becomes a task. The code is a sequence of
  independent tests, one per command, each of which takes a reference to the client and queues a
  task.
\<close>

section \<open>\<open>handle_command\<close>\<close>

text \<open>What the function can change: the registry, the queue, and \<open>retval\<close>. The allocator is a function of
  the heap, so that it may answer each call differently.\<close>

type_synonym cmd_state = "ClientRegistry \<times> TaskQueue \<times> ErrType"

type_synonym allocator = "(addr \<rightharpoonup> Task) \<Rightarrow> addr option"

definition enqueue ::
  "allocator \<Rightarrow> TaskType \<Rightarrow> int \<Rightarrow> string option \<Rightarrow> addr option \<Rightarrow> TaskQueue \<times> ErrType \<Rightarrow> (TaskQueue \<times> ErrType) res" where
  "enqueue malloc type pid request client S =
     and_then (task_enqueue (malloc (tq_mem (fst S))) type pid request client (fst S)) (\<lambda>(e, q).
       Inr (q, if e = TQ_FAIL then TQ_FAIL else snd S))"

text \<open>\<open>creg_acquire_client\<close>, and \<open>task_enqueue\<close> if it succeeds; \<open>True\<close> is the return value 1.\<close>

definition submit ::
  "allocator \<Rightarrow> addr \<Rightarrow> TaskType \<Rightarrow> string \<Rightarrow> cmd_state \<Rightarrow> (cmd_state \<Rightarrow> (bool \<times> cmd_state) res) \<Rightarrow> (bool \<times> cmd_state) res" where
  "submit malloc client type args S k = (case S of (R, q, rv) \<Rightarrow>
     and_then (creg_acquire_client client R) (\<lambda>(e, R1).
       if e = FAIL then Inr (True, R1, q, rv)
       else and_then (enqueue malloc type 0 (Some args) (Some client) (q, rv)) (\<lambda>(q1, rv1). k (R1, q1, rv1))))"

text \<open>The tests in the order of the source: what is compared, how many characters, the task.\<close>

definition rpc_table :: "(string \<times> nat \<times> TaskType) list" where
  "rpc_table =
     [(''create_canvas '', 14, CREATE_CANVAS), (''destroy_canvas '', 15, DESTROY_CANVAS),
      (''create_sprite '', 14, CREATE_SPRITE), (''create_rectangle '', 17, CREATE_RECTANGLE),
      (''create_circle '', 14, CREATE_CIRCLE), (''destroy_sprite '', 15, DESTROY_SPRITE),
      (''place_sprite '', 13, PLACE_SPRITE), (''placement_up '', 13, PLACEMENT_UP),
      (''placement_down '', 15, PLACEMENT_DOWN), (''placement_top '', 14, PLACEMENT_TOP),
      (''placement_bottom '', 17, PLACEMENT_BOTTOM), (''destroy_placement '', 18, DESTROY_PLACEMENT),
      (''set_animation_params '', 21, SET_ANIM_PARAM), (''generate '', 9, GENERATE),
      (''share_canvas '', 13, SHARE), (''barrier '', 8, BARRIER)]"

fun rpc_tests ::
  "allocator \<Rightarrow> addr \<Rightarrow> string \<Rightarrow> (string \<times> nat \<times> TaskType) list \<Rightarrow> cmd_state \<Rightarrow> (bool \<times> cmd_state) res" where
  "rpc_tests malloc client cmd [] S = Inr (False, S)"
| "rpc_tests malloc client cmd ((name, n, type) # rest) S =
     (if strncmp_eq cmd name n
      then submit malloc client type (drop n cmd) S (rpc_tests malloc client cmd rest)
      else rpc_tests malloc client cmd rest S)"

definition handle_command :: "allocator \<Rightarrow> addr \<Rightarrow> string \<Rightarrow> cmd_state \<Rightarrow> (bool \<times> cmd_state) res" where
  "handle_command malloc client cmd S =
     (if strncmp_eq cmd ''Login '' 6 then
        and_then (load (cr_mem (fst S)) client) (\<lambda>c.
          if logged_in c then Inr (False, S)
          else submit malloc client AUTHORISE (drop 6 cmd) S (\<lambda>S1. Inr (False, S1)))
      else if strncmp_eq cmd ''Disconnect'' 10 then Inr (True, S)
      else rpc_tests malloc client cmd rpc_table S)"

section \<open>What a line means\<close>

datatype command = Login string | Disconnect | Rpc TaskType string | Unknown

definition parse_command :: "string \<Rightarrow> command" where
  "parse_command cmd =
     (if prefix ''Login '' cmd then Login (drop 6 cmd)
      else if prefix ''Disconnect'' cmd then Disconnect
      else case List.find (\<lambda>(name, n, type). prefix name cmd) rpc_table of
          None \<Rightarrow> Unknown
        | Some (name, n, type) \<Rightarrow> Rpc type (drop (length name) cmd))"

lemma strncmp_eq_prefix: "length p = n \<Longrightarrow> strncmp_eq s p n = prefix p s"
  by (auto simp: strncmp_eq_def prefix_def) (metis append_take_drop_id)

lemma rpc_table_lengths: "\<forall>(name, n, type) \<in> set rpc_table. length name = n"
  by (simp add: rpc_table_def)

text \<open>No name of the table begins with another one, so at most one of the tests succeeds.\<close>

fun separate :: "string list \<Rightarrow> bool" where
  "separate [] = True"
| "separate (p # ps) = (list_all (\<lambda>q. \<not> strncmp_eq q p (length p) \<and> \<not> strncmp_eq p q (length q)) ps \<and> separate ps)"

lemma rpc_table_separate: "separate (map fst rpc_table)"
  by code_simp

lemma rpc_tests_none:
  "\<forall>(name, n, type) \<in> set t. length name = n \<and> \<not> prefix name cmd \<Longrightarrow>
   rpc_tests malloc client cmd t S = Inr (False, S)"
  by (induction t arbitrary: S) (auto simp: strncmp_eq_prefix)

lemma rpc_tests_find:
  "separate (map fst t) \<Longrightarrow> \<forall>(name, n, type) \<in> set t. length name = n \<Longrightarrow>
   rpc_tests malloc client cmd t S =
     (case List.find (\<lambda>(name, n, type). prefix name cmd) t of
        None \<Rightarrow> Inr (False, S)
      | Some (name, n, type) \<Rightarrow> submit malloc client type (drop n cmd) S (\<lambda>S1. Inr (False, S1)))"
proof (induction t)
  case (Cons x t)
  obtain name n type where x: "x = (name, n, type)" by (cases x)
  show ?case
  proof (cases "prefix name cmd")
    case True
    have "\<not> prefix name' cmd" if "(name', n', type') \<in> set t" for name' n' type'
    proof
      assume "prefix name' cmd"
      then have "prefix name name' \<or> prefix name' name" using True prefix_same_cases by blast
      moreover have "name' \<in> set (map fst t)" using that by force
      ultimately show False using Cons.prems(1) x by (auto simp: list_all_iff strncmp_eq_prefix)
    qed
    then have "rpc_tests malloc client cmd t = (\<lambda>S1. Inr (False, S1))"
      using Cons.prems(2) by (intro ext rpc_tests_none) auto
    with True x Cons.prems(2) show ?thesis by (simp add: strncmp_eq_prefix)
  next
    case False
    with Cons x show ?thesis by (simp add: strncmp_eq_prefix)
  qed
qed simp

lemma find_rpc_length:
  "List.find (\<lambda>(name, n, type). prefix name cmd) rpc_table = Some (name, n, type) \<Longrightarrow> length name = n"
  using rpc_table_lengths by (auto simp: find_Some_iff dest!: nth_mem)

text \<open>The handler as a case distinction on the meaning of the line.\<close>

lemma handle_command_cases:
  "handle_command malloc client cmd S = (case parse_command cmd of
     Login u \<Rightarrow> and_then (load (cr_mem (fst S)) client) (\<lambda>c. if logged_in c then Inr (False, S)
                  else submit malloc client AUTHORISE u S (\<lambda>S1. Inr (False, S1)))
   | Disconnect \<Rightarrow> Inr (True, S)
   | Rpc type args \<Rightarrow> submit malloc client type args S (\<lambda>S1. Inr (False, S1))
   | Unknown \<Rightarrow> Inr (False, S))"
  using rpc_tests_find [OF rpc_table_separate rpc_table_lengths, of malloc client cmd S] find_rpc_length [of cmd]
  by (simp add: handle_command_def parse_command_def strncmp_eq_prefix split: option.split prod.split)

section \<open>Properties\<close>

text \<open>The task a line asks for, of a client in the state \<open>c\<close>.\<close>

definition command_task :: "ActiveClient \<Rightarrow> string \<Rightarrow> (TaskType \<times> string) option" where
  "command_task c cmd = (case parse_command cmd of
     Login u \<Rightarrow> if logged_in c then None else Some (AUTHORISE, u)
   | Rpc type args \<Rightarrow> Some (type, args)
   | _ \<Rightarrow> None)"

definition acquired :: "addr \<Rightarrow> ActiveClient \<Rightarrow> ClientRegistry \<Rightarrow> ClientRegistry" where
  "acquired a c R = R\<lparr>cr_mem := (cr_mem R)(a \<mapsto> c\<lparr>refcount := refcount c + 1\<rparr>)\<rparr>"

lemma handle_command_task:
  assumes "cr_mem R a = Some c"
  shows "handle_command malloc a cmd (R, q, rv) = (case command_task c cmd of
     None \<Rightarrow> Inr (parse_command cmd = Disconnect, R, q, rv)
   | Some (type, args) \<Rightarrow> submit malloc a type args (R, q, rv) (\<lambda>S1. Inr (False, S1)))"
  using assms by (simp add: handle_command_cases command_task_def split: command.split)

lemma command_task_type: "command_task c cmd = Some (type, args) \<Longrightarrow> type \<noteq> HANDSHAKE"
proof -
  have "\<forall>(name, n, type) \<in> set rpc_table. type \<noteq> HANDSHAKE" by (simp add: rpc_table_def)
  then have "parse_command cmd = Rpc type args \<Longrightarrow> type \<noteq> HANDSHAKE"
    by (auto simp: parse_command_def find_Some_iff split: if_splits option.splits dest!: nth_mem)
  then show "command_task c cmd = Some (type, args) \<Longrightarrow> type \<noteq> HANDSHAKE"
    by (auto simp: command_task_def split: command.splits if_splits)
qed

lemma enqueue_rep:
  assumes "tq_inv q" and "malloc (tq_mem q) = Some b" and "malloc_ok (tq_mem q) b"
    and "type = HANDSHAKE \<or> request \<noteq> None"
  shows "\<exists>q'. enqueue malloc type pid request client (q, rv) = Inr (q', rv) \<and> tq_inv q'
    \<and> tq_list q' = tq_list q @ [enq_payload type pid request client]"
proof -
  from assms(1) have rep: "tq_rep q (tq_addrs q)" by (simp add: tq_inv_def)
  obtain q' where q': "task_enqueue (Some b) type pid request client q = Inr (SUCCESS, q')"
    "tq_rep q' (tq_addrs q @ [b])" "task_at q' b = enq_payload type pid request client"
    "\<forall>x. x \<noteq> b \<longrightarrow> task_at q' x = task_at q x"
    using task_enqueue_rep [OF rep assms(3,4), of pid client] by blast
  have "b \<notin> set (tq_addrs q)" using q'(2) by (simp add: tq_rep_def)
  then have "tq_list q' = tq_list q @ [enq_payload type pid request client]"
    using q'(3,4) tq_rep_addrs [OF q'(2)] by (auto simp: tq_list_def)
  then show ?thesis using q'(1,2) assms(2) by (auto simp: enqueue_def tq_inv_rep)
qed

lemma command_queued:
  assumes "cr_mem R a = Some c" and "\<not> dead c"
    and "tq_inv q" and "malloc (tq_mem q) = Some b" and "malloc_ok (tq_mem q) b"
  shows "case command_task c cmd of
      None \<Rightarrow> handle_command malloc a cmd (R, q, rv) = Inr (parse_command cmd = Disconnect, R, q, rv)
    | Some (type, args) \<Rightarrow>
        \<exists>q'. handle_command malloc a cmd (R, q, rv) = Inr (False, acquired a c R, q', rv) \<and> tq_inv q'
          \<and> tq_list q' = tq_list q @ [(type, ClientPtr (Some a), Request (take 127 args))]"
proof (cases "command_task c cmd")
  case None
  then show ?thesis using handle_command_task [OF assms(1), of malloc cmd q rv] by simp
next
  case (Some p)
  obtain type args where p: "p = (type, args)" by fastforce
  have t: "type \<noteq> HANDSHAKE" using command_task_type Some p by blast
  from enqueue_rep [where malloc = malloc, OF assms(3-5), of type "Some args" 0 "Some a" rv] obtain q' where
    "enqueue malloc type 0 (Some args) (Some a) (q, rv) = Inr (q', rv)" "tq_inv q'"
    "tq_list q' = tq_list q @ [enq_payload type 0 (Some args) (Some a)]" by auto
  then show ?thesis
    using handle_command_task [OF assms(1), of malloc cmd q rv] Some p t assms(1,2)
    by (auto simp: submit_def creg_acquire_client_def acquired_def enq_payload_def)
qed

text \<open>C5: for a live client, a line that names one of the sixteen calls, or a login of a client
  that is not logged in, queues exactly one task, of that type, for that client, with the arguments cut to 127
  characters, behind the tasks already queued, and takes exactly one reference; every other line changes nothing, and only
  "Disconnect" asks for the removal of the client.\<close>

theorem command_queues_one_task:
  assumes "cr_mem R a = Some c" and "\<not> dead c"
    and "tq_inv q" and "malloc (tq_mem q) = Some b" and "malloc_ok (tq_mem q) b"
  shows "case command_task c cmd of
      None \<Rightarrow> handle_command malloc a cmd (R, q, rv) = Inr (parse_command cmd = Disconnect, R, q, rv)
    | Some (type, args) \<Rightarrow>
        \<exists>q'. handle_command malloc a cmd (R, q, rv) = Inr (False, acquired a c R, q', rv) \<and> tq_inv q'
          \<and> tq_list q' = tq_list q @ [(type, ClientPtr (Some a), Request (take 127 args))]"
  using assms by (rule command_queued)

theorem command_queues_one_task_witness:
  "\<exists>q'. handle_command (\<lambda>m. Some 16) 1 ''place_sprite 0 1 2 3'' (two_clients, task_init, SUCCESS)
      = Inr (False, acquired 1 ((new_client 100 10 11 None)\<lparr>c_prev := Some 2\<rparr>) two_clients, q', SUCCESS)
    \<and> tq_list q' = [(PLACE_SPRITE, ClientPtr (Some 1), Request ''0 1 2 3'')]"
proof -
  let ?c = "(new_client 100 10 11 None)\<lparr>c_prev := Some 2\<rparr>"
  have "cr_mem two_clients 1 = Some ?c" "\<not> dead ?c" "malloc_ok (tq_mem task_init) 16"
    by (simp_all add: two_clients_def new_client_def malloc_ok_def valid_addr_def task_init_def)
  moreover have "parse_command ''place_sprite 0 1 2 3'' = Rpc PLACE_SPRITE ''0 1 2 3''"
    by (simp add: parse_command_def rpc_table_def)
  then have "command_task ?c ''place_sprite 0 1 2 3'' = Some (PLACE_SPRITE, ''0 1 2 3'')"
    by (simp add: command_task_def)
  ultimately show ?thesis
    using command_queues_one_task [of two_clients 1 ?c task_init "\<lambda>m. Some 16" 16 "''place_sprite 0 1 2 3''" SUCCESS]
      tq_inv_init
    by auto
qed

text \<open>C31: the sixteen independent tests of the source, each of which goes on to the next, are one case distinction on the meaning of the line: no
  name begins with another one, so at most one of them succeeds, and a line that starts with "Login " or "Disconnect" reaches none.\<close>

theorem handle_command_is_parse:
  "handle_command malloc client cmd S = (case parse_command cmd of
     Login u \<Rightarrow> and_then (load (cr_mem (fst S)) client) (\<lambda>c. if logged_in c then Inr (False, S)
                  else submit malloc client AUTHORISE u S (\<lambda>S1. Inr (False, S1)))
   | Disconnect \<Rightarrow> Inr (True, S)
   | Rpc type args \<Rightarrow> submit malloc client type args S (\<lambda>S1. Inr (False, S1))
   | Unknown \<Rightarrow> Inr (False, S))"
  by (rule handle_command_cases)

text \<open>a line from a client that is being removed queues nothing and takes no reference; if it asks for a task the
  handler returns 1, so that the client's slot goes away.\<close>

theorem dead_client_queues_nothing:
  assumes "cr_mem R a = Some c" and "dead c"
  shows "handle_command malloc a cmd (R, q, rv)
    = Inr (parse_command cmd = Disconnect \<or> command_task c cmd \<noteq> None, R, q, rv)"
  using handle_command_task [OF assms(1), of malloc cmd q rv] assms
  by (auto simp: submit_def creg_acquire_client_def command_task_def split: option.splits command.splits if_splits)

theorem dead_client_queues_nothing_witness:
  "handle_command (\<lambda>m. Some 16) 1 ''generate 0 f 0 1 25'' (held_client, task_init, SUCCESS)
    = Inr (True, held_client, task_init, SUCCESS)"
proof -
  let ?c = "(new_client 100 10 11 None)\<lparr>dead := True, refcount := 2\<rparr>"
  have "cr_mem held_client 1 = Some ?c" "dead ?c" by (simp_all add: held_client_def)
  from dead_client_queues_nothing [OF this, of "\<lambda>m. Some 16" "''generate 0 f 0 1 25''" task_init SUCCESS]
  show ?thesis by (simp add: command_task_def parse_command_def rpc_table_def)
qed

text \<open>when the task cannot be allocated, the handler ignores the error: nothing is queued, but the reference
  it has taken is not given back, so that the client will never be freed.\<close>

theorem failed_enqueue_leaks_reference:
  assumes "cr_mem R a = Some c" and "\<not> dead c" and "malloc (tq_mem q) = None"
    and "command_task c cmd \<noteq> None"
  shows "handle_command malloc a cmd (R, q, rv) = Inr (False, acquired a c R, q, TQ_FAIL)"
  using handle_command_task [OF assms(1), of malloc cmd q rv] assms
  by (auto simp: submit_def creg_acquire_client_def acquired_def enqueue_def task_enqueue_def)

theorem failed_enqueue_leaks_reference_witness:
  "handle_command (\<lambda>m. None) 1 ''generate 0 f 0 1 25'' (two_clients, task_init, SUCCESS)
    = Inr (False, acquired 1 ((new_client 100 10 11 None)\<lparr>c_prev := Some 2\<rparr>) two_clients, task_init, TQ_FAIL)"
proof (rule failed_enqueue_leaks_reference)
  show "command_task ((new_client 100 10 11 None)\<lparr>c_prev := Some 2\<rparr>) ''generate 0 f 0 1 25'' \<noteq> None"
    by (simp add: command_task_def parse_command_def rpc_table_def)
qed (simp_all add: two_clients_def new_client_def)

end
