(* ===== verification/Handlers.thy ===== *)
theory Handlers
  imports Auth PollSlots Pipe
begin

text \<open>
  \<open>server/src/threadpool.c\<close>: what a worker thread does with a task. One definition per case of the
  switch: the copy of the request into the local buffer, the tokens, the conversions, the
  lookups and the calls to the library, with the three numbers of the reply.
\<close>

section \<open>Arguments\<close>

text \<open>\<open>parse_int\<close> and \<open>parse_uint\<close>: the whole token has to be consumed.\<close>

definition parse_int :: "string \<Rightarrow> int option" where
  "parse_int s = (let (v, endp) = strtol s in if endp \<noteq> [] then None else Some v)"

definition parse_uint :: "string \<Rightarrow> int option" where
  "parse_uint s = (let (v, endp) = strtoul s in if endp \<noteq> [] then None else Some v)"

text \<open>\<open>strncpy(buf, request, n); buf[n - 1] = 0\<close>, and the tokens taken from the copy.\<close>

definition request_tokens :: "nat \<Rightarrow> nat \<Rightarrow> string \<Rightarrow> string option list" where
  "request_tokens n k request = strtoks k (strncpy0 request (n - 1))"

section \<open>The state of the workers and their replies\<close>

type_synonym ret3 = "int \<times> int \<times> int"
type_synonym 'l objects = "tables \<times> 'l"

definition ret1 :: "int \<Rightarrow> ret3" where "ret1 a = (a, INT_MIN, INT_MIN)"
definition ret2 :: "int \<Rightarrow> int \<Rightarrow> ret3" where "ret2 a b = (a, b, INT_MIN)"

section \<open>Canvases\<close>

definition do_create_canvas ::
  "'l animate \<Rightarrow> (nat \<Rightarrow> bool) \<Rightarrow> addr \<Rightarrow> string \<Rightarrow> 'l objects \<Rightarrow> (ret3 \<times> 'l objects) res" where
  "do_create_canvas lib alloc client request S = (case S of (tb, l) \<Rightarrow>
     case request_tokens MAX_RPC_BUF_LEN 3 request of
       [Some h_s, Some w_s, Some c_s] \<Rightarrow>
         (case (parse_uint h_s, parse_uint w_s, parse_int c_s) of
            (Some h, Some w, Some bg) \<Rightarrow>
              (case create_canvas lib h w bg l of
                 (None, l1) \<Rightarrow> Inr (ret1 (- 3), tb, l1)
               | (Some cv, l1) \<Rightarrow>
                   and_then (canvas_insert alloc (Some cv) client (int32 w) (int32 h) (CANVAS_TABLE tb)) (\<lambda>(n, T).
                     if n < 0 then Inr (ret1 (- 3), tb\<lparr>CANVAS_TABLE := T\<rparr>, destroy_canvas lib (Some cv) l1)
                     else Inr (ret2 0 n, tb\<lparr>CANVAS_TABLE := T\<rparr>, l1)))
          | _ \<Rightarrow> Inr (ret1 (- 2), S))
     | _ \<Rightarrow> Inr (ret1 (- 1), S))"

definition do_destroy_canvas ::
  "'l animate \<Rightarrow> string \<Rightarrow> 'l objects \<Rightarrow> (ret3 \<times> 'l objects) res" where
  "do_destroy_canvas lib request S = (case S of (tb, l) \<Rightarrow>
     case request_tokens MAX_RPC_BUF_LEN 1 request of
       [Some id_s] \<Rightarrow>
         (case parse_int id_s of
            None \<Rightarrow> Inr (ret1 (- 2), S)
          | Some n \<Rightarrow>
              (case canvas_lookup (int32 n) (CANVAS_TABLE tb) of
                 None \<Rightarrow> Inr (ret1 (- 1), S)
               | Some i \<Rightarrow> and_then (entry (CANVAS_TABLE tb) i) (\<lambda>ce.
                   if cv_ptr ce = None then Inr (ret1 (- 1), S)
                   else and_then (canvas_remove lib (int32 n) (CANVAS_TABLE tb, l)) (\<lambda>(T, l1).
                     Inr (ret1 0, tb\<lparr>CANVAS_TABLE := T\<rparr>, l1)))))
     | _ \<Rightarrow> Inr (ret1 (- 1), S))"

section \<open>Sprites\<close>

text \<open>What the three cases that create a sprite do once the library has answered.\<close>

definition store_sprite ::
  "'l animate \<Rightarrow> (nat \<Rightarrow> bool) \<Rightarrow> addr \<Rightarrow> tables \<Rightarrow> addr option \<times> 'l \<Rightarrow> (ret3 \<times> 'l objects) res" where
  "store_sprite lib alloc client tb created = (case created of
     (None, l1) \<Rightarrow> Inr (ret1 (- 3), tb, l1)
   | (Some sp, l1) \<Rightarrow>
       and_then (sprite_insert alloc (Some sp) client (SPRITE_TABLE tb)) (\<lambda>(n, T).
         if n < 0 then Inr (ret1 (- 3), tb\<lparr>SPRITE_TABLE := T\<rparr>, snd (destroy_sprite lib (Some sp) l1))
         else Inr (ret2 0 n, tb\<lparr>SPRITE_TABLE := T\<rparr>, l1)))"

definition do_create_sprite ::
  "'l animate \<Rightarrow> (nat \<Rightarrow> bool) \<Rightarrow> addr \<Rightarrow> string \<Rightarrow> 'l objects \<Rightarrow> (ret3 \<times> 'l objects) res" where
  "do_create_sprite lib alloc client request S = (case S of (tb, l) \<Rightarrow>
     case request_tokens MAX_RPC_BUF_LEN 1 request of
       [Some filename] \<Rightarrow> store_sprite lib alloc client tb (create_sprite lib filename l)
     | _ \<Rightarrow> Inr (ret1 (- 1), S))"

definition do_create_rectangle ::
  "'l animate \<Rightarrow> (nat \<Rightarrow> bool) \<Rightarrow> addr \<Rightarrow> string \<Rightarrow> 'l objects \<Rightarrow> (ret3 \<times> 'l objects) res" where
  "do_create_rectangle lib alloc client request S = (case S of (tb, l) \<Rightarrow>
     case request_tokens 128 4 request of
       [Some w_s, Some h_s, Some c_s, Some f_s] \<Rightarrow>
         (case (parse_uint w_s, parse_uint h_s, parse_int c_s, parse_int f_s) of
            (Some w, Some h, Some color, Some filled) \<Rightarrow>
              store_sprite lib alloc client tb (create_rectangle lib w h color (filled \<noteq> 0) l)
          | _ \<Rightarrow> Inr (ret1 (- 2), S))
     | _ \<Rightarrow> Inr (ret1 (- 1), S))"

definition do_create_circle ::
  "'l animate \<Rightarrow> (nat \<Rightarrow> bool) \<Rightarrow> addr \<Rightarrow> string \<Rightarrow> 'l objects \<Rightarrow> (ret3 \<times> 'l objects) res" where
  "do_create_circle lib alloc client request S = (case S of (tb, l) \<Rightarrow>
     case request_tokens 128 3 request of
       [Some r_s, Some c_s, Some f_s] \<Rightarrow>
         (case (parse_uint r_s, parse_int c_s, parse_int f_s) of
            (Some radius, Some color, Some filled) \<Rightarrow>
              store_sprite lib alloc client tb (create_circle lib radius color (filled \<noteq> 0) l)
          | _ \<Rightarrow> Inr (ret1 (- 2), S))
     | _ \<Rightarrow> Inr (ret1 (- 1), S))"

text \<open>The check \<open>!parse_int(id_s, &id) || id < 0 || id > INT_MAX\<close> of the cases that have it.\<close>

definition parse_id :: "string \<Rightarrow> int option" where
  "parse_id s = (case parse_int s of None \<Rightarrow> None | Some n \<Rightarrow> if n < 0 \<or> INT_MAX < n then None else Some n)"

definition do_destroy_sprite ::
  "'l animate \<Rightarrow> string \<Rightarrow> 'l objects \<Rightarrow> (ret3 \<times> 'l objects) res" where
  "do_destroy_sprite lib request S = (case S of (tb, l) \<Rightarrow>
     case request_tokens 64 1 request of
       [Some id_s] \<Rightarrow>
         (case parse_id id_s of
            None \<Rightarrow> Inr (ret1 (- 2), S)
          | Some n \<Rightarrow>
              (case sprite_lookup n (SPRITE_TABLE tb) of
                 None \<Rightarrow> Inr (ret1 (- 1), S)
               | Some i \<Rightarrow> and_then (entry (SPRITE_TABLE tb) i) (\<lambda>se.
                   if sp_ptr se = None then Inr (ret1 (- 1), S)
                   else and_then (sprite_remove lib n (SPRITE_TABLE tb, l)) (\<lambda>(ret, T, l1).
                     Inr (ret2 0 ret, tb\<lparr>SPRITE_TABLE := T\<rparr>, l1)))))
     | _ \<Rightarrow> Inr (ret1 (- 1), S))"

section \<open>Placements\<close>

definition do_place_sprite ::
  "'l animate \<Rightarrow> (nat \<Rightarrow> bool) \<Rightarrow> addr \<Rightarrow> string \<Rightarrow> 'l objects \<Rightarrow> (ret3 \<times> 'l objects) res" where
  "do_place_sprite lib alloc client request S = (case S of (tb, l) \<Rightarrow>
     case request_tokens 128 4 request of
       [Some c_s, Some s_s, Some x_s, Some y_s] \<Rightarrow>
         (case (parse_int c_s, parse_int s_s, parse_int x_s, parse_int y_s) of
            (Some cid, Some sid, Some x, Some y) \<Rightarrow>
              (case canvas_lookup (int32 cid) (CANVAS_TABLE tb) of
                 None \<Rightarrow> Inr (ret1 (- 2), S)
               | Some ci \<Rightarrow> and_then (entry (CANVAS_TABLE tb) ci) (\<lambda>ce.
                   case cv_ptr ce of
                     None \<Rightarrow> Inr (ret1 (- 2), S)
                   | Some cv \<Rightarrow>
                       (case sprite_lookup (int32 sid) (SPRITE_TABLE tb) of
                          None \<Rightarrow> Inr (ret1 (- 2), S)
                        | Some si \<Rightarrow> and_then (entry (SPRITE_TABLE tb) si) (\<lambda>se.
                            case sp_ptr se of
                              None \<Rightarrow> Inr (ret1 (- 2), S)
                            | Some sp \<Rightarrow>
                                (case place_sprite lib cv sp x y l of
                                   (None, l1) \<Rightarrow> Inr (ret1 (- 3), tb, l1)
                                 | (Some pl, l1) \<Rightarrow>
                                     and_then (placement_insert alloc (Some pl) client ci (PLACEMENT_TABLE tb)) (\<lambda>(n, T).
                                       if n < 0 then Inr (ret1 (- 3), tb\<lparr>PLACEMENT_TABLE := T\<rparr>, destroy_placement lib (Some pl) l1)
                                       else Inr (ret2 0 n, tb\<lparr>PLACEMENT_TABLE := T\<rparr>, l1)))))))
          | _ \<Rightarrow> Inr (ret1 (- 2), S))
     | _ \<Rightarrow> Inr (ret1 (- 1), S))"

text \<open>The four moves differ in the function of the library they call, and destroying a placement has the
  same checks.\<close>

definition with_placement ::
  "string \<Rightarrow> 'l objects \<Rightarrow> (int \<Rightarrow> addr \<Rightarrow> (ret3 \<times> 'l objects) res) \<Rightarrow> (ret3 \<times> 'l objects) res" where
  "with_placement request S k = (case S of (tb, l) \<Rightarrow>
     case request_tokens 64 1 request of
       [Some id_s] \<Rightarrow>
         (case parse_id id_s of
            None \<Rightarrow> Inr (ret1 (- 2), S)
          | Some n \<Rightarrow>
              (case placement_lookup n (PLACEMENT_TABLE tb) of
                 None \<Rightarrow> Inr (ret1 (- 2), S)
               | Some i \<Rightarrow> and_then (entry (PLACEMENT_TABLE tb) i) (\<lambda>pe.
                   case pl_ptr pe of None \<Rightarrow> Inr (ret1 (- 2), S) | Some p \<Rightarrow> k n p)))
     | _ \<Rightarrow> Inr (ret1 (- 1), S))"

definition do_placement_move ::
  "(addr \<Rightarrow> 'l \<Rightarrow> 'l) \<Rightarrow> string \<Rightarrow> 'l objects \<Rightarrow> (ret3 \<times> 'l objects) res" where
  "do_placement_move move request S =
     with_placement request S (\<lambda>n p. Inr (ret1 0, fst S, move p (snd S)))"

definition do_placement_up :: "'l animate \<Rightarrow> string \<Rightarrow> 'l objects \<Rightarrow> (ret3 \<times> 'l objects) res" where
  "do_placement_up lib = do_placement_move (placement_up lib)"

definition do_placement_down :: "'l animate \<Rightarrow> string \<Rightarrow> 'l objects \<Rightarrow> (ret3 \<times> 'l objects) res" where
  "do_placement_down lib = do_placement_move (placement_down lib)"

definition do_placement_top :: "'l animate \<Rightarrow> string \<Rightarrow> 'l objects \<Rightarrow> (ret3 \<times> 'l objects) res" where
  "do_placement_top lib = do_placement_move (placement_top lib)"

definition do_placement_bottom :: "'l animate \<Rightarrow> string \<Rightarrow> 'l objects \<Rightarrow> (ret3 \<times> 'l objects) res" where
  "do_placement_bottom lib = do_placement_move (placement_bottom lib)"

definition do_destroy_placement :: "'l animate \<Rightarrow> string \<Rightarrow> 'l objects \<Rightarrow> (ret3 \<times> 'l objects) res" where
  "do_destroy_placement lib request S =
     with_placement request S (\<lambda>n p.
       and_then (placement_remove lib n (PLACEMENT_TABLE (fst S), snd S)) (\<lambda>(T, l1).
         Inr (ret1 0, (fst S)\<lparr>PLACEMENT_TABLE := T\<rparr>, l1)))"

definition do_set_anim_param :: "'l animate \<Rightarrow> string \<Rightarrow> 'l objects \<Rightarrow> (ret3 \<times> 'l objects) res" where
  "do_set_anim_param lib request S = (case S of (tb, l) \<Rightarrow>
     case request_tokens 128 5 request of
       [Some id_s, Some vx_s, Some vy_s, Some ax_s, Some ay_s] \<Rightarrow>
         (case (parse_int id_s, parse_int vx_s, parse_int vy_s, parse_int ax_s, parse_int ay_s) of
            (Some n, Some vx, Some vy, Some ax, Some ay) \<Rightarrow>
              (case placement_lookup (int32 n) (PLACEMENT_TABLE tb) of
                 None \<Rightarrow> Inr (ret1 (- 2), S)
               | Some i \<Rightarrow> and_then (entry (PLACEMENT_TABLE tb) i) (\<lambda>pe.
                   case pl_ptr pe of
                     None \<Rightarrow> Inr (ret1 (- 2), S)
                   | Some p \<Rightarrow> Inr (ret1 0, tb, set_animation_params lib p vx vy ax ay l)))
          | _ \<Rightarrow> Inr (ret1 (- 2), S))
     | _ \<Rightarrow> Inr (ret1 (- 1), S))"

section \<open>Sharing\<close>

definition do_share :: "ClientRegistry \<Rightarrow> string \<Rightarrow> 'l objects \<Rightarrow> (ret3 \<times> 'l objects) res" where
  "do_share R request S = (case S of (tb, l) \<Rightarrow>
     case request_tokens MAX_RPC_BUF_LEN 2 request of
       [Some cid_s, Some user] \<Rightarrow>
         (case parse_id cid_s of
            None \<Rightarrow> Inr (ret1 (- 2), S)
          | Some cid \<Rightarrow>
              (case canvas_lookup cid (CANVAS_TABLE tb) of
                 None \<Rightarrow> Inr (ret1 (- 2), S)
               | Some i \<Rightarrow> and_then (entry (CANVAS_TABLE tb) i) (\<lambda>ce.
                   if cv_ptr ce = None then Inr (ret1 (- 2), S)
                   else and_then (find_user user R) (\<lambda>target.
                     case target of
                       None \<Rightarrow> Inr (ret1 (- 2), S)
                     | Some t \<Rightarrow>
                         if MAX_CLIENTS \<le> shared_count ce then Inr (ret1 (- 3), S)
                         else and_then (poke (cv_shared ce) (shared_count ce) (Some t)) (\<lambda>sh.
                           and_then (set_entry (CANVAS_TABLE tb) i
                                       (ce\<lparr>cv_shared := sh, shared_count := shared_count ce + 1\<rparr>)) (\<lambda>T.
                             Inr (ret1 0, tb\<lparr>CANVAS_TABLE := T\<rparr>, l)))))))
     | _ \<Rightarrow> Inr (ret1 (- 1), S))"

section \<open>Generating a movie\<close>

definition MAX_FILENAME_LEN :: nat where "MAX_FILENAME_LEN = 128"
definition MAX_PATH_LEN :: nat where "MAX_PATH_LEN = 256"
definition COMMAND_LEN :: nat where "COMMAND_LEN = 1024"

text \<open>
  The answers of the operating system: \<open>open\<close>, \<open>malloc\<close>, the value of each \<open>write\<close> by the number of the frame,
  \<open>close\<close>, and the exit status of a shell command.
\<close>

record gen_env =
  g_open :: bool
  g_malloc :: bool
  g_write :: "int \<Rightarrow> int"
  g_close :: bool
  g_system :: "string \<Rightarrow> int"

text \<open>
  The loop over the frames: the frames written, whether all of them were, and the library's state. \<open>i++\<close> past the
  largest \<open>int\<close> is undefined.
\<close>

function gen_loop ::
  "'l animate \<Rightarrow> gen_env \<Rightarrow> addr \<Rightarrow> nat \<Rightarrow> int \<Rightarrow> int \<Rightarrow> int \<Rightarrow> 'l \<Rightarrow> (string list \<times> bool \<times> 'l) res" where
  "gen_loop lib env cv frame_sz rate i end l =
     (if end < i then Inr ([], True, l)
      else
        let (frame, l1) = generate_frame lib cv (nat i) (nat rate) l
        in if g_write env i \<noteq> int frame_sz then Inr ([], False, l1)
           else if i = INT_MAX then Inl SignedOverflow
           else and_then (gen_loop lib env cv frame_sz rate (i + 1) end l1) (\<lambda>(frames, done, l2).
                  Inr (frame # frames, done, l2)))"
  by pat_completeness auto
termination
  by (relation "measure (\<lambda>(lib, env, cv, frame_sz, rate, i, end, l). nat (end - i + 1))") auto

declare gen_loop.simps [simp del]

definition ffmpeg_command :: "int \<Rightarrow> int \<Rightarrow> int \<Rightarrow> string \<Rightarrow> string \<Rightarrow> string \<Rightarrow> string" where
  "ffmpeg_command width height rate dat mp4 log =
     snprintf COMMAND_LEN
       (''ffmpeg -y -f rawvideo -pixel_format rgba '' @ ''-video_size '' @ show_int width @ ''x'' @ show_int height
        @ '' -framerate '' @ show_int rate @ '' '' @ ''-i '' @ dat @ '' '' @ mp4 @ '' > '' @ log @ '' 2>&1'')"

text \<open>\<open>sscanf(args, "%d %127s %d %d %d", ...)\<close>, when it assigns all five.\<close>

definition scan_generate :: "string \<Rightarrow> (int \<times> string \<times> int \<times> int \<times> int) option" where
  "scan_generate args =
     (case scan_d args of
        None \<Rightarrow> None
      | Some (cid, r1) \<Rightarrow>
          (case scan_s (MAX_FILENAME_LEN - 1) r1 of
             None \<Rightarrow> None
           | Some (filename, r2) \<Rightarrow>
               (case sscanf_d 3 r2 of
                  [start, end, rate] \<Rightarrow> Some (cid, filename, start, end, rate)
                | _ \<Rightarrow> None)))"

text \<open>The trace has the file that is opened, each frame written to it, and the command that is run.\<close>

definition do_generate ::
  "'l animate \<Rightarrow> gen_env \<Rightarrow> string \<Rightarrow> 'l objects \<Rightarrow> (ret3 \<times> os_event list \<times> 'l objects) res" where
  "do_generate lib env args S = (case S of (tb, l) \<Rightarrow>
     case scan_generate args of
       None \<Rightarrow> Inr (ret1 (- 2), [], S)
     | Some (cid, filename, start, end, rate) \<Rightarrow>
         if start < 0 \<or> end < start \<or> rate \<le> 0 then Inr (ret1 (- 2), [], S)
         else
           (case canvas_lookup cid (CANVAS_TABLE tb) of
              None \<Rightarrow> Inr (ret1 (- 2), [], S)
            | Some ci \<Rightarrow> and_then (entry (CANVAS_TABLE tb) ci) (\<lambda>ce.
                case cv_ptr ce of
                  None \<Rightarrow> Inr (ret1 (- 2), [], S)
                | Some cv \<Rightarrow>
                    let dat = snprintf MAX_PATH_LEN (filename @ ''.dat'')
                    in if \<not> g_open env then Inr (ret2 0 (- 1), [OpenWr dat], S)
                       else if frame_size_bytes lib cv l = 0 then Inr (ret1 (- 3), [OpenWr dat], S)
                       else if \<not> g_malloc env then Inr (ret1 (- 3), [OpenWr dat], S)
                       else and_then (gen_loop lib env cv (frame_size_bytes lib cv l) rate start end l)
                         (\<lambda>(frames, done, l1).
                           let evs = OpenWr dat # map WriteFile frames
                           in if \<not> done then Inr (ret2 0 (- 1), evs, tb, l1)
                              else if \<not> g_close env then Inr (ret2 0 (- 1), evs, tb, l1)
                              else
                                let mp4 = snprintf MAX_PATH_LEN (filename @ ''.mp4'');
                                    log = snprintf MAX_PATH_LEN (filename @ ''.log'');
                                    cmd = ffmpeg_command (cv_width ce) (cv_height ce) rate dat mp4 log
                                in if g_system env cmd \<noteq> 0 then Inr ((0, 0, - 1), evs @ [System cmd], tb, l1)
                                   else Inr ((0, 0, 0), evs @ [System cmd], tb, l1)))))"

text \<open>The default of this case is \<open>a = INT_MIN\<close>, which every path overwrites.\<close>

section \<open>Authorisation\<close>

definition do_authorise :: "string option \<Rightarrow> char list \<Rightarrow> addr \<Rightarrow> string \<Rightarrow> TaskResult res" where
  "do_authorise db junk client name =
     and_then (usertxt_get_balance db junk name) (\<lambda>(type, balance).
       case (type, balance) of
         (AUTH_OK, Some b) \<Rightarrow> Inr (ResAuthOk client (strncpy0 name (MAX_USERNAME_LEN - 1)) b)
       | (AUTH_NO, _) \<Rightarrow> Inr (ResAuthNo client)
       | (AUTH_UN, _) \<Rightarrow> Inr (ResAuthUn client)
       | _ \<Rightarrow> Inl Uninitialised)"

section \<open>The handshake\<close>

definition MAX_OPEN_RETRIES :: nat where "MAX_OPEN_RETRIES = 10"

text \<open>The answers of \<open>mkfifo\<close> twice, \<open>kill\<close>, \<open>open\<close> for reading, and each \<open>open\<close> for writing by its number.\<close>

record hsk_env =
  h_mkfifo_c2s :: bool
  h_mkfifo_s2c :: bool
  h_kill :: bool
  h_open_r :: "int option"
  h_open_w :: "nat \<Rightarrow> errno + int"

function open_retry :: "hsk_env \<Rightarrow> string \<Rightarrow> nat \<Rightarrow> os_event list \<times> int option" where
  "open_retry env s2c attempts =
     (if attempts < MAX_OPEN_RETRIES then
        (case h_open_w env (Suc attempts) of
           Inr fd \<Rightarrow> ([OpenWr s2c], Some fd)
         | Inl e \<Rightarrow> if e = ENXIO
             then let (evs, r) = open_retry env s2c (Suc attempts) in (OpenWr s2c # Sleep # evs, r)
             else ([OpenWr s2c], None))
      else ([], None))"
  by pat_completeness auto
termination
  by (relation "measure (\<lambda>(env, s2c, attempts). MAX_OPEN_RETRIES - attempts)") auto

declare open_retry.simps [simp del]

definition open_write_end :: "hsk_env \<Rightarrow> string \<Rightarrow> os_event list \<times> int option" where
  "open_write_end env s2c =
     (case h_open_w env 0 of
        Inr fd \<Rightarrow> ([OpenWr s2c], Some fd)
      | Inl e \<Rightarrow> if e = ENXIO then let (evs, r) = open_retry env s2c 0 in (OpenWr s2c # evs, r)
                  else ([OpenWr s2c], None))"

definition do_handshake :: "hsk_env \<Rightarrow> int \<Rightarrow> string \<Rightarrow> string \<Rightarrow> TaskResult option \<times> os_event list" where
  "do_handshake env pid c2s s2c =
     (let fail = [Unlink c2s, Unlink s2c];
          evs1 = [Unlink c2s, Unlink s2c, Mkfifo c2s] @ (if h_mkfifo_c2s env then [Mkfifo s2c] else [])
      in if \<not> h_mkfifo_c2s env \<or> \<not> h_mkfifo_s2c env then (None, evs1 @ fail)
         else if \<not> h_kill env then (None, evs1 @ [Kill pid] @ fail)
         else
           let evs2 = evs1 @ [Kill pid, OpenRd c2s]
           in case h_open_r env of
                None \<Rightarrow> (None, evs2 @ fail)
              | Some r \<Rightarrow>
                  let (evs3, w) = open_write_end env s2c
                  in case w of
                       None \<Rightarrow> (None, evs2 @ evs3 @ [Close r] @ fail)
                     | Some wfd \<Rightarrow> (Some (ResHsk pid r wfd), evs2 @ evs3))"

section \<open>One turn of a worker\<close>

record 'l worker_env =
  we_lib :: "'l animate"
  we_alloc :: "nat \<Rightarrow> bool"
  we_db :: "string option"
  we_junk :: "char list"
  we_gen :: gen_env
  we_hsk :: hsk_env

text \<open>The tasks whose reply is three numbers.\<close>

definition do_rpc ::
  "'l worker_env \<Rightarrow> TaskType \<Rightarrow> ClientRegistry \<Rightarrow> addr \<Rightarrow> string \<Rightarrow> 'l objects
   \<Rightarrow> (ret3 \<times> os_event list \<times> 'l objects) res" where
  "do_rpc env type R client request S =
     (let lib = we_lib env; alloc = we_alloc env;
          quiet = (\<lambda>m. and_then m (\<lambda>(r, S1). Inr (r, [], S1)))
      in case type of
        CREATE_CANVAS \<Rightarrow> quiet (do_create_canvas lib alloc client request S)
      | DESTROY_CANVAS \<Rightarrow> quiet (do_destroy_canvas lib request S)
      | CREATE_SPRITE \<Rightarrow> quiet (do_create_sprite lib alloc client request S)
      | CREATE_RECTANGLE \<Rightarrow> quiet (do_create_rectangle lib alloc client request S)
      | CREATE_CIRCLE \<Rightarrow> quiet (do_create_circle lib alloc client request S)
      | DESTROY_SPRITE \<Rightarrow> quiet (do_destroy_sprite lib request S)
      | PLACE_SPRITE \<Rightarrow> quiet (do_place_sprite lib alloc client request S)
      | PLACEMENT_UP \<Rightarrow> quiet (do_placement_up lib request S)
      | PLACEMENT_DOWN \<Rightarrow> quiet (do_placement_down lib request S)
      | PLACEMENT_TOP \<Rightarrow> quiet (do_placement_top lib request S)
      | PLACEMENT_BOTTOM \<Rightarrow> quiet (do_placement_bottom lib request S)
      | DESTROY_PLACEMENT \<Rightarrow> quiet (do_destroy_placement lib request S)
      | SET_ANIM_PARAM \<Rightarrow> quiet (do_set_anim_param lib request S)
      | GENERATE \<Rightarrow> do_generate lib (we_gen env) request S
      | SHARE \<Rightarrow> quiet (do_share R request S)
      | _ \<Rightarrow> Inl Uninitialised)"

text \<open>
  The switch of \<open>worker_routine\<close>: the result that is written to the pipe, if any. A \<open>BARRIER\<close> falls through
  to the default case and writes none.
\<close>

definition run_task ::
  "'l worker_env \<Rightarrow> payload \<Rightarrow> ClientRegistry \<Rightarrow> 'l objects \<Rightarrow> (TaskResult option \<times> os_event list \<times> 'l objects) res" where
  "run_task env t R S = (case t of
     (HANDSHAKE, RawPid pid, FifoNames c2s s2c) \<Rightarrow>
       (case do_handshake (we_hsk env) pid c2s s2c of (r, evs) \<Rightarrow> Inr (r, evs, S))
   | (AUTHORISE, ClientPtr (Some a), Request name) \<Rightarrow>
       and_then (do_authorise (we_db env) (we_junk env) a name) (\<lambda>r. Inr (Some r, [], S))
   | (BARRIER, _, _) \<Rightarrow> Inr (None, [], S)
   | (type, ClientPtr (Some a), Request req) \<Rightarrow>
       and_then (do_rpc env type R a req S) (\<lambda>((x, y, z), evs, S1). Inr (Some (ResRpc a x y z), evs, S1))
   | _ \<Rightarrow> Inl Uninitialised)"

datatype 'r turn = Blocked | Idle | Done 'r

definition worker_turn ::
  "'l worker_env \<Rightarrow> bool \<Rightarrow> ClientRegistry \<Rightarrow> TaskQueue \<times> 'l objects
   \<Rightarrow> ((TaskResult option \<times> os_event list) turn \<times> TaskQueue \<times> 'l objects) res" where
  "worker_turn env running R St = (case St of (q, S) \<Rightarrow>
     and_then (task_dequeue running q) (\<lambda>(d, q1).
       case d of
         Waits \<Rightarrow> Inr (Blocked, q1, S)
       | NoTask \<Rightarrow> Inr (Idle, q1, S)
       | Got a \<Rightarrow>
           and_then (load (tq_mem q1) a) (\<lambda>t.
           and_then (run_task env (payload t) R S) (\<lambda>(r, evs, S1).
           and_then (task_free a q1) (\<lambda>q2. Inr (Done (r, evs), q2, S1))))))"

section \<open>No handler faults\<close>

text \<open>The tables the handlers rely on: well-formed, and every canvas with its full array of shares.\<close>

definition canvas_ok :: "CanvasEntry \<Rightarrow> bool" where
  "canvas_ok e \<longleftrightarrow> length (cv_shared e) = MAX_CLIENTS \<and> shared_count e \<le> MAX_CLIENTS"

definition tables_ok :: "tables \<Rightarrow> bool" where
  "tables_ok tb \<longleftrightarrow> tables_wf tb \<and> (\<forall>e \<in> set (items (CANVAS_TABLE tb)). canvas_ok e)"

text \<open>
  A reply without a fault. The tables stay as they have to be, except that an insertion that
  runs out of memory (-3) may have lost the array of its table; if \<open>G\<close> holds, no table that is full fails to grow.
\<close>

definition growable :: "(nat \<Rightarrow> bool) \<Rightarrow> 'e table \<Rightarrow> int \<Rightarrow> bool" where
  "growable alloc T esize \<longleftrightarrow> (tcount T = capacity T \<longrightarrow> grow_array alloc (arr T) esize (capacity T) \<noteq> None)"

definition tables_growable :: "(nat \<Rightarrow> bool) \<Rightarrow> tables \<Rightarrow> bool" where
  "tables_growable alloc tb \<longleftrightarrow> growable alloc (CANVAS_TABLE tb) sizeof_CanvasEntry
     \<and> growable alloc (SPRITE_TABLE tb) sizeof_SpriteEntry \<and> growable alloc (PLACEMENT_TABLE tb) sizeof_PlacementEntry"

definition safe :: "bool \<Rightarrow> (ret3 \<times> 'l objects) res \<Rightarrow> bool" where
  "safe G m \<longleftrightarrow> (\<exists>a b c tb l. m = Inr ((a, b, c), tb, l) \<and> (tables_ok tb \<or> a = - 3 \<and> \<not> G))"

named_theorems safe_intros

lemma tables_okD:
  assumes "tables_ok tb"
  shows "table_wf sizeof_CanvasEntry (CANVAS_TABLE tb)" "table_wf sizeof_SpriteEntry (SPRITE_TABLE tb)"
    "table_wf sizeof_PlacementEntry (PLACEMENT_TABLE tb)" "e \<in> set (items (CANVAS_TABLE tb)) \<Longrightarrow> canvas_ok e"
  using assms by (auto simp: tables_ok_def tables_wf_def)

lemma safe_same [simp, safe_intros]: "tables_ok tb \<Longrightarrow> safe G (Inr ((a, b, c), tb, l))"
  by (auto simp: safe_def)

lemma safe_ret [simp]: "tables_ok tb \<Longrightarrow> safe G (Inr (ret1 a, tb, l))" "tables_ok tb \<Longrightarrow> safe G (Inr (ret2 a b, tb, l))"
  "\<not> G \<Longrightarrow> safe G (Inr (ret1 (- 3), tb, l))"
  by (auto simp: safe_def ret1_def ret2_def)

lemma tables_ok_update:
  "tables_ok tb \<Longrightarrow> table_wf sizeof_CanvasEntry T \<Longrightarrow> \<forall>e \<in> set (items T). canvas_ok e \<Longrightarrow> tables_ok (tb\<lparr>CANVAS_TABLE := T\<rparr>)"
  "tables_ok tb \<Longrightarrow> table_wf sizeof_SpriteEntry U \<Longrightarrow> tables_ok (tb\<lparr>SPRITE_TABLE := U\<rparr>)"
  "tables_ok tb \<Longrightarrow> table_wf sizeof_PlacementEntry V \<Longrightarrow> tables_ok (tb\<lparr>PLACEMENT_TABLE := V\<rparr>)"
  by (auto simp: tables_ok_def tables_wf_def)

lemma new_canvas_ok: "canvas_ok (new_canvas p a w h n)"
  by (simp add: canvas_ok_def new_canvas_def)

text \<open>The outcome of the three insertions: appended, or out of memory.\<close>

lemma table_insert_outcome:
  assumes "table_wf es T" "2 \<le> es" "es \<le> 1000"
  obtains (appended) T' where "table_insert alloc es mk T = Inr (int (length (items T)), T')"
      "table_wf es T'" "items T' = items T @ [mk (int (length (items T)))]"
    | (failed) T' where "table_insert alloc es mk T = Inr (- 1, T')" "\<not> growable alloc T es"
proof -
  have n: "tcount T = int (length (items T))" using length_items [OF assms(1)] table_wfD(1) [OF assms(1)] by simp
  from table_insert_cases [OF assms, of alloc mk] show ?thesis
  proof
    assume "\<exists>T'. table_insert alloc es mk T = Inr (tcount T, T') \<and> table_wf es T'
        \<and> items T' = items T @ [mk (tcount T)] \<and> tcount T' = tcount T + 1"
    then show thesis using appended n by auto
  next
    assume "table_insert alloc es mk T = Inr (- 1, T\<lparr>arr := None\<rparr>) \<and> tcount T = capacity T
        \<and> grow_array alloc (arr T) es (capacity T) = None"
    then show thesis using failed by (auto simp: growable_def)
  qed
qed

lemma sizeof_bounds: "2 \<le> sizeof_CanvasEntry" "sizeof_CanvasEntry \<le> 1000" "2 \<le> sizeof_SpriteEntry" "sizeof_SpriteEntry \<le> 1000" "2 \<le> sizeof_PlacementEntry"
  "sizeof_PlacementEntry \<le> 1000"
  by (simp_all add: sizeof_CanvasEntry_def sizeof_SpriteEntry_def sizeof_PlacementEntry_def)

lemma safe_create_canvas: "tables_ok tb \<Longrightarrow> (G \<Longrightarrow> tables_growable alloc tb) \<Longrightarrow> safe G (do_create_canvas lib alloc a req (tb, l))"
proof -
  assume ok: "tables_ok tb" and g: "G \<Longrightarrow> tables_growable alloc tb"
  note wf = tables_okD [OF ok]
  have "safe G (and_then (canvas_insert alloc (Some cv) a w h (CANVAS_TABLE tb)) (\<lambda>(n, T).
      if n < 0 then Inr (ret1 (- 3), tb\<lparr>CANVAS_TABLE := T\<rparr>, destroy_canvas lib (Some cv) l1)
      else Inr (ret2 0 n, tb\<lparr>CANVAS_TABLE := T\<rparr>, l1)))" for cv w h l1
    unfolding canvas_insert_def
    by (rule table_insert_outcome [OF wf(1) sizeof_bounds(1,2), of alloc "new_canvas (Some cv) a w h"])
       (use g in \<open>auto simp: new_canvas_ok wf(4) tables_growable_def intro!: safe_ret tables_ok_update ok\<close>)
  then show ?thesis using ok
    by (auto simp: do_create_canvas_def split: list.split option.split prod.split)
qed

lemma safe_store_sprite: "tables_ok tb \<Longrightarrow> (G \<Longrightarrow> tables_growable alloc tb) \<Longrightarrow> safe G (store_sprite lib alloc a tb created)"
proof -
  assume ok: "tables_ok tb" and g: "G \<Longrightarrow> tables_growable alloc tb"
  note wf = tables_okD [OF ok]
  have "safe G (and_then (sprite_insert alloc (Some sp) a (SPRITE_TABLE tb)) (\<lambda>(n, T).
      if n < 0 then Inr (ret1 (- 3), tb\<lparr>SPRITE_TABLE := T\<rparr>, snd (destroy_sprite lib (Some sp) l1))
      else Inr (ret2 0 n, tb\<lparr>SPRITE_TABLE := T\<rparr>, l1)))" for sp l1
    unfolding sprite_insert_def
    by (rule table_insert_outcome [OF wf(2) sizeof_bounds(3,4), of alloc
          "\<lambda>id. \<lparr>sp_ptr = Some sp, sprite_id = id, sp_owner = Some a\<rparr>"])
       (use g in \<open>auto simp: tables_growable_def intro!: safe_ret tables_ok_update ok\<close>)
  then show ?thesis using ok by (auto simp: store_sprite_def split: option.split prod.split)
qed

lemma safe_create_sprites:
  "tables_ok tb \<Longrightarrow> (G \<Longrightarrow> tables_growable alloc tb) \<Longrightarrow> safe G (do_create_sprite lib alloc a req (tb, l))"
  "tables_ok tb \<Longrightarrow> (G \<Longrightarrow> tables_growable alloc tb) \<Longrightarrow> safe G (do_create_rectangle lib alloc a req (tb, l))"
  "tables_ok tb \<Longrightarrow> (G \<Longrightarrow> tables_growable alloc tb) \<Longrightarrow> safe G (do_create_circle lib alloc a req (tb, l))"
  by (auto simp: do_create_sprite_def do_create_rectangle_def do_create_circle_def safe_store_sprite
      split: list.split option.split prod.split)

lemma set_update_subset: "i < length xs \<Longrightarrow> \<forall>e \<in> set xs. P e \<Longrightarrow> P x \<Longrightarrow> \<forall>e \<in> set (xs[i := x]). P e"
  using set_update_subset_insert [of xs i x] by auto

lemma safe_destroy_canvas: "tables_ok tb \<Longrightarrow> safe G (do_destroy_canvas lib req (tb, l))"
proof -
  assume ok: "tables_ok tb"
  note wf = tables_okD [OF ok]
  have "safe G (and_then (entry (CANVAS_TABLE tb) i) (\<lambda>ce.
      if cv_ptr ce = None then Inr (ret1 (- 1), tb, l)
      else and_then (canvas_remove lib n (CANVAS_TABLE tb, l)) (\<lambda>(T, l1). Inr (ret1 0, tb\<lparr>CANVAS_TABLE := T\<rparr>, l1))))"
    if look: "canvas_lookup n (CANVAS_TABLE tb) = Some i" for n i
  proof -
    note i = canvas.lookup_Some [OF wf(1) look]
    have e: "canvas_ok ((items (CANVAS_TABLE tb) ! i)\<lparr>cv_ptr := None\<rparr>)"
      using wf(4) [of "items (CANVAS_TABLE tb) ! i"] i by (simp add: canvas_ok_def)
    obtain T' l' where r: "canvas_remove lib n (CANVAS_TABLE tb, l) = Inr (T', l')"
      and T': "table_wf sizeof_CanvasEntry T'"
        "items T' = (items (CANVAS_TABLE tb))[i := (items (CANVAS_TABLE tb) ! i)\<lparr>cv_ptr := None\<rparr>]"
      using canvas_remove_wf [OF wf(1) look, of lib l] by blast
    have "\<forall>e \<in> set (items T'). canvas_ok e"
      unfolding T'(2) by (rule set_update_subset) (use i e wf(4) in auto)
    then have "tables_ok (tb\<lparr>CANVAS_TABLE := T'\<rparr>)" using ok T'(1) by (intro tables_ok_update)
    then show ?thesis using i r ok by simp
  qed
  then show ?thesis using ok by (auto simp: do_destroy_canvas_def split: list.split option.split)
qed

lemma safe_destroy_sprite: "tables_ok tb \<Longrightarrow> safe G (do_destroy_sprite lib req (tb, l))"
proof -
  assume ok: "tables_ok tb"
  note wf = tables_okD [OF ok]
  have "safe G (and_then (entry (SPRITE_TABLE tb) i) (\<lambda>se.
      if sp_ptr se = None then Inr (ret1 (- 1), tb, l)
      else and_then (sprite_remove lib n (SPRITE_TABLE tb, l)) (\<lambda>(ret, T, l1).
        Inr (ret2 0 ret, tb\<lparr>SPRITE_TABLE := T\<rparr>, l1))))"
    if "sprite_lookup n (SPRITE_TABLE tb) = Some i" for n i
    using sprite.lookup_Some [OF wf(2) that] sprite_remove_wf [OF wf(2) that, of lib l] ok
    by (auto intro!: safe_ret tables_ok_update)
  then show ?thesis using ok by (auto simp: do_destroy_sprite_def split: list.split option.split)
qed

lemma safe_place_sprite: "tables_ok tb \<Longrightarrow> (G \<Longrightarrow> tables_growable alloc tb) \<Longrightarrow> safe G (do_place_sprite lib alloc a req (tb, l))"
proof -
  assume ok: "tables_ok tb" and g: "G \<Longrightarrow> tables_growable alloc tb"
  note wf = tables_okD [OF ok]
  have ins: "safe G (and_then (placement_insert alloc (Some pl) a ci (PLACEMENT_TABLE tb)) (\<lambda>(n, T).
      if n < 0 then Inr (ret1 (- 3), tb\<lparr>PLACEMENT_TABLE := T\<rparr>, destroy_placement lib (Some pl) l1)
      else Inr (ret2 0 n, tb\<lparr>PLACEMENT_TABLE := T\<rparr>, l1)))" for pl ci l1
    unfolding placement_insert_def
    by (rule table_insert_outcome [OF wf(3) sizeof_bounds(5,6), of alloc
          "\<lambda>id. \<lparr>pl_ptr = Some pl, placement_id = id, pl_owner = Some a, pl_canvas = ci\<rparr>"])
       (use g in \<open>auto simp: tables_growable_def intro!: safe_ret tables_ok_update ok\<close>)
  have c: "entry (CANVAS_TABLE tb) i = Inr (items (CANVAS_TABLE tb) ! i)"
    if "canvas_lookup n (CANVAS_TABLE tb) = Some i" for n i using canvas.lookup_Some [OF wf(1) that] by blast
  have s: "entry (SPRITE_TABLE tb) i = Inr (items (SPRITE_TABLE tb) ! i)"
    if "sprite_lookup n (SPRITE_TABLE tb) = Some i" for n i using sprite.lookup_Some [OF wf(2) that] by blast
  show ?thesis using ok ins
    by (auto simp: do_place_sprite_def c s split: list.split option.split prod.split)
qed

lemma safe_with_placement:
  assumes ok: "tables_ok tb"
    and k: "\<And>n i p. placement_lookup n (PLACEMENT_TABLE tb) = Some i \<Longrightarrow> safe G (k n p)"
  shows "safe G (with_placement req (tb, l) k)"
proof -
  have "entry (PLACEMENT_TABLE tb) i = Inr (items (PLACEMENT_TABLE tb) ! i)"
    if "placement_lookup n (PLACEMENT_TABLE tb) = Some i" for n i
    using placement.lookup_Some [OF tables_okD(3) [OF ok] that] by blast
  then show ?thesis using ok k
    by (auto simp: with_placement_def split: list.split option.split)
qed

lemma safe_placements:
  assumes ok: "tables_ok tb"
  shows "safe G (do_placement_up lib req (tb, l))" "safe G (do_placement_down lib req (tb, l))"
    "safe G (do_placement_top lib req (tb, l))" "safe G (do_placement_bottom lib req (tb, l))"
    "safe G (do_destroy_placement lib req (tb, l))" "safe G (do_set_anim_param lib req (tb, l))"
proof -
  note wf = tables_okD [OF ok]
  show "safe G (do_placement_up lib req (tb, l))" "safe G (do_placement_down lib req (tb, l))"
    "safe G (do_placement_top lib req (tb, l))" "safe G (do_placement_bottom lib req (tb, l))"
    by (simp_all add: do_placement_up_def do_placement_down_def do_placement_top_def do_placement_bottom_def
        do_placement_move_def safe_with_placement ok)
  have "safe G (and_then (placement_remove lib n (PLACEMENT_TABLE tb, l)) (\<lambda>(T, l1).
      Inr (ret1 0, tb\<lparr>PLACEMENT_TABLE := T\<rparr>, l1)))"
    if "placement_lookup n (PLACEMENT_TABLE tb) = Some i" for n i
    using placement_remove_wf [OF wf(3) that, of lib l] ok by (auto intro!: safe_ret tables_ok_update)
  then show "safe G (do_destroy_placement lib req (tb, l))"
    by (auto simp: do_destroy_placement_def intro!: safe_with_placement ok)
  have "entry (PLACEMENT_TABLE tb) i = Inr (items (PLACEMENT_TABLE tb) ! i)"
    if "placement_lookup n (PLACEMENT_TABLE tb) = Some i" for n i
    using placement.lookup_Some [OF wf(3) that] by blast
  then show "safe G (do_set_anim_param lib req (tb, l))" using ok
    by (auto simp: do_set_anim_param_def split: list.split option.split)
qed

text \<open>The registry SHARE searches: well linked, and every client that is logged in has a name.\<close>

definition registry_ok :: "ClientRegistry \<Rightarrow> bool" where
  "registry_ok R \<longleftrightarrow> (\<exists>as. reg_rep R as \<and> (\<forall>a \<in> set as. names_set (cr_mem R a)))"

lemma find_user_ok: "registry_ok R \<Longrightarrow> \<exists>r. find_user u R = Inr r"
  using find_user_rep by (auto simp: registry_ok_def)

lemma safe_share: "tables_ok tb \<Longrightarrow> registry_ok R \<Longrightarrow> safe G (do_share R req (tb, l))"
proof -
  assume ok: "tables_ok tb" and reg: "registry_ok R"
  note wf = tables_okD [OF ok]
  have store: "safe G (and_then (poke (cv_shared ce) (shared_count ce) (Some t)) (\<lambda>sh.
      and_then (set_entry (CANVAS_TABLE tb) i (ce\<lparr>cv_shared := sh, shared_count := Suc (shared_count ce)\<rparr>)) (\<lambda>T.
        Inr (ret1 0, tb\<lparr>CANVAS_TABLE := T\<rparr>, l))))"
    if i: "i < length (items (CANVAS_TABLE tb))" and ce: "ce = items (CANVAS_TABLE tb) ! i"
      and room: "\<not> MAX_CLIENTS \<le> shared_count ce" for i ce t
  proof -
    have "canvas_ok ce" using wf(4) i ce by simp
    then have len: "shared_count ce < length (cv_shared ce)" using room by (simp add: canvas_ok_def)
    let ?e = "ce\<lparr>cv_shared := (cv_shared ce)[shared_count ce := Some t], shared_count := Suc (shared_count ce)\<rparr>"
    have "canvas_ok ?e" using \<open>canvas_ok ce\<close> room by (simp add: canvas_ok_def)
    then have "\<forall>e \<in> set ((items (CANVAS_TABLE tb))[i := ?e]). canvas_ok e"
      using wf(4) by (intro set_update_subset i) auto
    moreover obtain T' where "set_entry (CANVAS_TABLE tb) i ?e = Inr T'" "table_wf sizeof_CanvasEntry T'"
      "items T' = (items (CANVAS_TABLE tb))[i := ?e]" using set_entry_wf [OF wf(1) i, of ?e] by blast
    ultimately show ?thesis using len ok by (auto intro!: safe_ret tables_ok_update)
  qed
  have inner: "safe G (and_then (entry (CANVAS_TABLE tb) i) (\<lambda>ce.
      if cv_ptr ce = None then Inr (ret1 (- 2), tb, l)
      else and_then (find_user user R) (\<lambda>target.
        case target of None \<Rightarrow> Inr (ret1 (- 2), tb, l)
        | Some t \<Rightarrow>
            if MAX_CLIENTS \<le> shared_count ce then Inr (ret1 (- 3), tb, l)
            else and_then (poke (cv_shared ce) (shared_count ce) (Some t)) (\<lambda>sh.
              and_then (set_entry (CANVAS_TABLE tb) i
                          (ce\<lparr>cv_shared := sh, shared_count := shared_count ce + 1\<rparr>)) (\<lambda>T.
                Inr (ret1 0, tb\<lparr>CANVAS_TABLE := T\<rparr>, l))))))"
    if "canvas_lookup n (CANVAS_TABLE tb) = Some i" for n i user
    using canvas.lookup_Some [OF wf(1) that] find_user_ok [OF reg, of user] ok
    by (auto split: option.split intro!: store)
  show ?thesis using ok
    by (auto simp: do_share_def split: list.split option.split intro!: inner)
qed

section \<open>Frames\<close>

text \<open>\<open>k\<close> frames from the number \<open>i\<close> on, with the state of the library passed along.\<close>

fun frames_from :: "'l animate \<Rightarrow> addr \<Rightarrow> int \<Rightarrow> int \<Rightarrow> nat \<Rightarrow> 'l \<Rightarrow> string list \<times> 'l" where
  "frames_from lib cv rate i 0 l = ([], l)"
| "frames_from lib cv rate i (Suc k) l =
     (let (f, l1) = generate_frame lib cv (nat i) (nat rate) l; (fs, l2) = frames_from lib cv rate (i + 1) k l1
      in (f # fs, l2))"

lemma length_frames_from [simp]: "length (fst (frames_from lib cv rate i k l)) = k"
  by (induction k arbitrary: i l) (auto simp: split_beta Let_def)

text \<open>The loop stops at the first frame that is not written in full.\<close>

lemma gen_loop_frames:
  assumes "end < INT_MAX" and "k = nat (end - i + 1)"
    and "\<forall>j. i \<le> j \<and> j < i + int m \<longrightarrow> g_write env j = int sz"
    and "m = k \<or> m < k \<and> g_write env (i + int m) \<noteq> int sz"
  shows "\<exists>l'. gen_loop lib env cv sz rate i end l = Inr (fst (frames_from lib cv rate i m l), m = k, l')
    \<and> (m = k \<longrightarrow> l' = snd (frames_from lib cv rate i m l))"
  using assms
proof (induction m arbitrary: i k l)
  case 0
  then show ?case by (subst gen_loop.simps) (auto simp: split_beta)
next
  case (Suc m)
  obtain f l1 where f: "generate_frame lib cv (nat i) (nat rate) l = (f, l1)" by fastforce
  have i: "i \<le> end" "i \<noteq> INT_MAX" using Suc.prems by auto
  have w: "g_write env i = int sz" using Suc.prems(3) by simp
  have "\<exists>l'. gen_loop lib env cv sz rate (i + 1) end l1 = Inr (fst (frames_from lib cv rate (i + 1) m l1), m = k - 1, l')
      \<and> (m = k - 1 \<longrightarrow> l' = snd (frames_from lib cv rate (i + 1) m l1))"
  proof (rule Suc.IH)
    show "\<forall>j. i + 1 \<le> j \<and> j < i + 1 + int m \<longrightarrow> g_write env j = int sz" using Suc.prems(3) by simp
    have eq: "i + 1 + int m = i + int (Suc m)" by simp
    show "m = k - 1 \<or> m < k - 1 \<and> g_write env (i + 1 + int m) \<noteq> int sz"
      unfolding eq using Suc.prems(4) by auto
  qed (use Suc.prems i in auto)
  moreover have "m = k - 1 \<longleftrightarrow> Suc m = k" using Suc.prems(4) by auto
  ultimately show ?case using f i w by (subst gen_loop.simps) (cases k; auto simp: split_beta)
qed

lemma gen_loop_total:
  assumes "end < INT_MAX"
  shows "\<exists>fs done l'. gen_loop lib env cv sz rate i end l = Inr (fs, done, l')"
proof -
  let ?k = "nat (end - i + 1)" and ?good = "\<lambda>j :: nat. g_write env (i + int j) = int sz"
  show ?thesis
  proof (cases "\<forall>j < ?k. ?good j")
    case True
    have "\<forall>j. i \<le> j \<and> j < i + int ?k \<longrightarrow> g_write env j = int sz"
    proof (intro allI impI)
      fix j assume j: "i \<le> j \<and> j < i + int ?k"
      then have int: "i + int (nat (j - i)) = j" by simp
      with j have "nat (j - i) < ?k" by linarith
      with True int show "g_write env j = int sz" by metis
    qed
    from gen_loop_frames [OF assms refl this disjI1 [OF refl], of lib cv rate l] show ?thesis by blast
  next
    case False
    then obtain j0 where "j0 < ?k \<and> \<not> ?good j0" by auto
    then obtain m where m: "m < ?k" "\<not> ?good m" "\<forall>j < m. \<not> (j < ?k \<and> \<not> ?good j)"
      using exists_least_iff [of "\<lambda>j. j < ?k \<and> \<not> ?good j"] by auto
    have "\<forall>j. i \<le> j \<and> j < i + int m \<longrightarrow> g_write env j = int sz"
    proof (intro allI impI)
      fix j assume "i \<le> j \<and> j < i + int m"
      then have "nat (j - i) < m" "i + int (nat (j - i)) = j" by auto
      with m show "g_write env j = int sz" by (metis less_trans)
    qed
    moreover have "m = ?k \<or> m < ?k \<and> g_write env (i + int m) \<noteq> int sz" using m by simp
    ultimately show ?thesis using gen_loop_frames [OF assms refl, of i m env sz lib cv rate l] by blast
  qed
qed

text \<open>A request that asks for a frame with the largest \<open>int\<close> is excluded.\<close>

definition generate_bounded :: "string \<Rightarrow> bool" where
  "generate_bounded args = (case scan_generate args of None \<Rightarrow> True
     | Some (cid, filename, start, end, rate) \<Rightarrow> end < INT_MAX)"

lemma generate_total:
  assumes ok: "tables_ok tb" and "generate_bounded args"
  shows "\<exists>a b c evs l'. do_generate lib env args (tb, l) = Inr ((a, b, c), evs, tb, l')"
proof (cases "scan_generate args")
  case None
  then show ?thesis by (simp add: do_generate_def ret1_def)
next
  case (Some p)
  obtain cid filename start "end" rate where p: "p = (cid, filename, start, end, rate)" by (cases p)
  have fin: "end < INT_MAX" using assms(2) Some p by (simp add: generate_bounded_def)
  have c: "entry (CANVAS_TABLE tb) i = Inr (items (CANVAS_TABLE tb) ! i)"
    if "canvas_lookup n (CANVAS_TABLE tb) = Some i" for n i
    using canvas.lookup_Some [OF tables_okD(1) [OF ok] that] by blast
  show ?thesis
  proof (cases "canvas_lookup cid (CANVAS_TABLE tb)")
    case None
    then show ?thesis using Some p by (simp add: do_generate_def ret1_def)
  next
    case (Some ci)
    show ?thesis
    proof (cases "cv_ptr (items (CANVAS_TABLE tb) ! ci)")
      case None
      then show ?thesis using Some \<open>scan_generate args = Some p\<close> p c by (simp add: do_generate_def ret1_def)
    next
      case (Some cv)
      obtain fs "done" l1 where
        "gen_loop lib env cv (frame_size_bytes lib cv l) rate start end l = Inr (fs, done, l1)"
        using gen_loop_total [OF fin, of lib env cv "frame_size_bytes lib cv l" rate start l] by blast
      then show ?thesis
        using Some \<open>scan_generate args = Some p\<close> p c [OF \<open>canvas_lookup cid (CANVAS_TABLE tb) = Some ci\<close>]
          \<open>canvas_lookup cid (CANVAS_TABLE tb) = Some ci\<close>
        by (simp add: do_generate_def ret1_def ret2_def Let_def)
    qed
  qed
qed

section \<open>Retries of the handshake\<close>

text \<open>The write end is opened by the first of at most eleven calls that does not fail with \<open>ENXIO\<close>.\<close>

definition opens_at :: "hsk_env \<Rightarrow> nat \<Rightarrow> int \<Rightarrow> bool" where
  "opens_at env k w \<longleftrightarrow> h_open_w env k = Inr w \<and> (\<forall>j < k. h_open_w env j = Inl ENXIO)"

lemma open_retry_spec:
  "a \<le> MAX_OPEN_RETRIES \<Longrightarrow> \<forall>j \<le> a. h_open_w env j = Inl ENXIO \<Longrightarrow>
   snd (open_retry env s2c a) = Some w \<longleftrightarrow> (\<exists>k \<le> MAX_OPEN_RETRIES. opens_at env k w)"
proof (induction env s2c a rule: open_retry.induct)
  case (1 env s2c a)
  show ?case
  proof (cases "a < MAX_OPEN_RETRIES")
    case False
    then have "a = MAX_OPEN_RETRIES" using 1(2) by simp
    then show ?thesis using 1(3) by (subst open_retry.simps) (auto simp: opens_at_def)
  next
    case True
    show ?thesis
    proof (cases "h_open_w env (Suc a)")
      case (Inr fd)
      have "(\<exists>k \<le> MAX_OPEN_RETRIES. opens_at env k w) \<longleftrightarrow> w = fd"
      proof
        assume "\<exists>k \<le> MAX_OPEN_RETRIES. opens_at env k w"
        then obtain k where k: "opens_at env k w" by blast
        have "k = Suc a"
          using k 1(3) Inr by (cases k "Suc a" rule: linorder_cases) (auto simp: opens_at_def)
        then show "w = fd" using k Inr by (simp add: opens_at_def)
      next
        assume "w = fd"
        then have "opens_at env (Suc a) w" using Inr 1(3) by (auto simp: opens_at_def)
        then show "\<exists>k \<le> MAX_OPEN_RETRIES. opens_at env k w" using True by (auto intro: exI [of _ "Suc a"])
      qed
      then show ?thesis using True Inr by (subst open_retry.simps) auto
    next
      case (Inl e)
      show ?thesis
      proof (cases "e = ENXIO")
        case e: True
        have "\<forall>j \<le> Suc a. h_open_w env j = Inl ENXIO" using 1(3) Inl e by (auto simp: le_Suc_eq)
        then show ?thesis
          using 1(1) [OF True Inl e] True Inl e by (subst open_retry.simps) (simp add: split_beta)
      next
        case False
        have "\<not> opens_at env k w" for k
          using 1(3) Inl False by (cases k "Suc a" rule: linorder_cases) (auto simp: opens_at_def)
        then show ?thesis using True Inl False by (subst open_retry.simps) auto
      qed
    qed
  qed
qed

lemma open_write_end_spec:
  "snd (open_write_end env s2c) = Some w \<longleftrightarrow> (\<exists>k \<le> MAX_OPEN_RETRIES. opens_at env k w)"
proof (cases "h_open_w env 0")
  case (Inr fd)
  have "opens_at env k w \<longleftrightarrow> k = 0 \<and> w = fd" for k using Inr by (cases k) (auto simp: opens_at_def)
  then show ?thesis using Inr by (auto simp: open_write_end_def)
next
  case (Inl e)
  show ?thesis
  proof (cases "e = ENXIO")
    case True
    then show ?thesis using open_retry_spec [of 0 env s2c w] Inl by (simp add: open_write_end_def split_beta)
  next
    case False
    have "\<not> opens_at env k w" for k using Inl False by (cases k) (auto simp: opens_at_def)
    then show ?thesis using Inl False by (simp add: open_write_end_def)
  qed
qed

lemma open_retry_events: "set (fst (open_retry env s2c a)) \<subseteq> {OpenWr s2c, Sleep}
    \<and> count_list (fst (open_retry env s2c a)) (OpenWr s2c) \<le> MAX_OPEN_RETRIES - a"
proof (induction env s2c a rule: open_retry.induct)
  case (1 env s2c a)
  then show ?case by (subst (1 2) open_retry.simps) (auto simp: split_beta split: sum.split)
qed

lemma open_write_end_events: "set (fst (open_write_end env s2c)) \<subseteq> {OpenWr s2c, Sleep}
    \<and> count_list (fst (open_write_end env s2c)) (OpenWr s2c) \<le> 11"
  using open_retry_events [of env s2c 0]
  by (auto simp: open_write_end_def split_beta MAX_OPEN_RETRIES_def split: sum.split)

section \<open>Properties\<close>

definition replied :: "bool \<Rightarrow> (ret3 \<times> os_event list \<times> 'l objects) res \<Rightarrow> bool" where
  "replied G m \<longleftrightarrow> (\<exists>a b c evs tb l. m = Inr ((a, b, c), evs, tb, l) \<and> (tables_ok tb \<or> a = - 3 \<and> \<not> G))"

lemma replied_quiet: "safe G m \<Longrightarrow> replied G (and_then m (\<lambda>(r, S1). Inr (r, [], S1)))"
  by (force simp: safe_def replied_def)

lemma rpc_replied:
  assumes "tables_ok tb" and "registry_ok R" and "type \<notin> {HANDSHAKE, AUTHORISE, BARRIER}"
    and "G \<Longrightarrow> tables_growable (we_alloc env) tb" and "type = GENERATE \<Longrightarrow> generate_bounded req"
  shows "replied G (do_rpc env type R client req (tb, l))"
proof (cases type)
  case GENERATE
  obtain a b c evs l' where "do_generate (we_lib env) (we_gen env) req (tb, l) = Inr ((a, b, c), evs, tb, l')"
    using generate_total [OF assms(1) assms(5) [OF GENERATE], where lib = "we_lib env" and env = "we_gen env" and l = l]
    by (elim exE)
  then show ?thesis using GENERATE assms(1) by (simp add: do_rpc_def replied_def)
qed (use assms(1-4) in \<open>simp_all add: do_rpc_def replied_quiet safe_create_canvas safe_destroy_canvas safe_create_sprites
    safe_destroy_sprite safe_place_sprite safe_placements safe_share\<close>)


definition log_env :: "lib_call list worker_env" where
  "log_env = \<lparr>we_lib = log_lib, we_alloc = (\<lambda>n. True), we_db = None, we_junk = replicate 64 NUL,
     we_gen = \<lparr>g_open = True, g_malloc = True, g_write = (\<lambda>i. 4), g_close = True, g_system = (\<lambda>c. 0)\<rparr>,
     we_hsk = \<lparr>h_mkfifo_c2s = True, h_mkfifo_s2c = True, h_kill = True, h_open_r = Some 10,
               h_open_w = (\<lambda>k. if k < 3 then Inl ENXIO else Inr 11)\<rparr>\<rparr>"

lemma one_object_ok: "tables_ok one_object"
  by (simp add: tables_ok_def one_object_wf)
     (simp add: one_object_def tables_init_def one_canvas_def items_def cells_def new_canvas_ok)

lemma two_clients_ok: "registry_ok two_clients"
  unfolding registry_ok_def
  by (intro exI [of _ "[2, 1]"] conjI two_clients_rep) (simp add: two_clients_def names_set_def new_client_def)


text \<open>C23: a handshake either hands over both descriptors, the write end being opened by the first call that does not fail
  with \<open>ENXIO\<close> and with at most eleven calls, or closes what it has opened and unlinks both FIFOs; so no handshake
  leaks a descriptor, and none blocks the worker for ever.\<close>

theorem handshake_no_leak:
  "case do_handshake env pid c2s s2c of
     (Some r, evs) \<Rightarrow> (\<exists>rfd wfd k. r = ResHsk pid rfd wfd \<and> h_open_r env = Some rfd \<and> k \<le> MAX_OPEN_RETRIES
        \<and> opens_at env k wfd \<and> (\<forall>fd. Close fd \<notin> set evs) \<and> count_list evs (OpenWr s2c) \<le> 11)
   | (None, evs) \<Rightarrow> (\<exists>evs'. evs = evs' @ [Unlink c2s, Unlink s2c] \<and> count_list evs (OpenWr s2c) \<le> 11
        \<and> (\<forall>fd. h_open_r env = Some fd \<and> OpenRd c2s \<in> set evs \<longrightarrow> Close fd \<in> set evs'))"
proof -
  obtain evs3 w where ow: "open_write_end env s2c = (evs3, w)" by fastforce
  have evs: "set evs3 \<subseteq> {OpenWr s2c, Sleep}" "count_list evs3 (OpenWr s2c) \<le> 11"
    using open_write_end_events [of env s2c] ow by auto
  have cl: "Close fd \<notin> set evs3" for fd using evs(1) by auto
  let ?e = "[Unlink c2s, Unlink s2c, Mkfifo c2s, Mkfifo s2c, Kill pid, OpenRd c2s]"
  consider (early) "\<not> h_mkfifo_c2s env \<or> \<not> h_mkfifo_s2c env \<or> \<not> h_kill env \<or> h_open_r env = None"
    | (late) r where "h_mkfifo_c2s env" "h_mkfifo_s2c env" "h_kill env" "h_open_r env = Some r" by blast
  then show ?thesis
  proof cases
    case early
    then show ?thesis by (cases "h_open_r env") (auto simp: do_handshake_def Let_def)
  next
    case late
    show ?thesis
    proof (cases w)
      case None
      have "do_handshake env pid c2s s2c = (None, (?e @ evs3 @ [Close r]) @ [Unlink c2s, Unlink s2c])"
        using late ow None by (simp add: do_handshake_def Let_def)
      then show ?thesis using late evs(2) by simp
    next
      case (Some wfd)
      have "do_handshake env pid c2s s2c = (Some (ResHsk pid r wfd), ?e @ evs3)"
        using late ow Some by (simp add: do_handshake_def Let_def)
      then show ?thesis using late evs(2) cl open_write_end_spec [of env s2c wfd] ow Some by auto
    qed
  qed
qed

theorem handshake_no_leak_witness:
  "\<exists>evs. do_handshake (we_hsk log_env) 100 ''r'' ''w'' = (Some (ResHsk 100 10 11), evs) \<and> count_list evs (OpenWr ''w'') \<le> 11"
proof -
  obtain r evs where d: "do_handshake (we_hsk log_env) 100 ''r'' ''w'' = (r, evs)" by fastforce
  moreover have "fst (do_handshake (we_hsk log_env) 100 ''r'' ''w'') = Some (ResHsk 100 10 11)" by code_simp
  ultimately have "do_handshake (we_hsk log_env) 100 ''r'' ''w'' = (Some (ResHsk 100 10 11), evs)" by simp
  then show ?thesis using handshake_no_leak [where env = "we_hsk log_env" and pid = 100 and c2s = "''r''" and s2c = "''w''"] by auto
qed

lemma parse_int_show: "LONG_MIN \<le> i \<Longrightarrow> i \<le> LONG_MAX \<Longrightarrow> parse_int (show_int i) = Some i"
  using strtol_show_int [of i "[]"] by (simp add: parse_int_def)

lemma parse_uint_show: "0 \<le> i \<Longrightarrow> i \<le> ULONG_MAX \<Longrightarrow> parse_uint (show_int i) = Some i"
  using scan_num_show_int [of "[]" i] by (simp add: parse_uint_def strtoul_def)

lemma request_tokens_ints:
  assumes "length (unwords (map show_int is)) < n"
  shows "request_tokens n k (unwords (map show_int is)) = map (\<lambda>i. Some (show_int i)) (take k is) @ replicate (k - length is) None"
  using assms strtoks_unwords [of "map show_int is" k]
  by (simp add: request_tokens_def strncpy0_def show_int_word(1) list_all_iff take_map)

lemma length_show_int3:
  assumes "\<forall>i \<in> {h, w, c}. INT_MIN \<le> i \<and> i \<le> INT_MAX"
  shows "length (unwords (map show_int [h, w, c])) < MAX_RPC_BUF_LEN"
  using assms length_show_int [of h] length_show_int [of w] length_show_int [of c]
  by (simp add: MAX_RPC_BUF_LEN_def)

text \<open>C14: creating a canvas and destroying it by the id in the reply are inverse: the
  create request, printed with any sizes and colour that are an \<open>int\<close>, passes exactly these numbers to the library, is answered
  with the next free id, enters the canvas with its owner and size under it; and the destroy request with
  that id is answered with 0, makes the library destroy exactly this canvas and clears only its entry.\<close>

theorem create_destroy_canvas_roundtrip:
  assumes ok: "tables_ok tb" and ints: "\<forall>i \<in> {h, w, bg}. INT_MIN \<le> i \<and> i \<le> INT_MAX" "0 \<le> h" "0 \<le> w"
    and lib: "create_canvas lib h w bg l = (Some cv, l1)"
    and room: "tcount (CANVAS_TABLE tb) \<noteq> capacity (CANVAS_TABLE tb)"
    and n: "n = int (length (items (CANVAS_TABLE tb)))" "n \<le> INT_MAX"
  shows "\<exists>tb1 tb2. do_create_canvas lib alloc a (unwords (map show_int [h, w, bg])) (tb, l) = Inr ((0, n, INT_MIN), tb1, l1)
    \<and> items (CANVAS_TABLE tb1) = items (CANVAS_TABLE tb) @ [new_canvas (Some cv) a w h n]
    \<and> do_destroy_canvas lib (show_int n) (tb1, l1) = Inr ((0, INT_MIN, INT_MIN), tb2, destroy_canvas lib (Some cv) l1)
    \<and> items (CANVAS_TABLE tb2) = items (CANVAS_TABLE tb) @ [(new_canvas (Some cv) a w h n)\<lparr>cv_ptr := None\<rparr>]"
proof -
  note wf = tables_okD [OF ok]
  have toks: "request_tokens MAX_RPC_BUF_LEN 3 (unwords (map show_int [h, w, bg])) = [Some (show_int h), Some (show_int w), Some (show_int bg)]"
    using request_tokens_ints [OF length_show_int3 [OF ints(1)], of 3] by (simp add: numeral_3_eq_3)
  have p: "parse_uint (show_int h) = Some h" "parse_uint (show_int w) = Some w" "parse_int (show_int bg) = Some bg"
    "int32 h = h" "int32 w = w"
    using ints by (simp_all add: parse_uint_show parse_int_show int_limits int32_id)
  have len: "length (show_int n) < MAX_RPC_BUF_LEN"
    using length_show_int [of n] n by (simp add: int_limits MAX_RPC_BUF_LEN_def)
  have tok: "request_tokens MAX_RPC_BUF_LEN 1 (show_int n) = [Some (show_int n)]"
    using request_tokens_ints [of "[n]" MAX_RPC_BUF_LEN 1] len by simp
  have pn: "parse_int (show_int n) = Some n" "int32 n = n"
    using n by (simp_all add: parse_int_show int_limits int32_id)
  have "tcount (CANVAS_TABLE tb) < capacity (CANVAS_TABLE tb)" using table_wfD(2) [OF wf(1)] room by simp
  from table_append_wf [OF wf(1) this, of "new_canvas (Some cv) a w h"] obtain T1 where
    T1: "table_append (new_canvas (Some cv) a w h) (CANVAS_TABLE tb) = Inr (n, T1)" "table_wf sizeof_CanvasEntry T1"
      "items T1 = items (CANVAS_TABLE tb) @ [new_canvas (Some cv) a w h n]"
    using n(1) length_items [OF wf(1)] table_wfD(1) [OF wf(1)] by auto
  have c: "do_create_canvas lib alloc a (unwords (map show_int [h, w, bg])) (tb, l) = Inr ((0, n, INT_MIN), tb\<lparr>CANVAS_TABLE := T1\<rparr>, l1)"
    using T1(1) n(1) room lib
    by (simp add: do_create_canvas_def toks [simplified] p canvas_insert_def table_insert_def ret2_def)
  let ?i = "length (items (CANVAS_TABLE tb))"
  have look: "canvas_lookup n T1 = Some ?i" using T1 n(1) by (simp add: canvas.lookup_law)
  from canvas_remove_wf [OF T1(2) look, of lib l1] obtain T2 where
    T2: "canvas_remove lib n (T1, l1) = Inr (T2, destroy_canvas lib (Some cv) l1)"
      "items T2 = (items T1)[?i := (new_canvas (Some cv) a w h n)\<lparr>cv_ptr := None\<rparr>]"
    using T1(3) by (auto simp: new_canvas_def)
  have e: "entry T1 ?i = Inr (new_canvas (Some cv) a w h n)" using canvas.lookup_Some [OF T1(2) look] T1(3) by simp
  have "cv_ptr (new_canvas (Some cv) a w h n) \<noteq> None" by (simp add: new_canvas_def)
  then have d: "do_destroy_canvas lib (show_int n) (tb\<lparr>CANVAS_TABLE := T1\<rparr>, l1)
      = Inr ((0, INT_MIN, INT_MIN), tb\<lparr>CANVAS_TABLE := T2\<rparr>, destroy_canvas lib (Some cv) l1)"
    using look e T2(1) tok pn by (simp add: do_destroy_canvas_def ret1_def)
  show ?thesis
    using c d T1(3) T2(2) by (intro exI [of _ "tb\<lparr>CANVAS_TABLE := T1\<rparr>"] exI [of _ "tb\<lparr>CANVAS_TABLE := T2\<rparr>"]) simp
qed

definition roomy :: tables where
  "roomy = tables_init\<lparr>CANVAS_TABLE := \<lparr>arr = Some (replicate 64 None), tcount = 0, capacity = 64\<rparr>\<rparr>"

lemma roomy_ok: "tables_ok roomy"
  by (simp add: tables_ok_def tables_wf_def roomy_def tables_init_def table_wf_empty items_def)
     (simp add: table_wf_def cells_def sizeof_CanvasEntry_def int_limits)

theorem create_destroy_canvas_roundtrip_witness:
  "\<exists>tb1 tb2. do_create_canvas log_lib (\<lambda>n. True) 1 (unwords (map show_int [20, 30, 0])) (roomy, [])
      = Inr ((0, 0, INT_MIN), tb1, [CreateCanvas 20 30 0])
    \<and> do_destroy_canvas log_lib (show_int 0) (tb1, [CreateCanvas 20 30 0])
      = Inr ((0, INT_MIN, INT_MIN), tb2, [CreateCanvas 20 30 0, DestroyCanvas (Some 0)])"
proof -
  have "create_canvas log_lib 20 30 0 [] = (Some 0, [CreateCanvas 20 30 0])" by (simp add: log_lib_def log_new_def)
  moreover have "items (CANVAS_TABLE roomy) = []" "tcount (CANVAS_TABLE roomy) \<noteq> capacity (CANVAS_TABLE roomy)"
    by (simp_all add: roomy_def items_def)
  moreover have "destroy_canvas log_lib (Some 0) [CreateCanvas 20 30 0] = [CreateCanvas 20 30 0, DestroyCanvas (Some 0)]"
    by (simp add: log_lib_def)
  ultimately show ?thesis
    using create_destroy_canvas_roundtrip [OF roomy_ok, of 20 30 0 log_lib "[]" 0 "[CreateCanvas 20 30 0]" 0 "\<lambda>n. True" 1]
    by (force simp: int_limits)
qed

text \<open>The request of \<open>generate\<close> as a client writes it, and the command before it is cut.\<close>

definition generate_request :: "int \<Rightarrow> string \<Rightarrow> int \<Rightarrow> int \<Rightarrow> int \<Rightarrow> string" where
  "generate_request cid filename start end rate =
     show_int cid @ SPC # filename @ SPC # show_int start @ SPC # show_int end @ SPC # show_int rate"

definition full_command :: "int \<Rightarrow> int \<Rightarrow> int \<Rightarrow> string \<Rightarrow> string" where
  "full_command width height rate filename =
     ''ffmpeg -y -f rawvideo -pixel_format rgba -video_size '' @ show_int width @ ''x'' @ show_int height
        @ '' -framerate '' @ show_int rate @ '' -i '' @ filename @ ''.dat '' @ filename @ ''.mp4 > '' @ filename
        @ ''.log 2>&1''"

lemma scan_d_space: "scan_d (SPC # s) = scan_d s"
  by (simp add: scan_d_def)

lemma scan_s_word:
  assumes "is_word w" and "length w \<le> n"
  shows "scan_s n (SPC # w @ SPC # r) = Some (w, SPC # r)"
proof -
  have d: "dropWhile c_isspace (w @ SPC # r) = w @ SPC # r"
    using assms(1) by (cases w) (auto simp: is_word_def)
  have t: "takeWhile (\<lambda>c. \<not> c_isspace c) (w @ SPC # r) = w"
    using assms(1) by (intro takeWhile_all_append) (auto simp: is_word_def)
  have "0 < n" using assms by (cases n) (auto simp: is_word_def)
  then show ?thesis using assms by (simp add: scan_s_def d t Let_def is_word_def)
qed

lemma scan_generate_request:
  assumes "is_word f" and "length f \<le> 127" and "\<forall>i \<in> {c, s, e, r}. INT_MIN \<le> i \<and> i \<le> INT_MAX"
  shows "scan_generate (generate_request c f s e r) = Some (c, f, s, e, r)"
proof -
  have n: "scan_d (show_int i @ SPC # t) = Some (i, SPC # t)" "scan_d (show_int i) = Some (i, [])"
    if "i \<in> {c, s, e, r}" for i t
    using scan_d_show_int [of i "SPC # t"] scan_d_show_int [of i "[]"] assms(3) that by auto
  show ?thesis
    using scan_s_word [OF assms(1), of 127 "show_int s @ SPC # show_int e @ SPC # show_int r"] assms(2)
    by (simp add: scan_generate_def generate_request_def n MAX_FILENAME_LEN_def scan_d_space numeral_3_eq_3)
qed

lemma ffmpeg_not_cut:
  assumes "length f \<le> 127" and "\<forall>i \<in> {w, h, r}. INT_MIN \<le> i \<and> i \<le> INT_MAX"
  shows "ffmpeg_command w h r (snprintf MAX_PATH_LEN (f @ ''.dat'')) (snprintf MAX_PATH_LEN (f @ ''.mp4''))
      (snprintf MAX_PATH_LEN (f @ ''.log'')) = full_command w h r f"
proof -
  have "length (show_int w) \<le> 11" "length (show_int h) \<le> 11" "length (show_int r) \<le> 11"
    using assms(2) by (simp_all add: length_show_int)
  then show ?thesis
    using assms(1)
    by (simp add: ffmpeg_command_def full_command_def MAX_PATH_LEN_def COMMAND_LEN_def snprintf_id)
qed

text \<open>C29: a generate request for a canvas writes exactly the frames from the first to the last number, in this order, to
  the file, then runs the ffmpeg command, which is never cut by its buffer; the reply tells the exit status. The file name
  the client has chosen is part of the shell command as it is, without quotes.\<close>

theorem generate_writes_every_frame:
  assumes ok: "tables_ok tb" and f: "is_word f" "length f \<le> 127"
    and ints: "\<forall>i \<in> {c, s, e, r}. INT_MIN \<le> i \<and> i \<le> INT_MAX" and r: "0 \<le> s" "s \<le> e" "e < INT_MAX" "0 < r"
    and ce: "canvas_lookup c (CANVAS_TABLE tb) = Some i" "entry (CANVAS_TABLE tb) i = Inr ce" "cv_ptr ce = Some cv"
    and size: "\<forall>i \<in> {cv_width ce, cv_height ce}. INT_MIN \<le> i \<and> i \<le> INT_MAX"
    and env: "g_open env" "g_malloc env" "g_close env" "frame_size_bytes lib cv l = Suc sz" "\<forall>j. g_write env j = int (Suc sz)"
  shows "do_generate lib env (generate_request c f s e r) (tb, l)
    = (let (frames, l1) = frames_from lib cv r s (nat (e - s + 1)) l;
           cmd = full_command (cv_width ce) (cv_height ce) r f
       in Inr ((0, 0, if g_system env cmd = 0 then 0 else - 1),
               OpenWr (f @ ''.dat'') # map WriteFile frames @ [System cmd], tb, l1))"
proof -
  have "gen_loop lib env cv (Suc sz) r s e l = Inr (fst (frames_from lib cv r s (nat (e - s + 1)) l), True,
      snd (frames_from lib cv r s (nat (e - s + 1)) l))"
    using gen_loop_frames [OF r(3) refl, of s "nat (e - s + 1)" env "Suc sz" lib cv r l] env(5) by simp
  moreover have "snprintf MAX_PATH_LEN (f @ ''.dat'') = f @ ''.dat''"
    using f(2) by (simp add: snprintf_id MAX_PATH_LEN_def)
  ultimately show ?thesis
    using scan_generate_request [OF f ints] ffmpeg_not_cut [OF f(2), of "cv_width ce" "cv_height ce" r] ints size r ce env
    by (simp add: do_generate_def Let_def split_beta)
qed

lemma one_object_entry:
  "canvas_lookup 0 (CANVAS_TABLE one_object) = Some 0"
  "entry (CANVAS_TABLE one_object) 0 = Inr (new_canvas (Some 7) 1 30 20 0)"
  by (simp_all add: canvas_lookup_def table_lookup_def one_object_def tables_init_def one_canvas_def entry_def)

theorem generate_writes_every_frame_witness:
  "do_generate log_lib (we_gen log_env) (generate_request 0 ''a;reboot;'' 0 1 25) (one_object, [])
    = Inr ((0, 0, 0), [OpenWr ''a;reboot;.dat'', WriteFile ''abcd'', WriteFile ''abcd'',
        System (full_command 30 20 25 ''a;reboot;'')], one_object, [GenerateFrame 7 0 25, GenerateFrame 7 1 25])"
proof -
  have "is_word ''a;reboot;''" by (simp add: is_word_def c_isspace_def)
  from generate_writes_every_frame [OF one_object_ok this, of 0 0 1 25 0 "new_canvas (Some 7) 1 30 20 0" 7 "we_gen log_env" log_lib "[]" 3]
  show ?thesis
    by (simp add: int_limits one_object_entry new_canvas_def log_env_def log_lib_def numeral_2_eq_2)
qed

text \<open>a generate request whose last frame is the largest \<open>int\<close> makes the loop counter pass it, which is undefined
  (and in practice never ends): nothing in the checks of the request excludes it.\<close>

theorem generate_overflows_at_int_max:
  assumes f: "is_word f" "length f \<le> 127" and c: "INT_MIN \<le> c" "c \<le> INT_MAX" and r: "0 < r" "r \<le> INT_MAX"
    and ce: "canvas_lookup c (CANVAS_TABLE tb) = Some i" "entry (CANVAS_TABLE tb) i = Inr ce" "cv_ptr ce = Some cv"
    and env: "g_open env" "g_malloc env" "frame_size_bytes lib cv l = Suc sz" "\<forall>j. g_write env j = int (Suc sz)"
  shows "do_generate lib env (generate_request c f INT_MAX INT_MAX r) (tb, l) = Inl SignedOverflow"
proof -
  have "gen_loop lib env cv (Suc sz) r INT_MAX INT_MAX l = Inl SignedOverflow"
    using env(4) by (subst gen_loop.simps) (simp add: split_beta)
  moreover have "scan_generate (generate_request c f INT_MAX INT_MAX r) = Some (c, f, INT_MAX, INT_MAX, r)"
    using c r by (intro scan_generate_request f) (auto simp: int_limits)
  ultimately show ?thesis using r ce env by (simp add: do_generate_def Let_def int_limits)
qed

theorem generate_overflows_at_int_max_witness:
  "do_generate log_lib (we_gen log_env) (generate_request 0 ''f'' INT_MAX INT_MAX 25) (one_object, []) = Inl SignedOverflow"
proof (rule generate_overflows_at_int_max [of _ _ _ _ 0 "new_canvas (Some 7) 1 30 20 0" 7 _ _ _ 3])
  show "is_word ''f''" by (simp add: is_word_def c_isspace_def)
qed (simp_all add: one_object_entry new_canvas_def log_env_def log_lib_def int_limits)

text \<open>\<open>destroy_canvas\<close> narrows the id to \<open>int\<close> without checking its range: an id that is a multiple of
  \<open>2^32\<close> above a canvas destroys that canvas, while \<open>destroy_sprite\<close> refuses every id above \<open>INT_MAX\<close>.\<close>

theorem destroy_canvas_wraps_id:
  assumes "0 \<le> n" and "n + 2 ^ 32 * k \<le> LONG_MAX" and "0 < k"
  shows "do_destroy_canvas lib (show_int (n + 2 ^ 32 * k)) S = do_destroy_canvas lib (show_int n) S
    \<and> do_destroy_sprite lib (show_int (n + 2 ^ 32 * k)) S = Inr (ret1 (- 2), S)"
proof -
  let ?m = "n + 2 ^ 32 * k"
  have pos: "0 \<le> n" "n \<le> ?m" "2 ^ 32 \<le> ?m" using assms by auto
  have p: "parse_int (show_int n) = Some n" "parse_int (show_int ?m) = Some ?m"
    using assms pos by (auto intro!: parse_int_show simp: int_limits)
  have len: "length (show_int i) \<le> 19" if "0 \<le> i" "i \<le> LONG_MAX" for i
  proof -
    have "nat i < 10 ^ 19" using that by (simp add: int_limits)
    then show ?thesis using length_show_nat [of 19 "nat i"] that by (simp add: show_int_def)
  qed
  have t: "request_tokens MAX_RPC_BUF_LEN 1 (show_int i) = [Some (show_int i)]" "request_tokens 64 1 (show_int i) = [Some (show_int i)]"
    if "0 \<le> i" "i \<le> LONG_MAX" for i
    using request_tokens_ints [of "[i]" MAX_RPC_BUF_LEN 1] request_tokens_ints [of "[i]" 64 1] len [OF that]
    by (simp_all add: MAX_RPC_BUF_LEN_def)
  have "int32 ?m = int32 n" by (rule int32_wrap)
  moreover have "parse_id (show_int ?m) = None" using p pos by (simp add: parse_id_def int_limits)
  ultimately show ?thesis
    using t [of n] t [of ?m] p pos assms
    by (cases S) (auto simp: do_destroy_canvas_def do_destroy_sprite_def split: option.split cong: if_cong)
qed

theorem destroy_canvas_wraps_id_witness:
  "do_destroy_canvas log_lib (show_int (0 + 2 ^ 32 * 1)) (one_object, []) = do_destroy_canvas log_lib (show_int 0) (one_object, [])"
  using destroy_canvas_wraps_id [of 0 1 log_lib "(one_object, [])"] by (simp add: int_limits)

text \<open>a negative size is accepted: \<open>parse_uint\<close> reads "-1" as \<open>2^64 - 1\<close>, so the request
  "create_canvas -1 -1 0" is not a value error but asks the library for that size; the canvas is entered with
  the width and height -1.\<close>

theorem negative_size_accepted:
  assumes "1 \<le> m" and "m \<le> INT_MAX"
  shows "parse_uint (show_int (- m)) = Some (2 ^ 64 - m) \<and> int32 (2 ^ 64 - m) = - m"
proof -
  have "scan_num (show_int (- m)) = Some (True, nat m, [])"
    using scan_num_show_int [of "[]" "- m"] assms by simp
  moreover have "(- m) mod 2 ^ 64 = 2 ^ 64 - m"
    using assms by (simp add: int_limits zmod_zminus1_eq_if)
  moreover have "int32 (- m + 2 ^ 32 * 2 ^ 32) = int32 (- m)" by (rule int32_wrap)
  moreover have "int32 (- m) = - m" using assms by (intro int32_id) (simp_all add: int_limits)
  moreover have "\<not> ULONG_MAX < int (nat m)" using assms by (simp add: int_limits)
  ultimately show ?thesis by (simp add: parse_uint_def strtoul_def)
qed

theorem negative_size_accepted_witness:
  "parse_uint ''-1'' = Some (2 ^ 64 - 1) \<and> int32 (2 ^ 64 - 1) = - 1"
proof -
  have "show_int (- 1) = ''-1''" by code_simp
  then show ?thesis using negative_size_accepted [of 1] by (simp add: int_limits)
qed

text \<open>C30: sharing a canvas with a user that is logged in stores the first such client in the next free cell of the
  canvas's array and answers 0; when all 64 cells are used it answers -3 and changes nothing, so the array is never
  written past its end.\<close>

theorem share_stores_the_user:
  assumes ok: "tables_ok tb" and reg: "reg_rep R as" "\<forall>a \<in> set as. names_set (cr_mem R a)"
    and req: "is_word u" "length u \<le> 100" "0 \<le> cid" "cid \<le> INT_MAX"
    and ce: "canvas_lookup cid (CANVAS_TABLE tb) = Some i" "entry (CANVAS_TABLE tb) i = Inr ce" "cv_ptr ce \<noteq> None"
    and t: "List.find (\<lambda>a. user_matches u (cr_mem R a)) as = Some t"
  shows "if shared_count ce = MAX_CLIENTS
    then do_share R (show_int cid @ SPC # u) (tb, l) = Inr ((- 3, INT_MIN, INT_MIN), tb, l)
    else \<exists>tb'. do_share R (show_int cid @ SPC # u) (tb, l) = Inr ((0, INT_MIN, INT_MIN), tb', l) \<and> tables_ok tb'
      \<and> entry (CANVAS_TABLE tb') i
          = Inr (ce\<lparr>cv_shared := (cv_shared ce)[shared_count ce := Some t], shared_count := shared_count ce + 1\<rparr>)"
proof -
  note wf = tables_okD [OF ok]
  note i = canvas.lookup_Some [OF wf(1) ce(1)]
  have ce_i: "ce = items (CANVAS_TABLE tb) ! i" using i ce(2) by simp
  have cok: "canvas_ok ce" using wf(4) i ce_i by simp
  have len: "length (show_int cid) \<le> 11" using req by (intro length_show_int) (simp_all add: int_limits)
  have toks: "request_tokens MAX_RPC_BUF_LEN 2 (show_int cid @ SPC # u) = [Some (show_int cid), Some u]"
    using strtoks_unwords [of "[show_int cid, u]" 2] req len show_int_word(1)
    by (simp add: request_tokens_def strncpy0_def MAX_RPC_BUF_LEN_def)
  have p: "parse_id (show_int cid) = Some cid" using req by (simp add: parse_id_def parse_int_show int_limits)
  have f: "find_user u R = Inr (Some t)" using find_user_rep [OF reg] t by simp
  show ?thesis
  proof (cases "shared_count ce = MAX_CLIENTS")
    case True
    then show ?thesis using ce toks p f by (cases "cv_ptr ce") (simp_all add: do_share_def ret1_def)
  next
    case False
    then have room: "shared_count ce < MAX_CLIENTS" "shared_count ce < length (cv_shared ce)"
      using cok by (simp_all add: canvas_ok_def)
    let ?e = "ce\<lparr>cv_shared := (cv_shared ce)[shared_count ce := Some t], shared_count := shared_count ce + 1\<rparr>"
    have ln: "i < length (items (CANVAS_TABLE tb))" using i by simp
    obtain T where T: "set_entry (CANVAS_TABLE tb) i ?e = Inr T" "table_wf sizeof_CanvasEntry T"
      "items T = (items (CANVAS_TABLE tb))[i := ?e]" using set_entry_wf [OF wf(1) ln, of ?e] by blast
    have "\<forall>e \<in> set (items T). canvas_ok e"
      unfolding T(3) by (rule set_update_subset) (use ln wf(4) cok room in \<open>auto simp: canvas_ok_def\<close>)
    then have "tables_ok (tb\<lparr>CANVAS_TABLE := T\<rparr>)" using ok T(2) by (intro tables_ok_update)
    moreover have "entry T i = Inr ?e" using entry_wf [OF T(2), of i] T(3) ln by simp
    moreover have "do_share R (show_int cid @ SPC # u) (tb, l) = Inr ((0, INT_MIN, INT_MIN), tb\<lparr>CANVAS_TABLE := T\<rparr>, l)"
      using ce toks p f room T(1) by (cases "cv_ptr ce") (simp_all add: do_share_def ret1_def)
    ultimately show ?thesis using False by (simp only: if_False, intro exI [of _ "tb\<lparr>CANVAS_TABLE := T\<rparr>"]) simp
  qed
qed

theorem share_stores_the_user_witness:
  "\<exists>tb'. do_share ann_twice ''0 ann'' (one_object, []) = Inr ((0, INT_MIN, INT_MIN), tb', []) \<and> tables_ok tb'"
proof -
  have s: "show_int 0 @ SPC # ''ann'' = ''0 ann''" by code_simp
  have "List.find (\<lambda>a. user_matches ''ann'' (cr_mem ann_twice a)) [2, 1] = Some 2"
    "\<forall>a \<in> set [2, 1]. names_set (cr_mem ann_twice a)"
    by (simp_all add: ann_twice_def two_clients_def user_matches_def names_set_def new_client_def)
  moreover have "is_word ''ann''" by (simp add: is_word_def c_isspace_def)
  ultimately show ?thesis
    using share_stores_the_user [OF one_object_ok ann_twice_rep, of "''ann''" 0 0 "new_canvas (Some 7) 1 30 20 0" 2 "[]"]
    unfolding s by (force simp: one_object_entry new_canvas_def int_limits MAX_CLIENTS_def)
qed

text \<open>one turn of a worker takes the oldest task, runs it, and frees it: the queue loses exactly its head, and the
  task is freed whatever the result is; on an empty queue the worker waits, and after shutdown it takes nothing.\<close>

theorem worker_turn_takes_oldest:
  assumes "tq_rep q (a # as)" and "run_task env (task_at q a) R S = Inr (r, evs, S1)"
  shows "\<exists>q'. worker_turn env True R (q, S) = Inr (Done (r, evs), q', S1)
    \<and> tq_rep q' as \<and> tq_mem q' = (tq_mem q)(a := None)"
proof -
  obtain q1 where q1: "task_dequeue True q = Inr (Got a, q1)" "tq_rep q1 as" "tq_mem q1 = tq_mem q"
    using task_dequeue_rep [OF assms(1)] by blast
  have m: "tq_mem q a \<noteq> None" and "a \<notin> set as"
    using assms(1) by (auto simp: tq_rep_def)
  then obtain t where t: "tq_mem q a = Some t" by auto
  obtain q2 where q2: "task_free a q1 = Inr q2" "tq_rep q2 as" "tq_mem q2 = (tq_mem q1)(a := None)"
    using task_free_rep [OF q1(2) \<open>a \<notin> set as\<close>] q1(3) m by auto
  show ?thesis
    using q1 q2 t assms(2) by (simp add: worker_turn_def task_at_def)
qed

definition one_task :: TaskQueue where
  "one_task = \<lparr>tq_head = Some 16, tq_tail = Some 16, tq_count = 1,
     tq_mem = [16 \<mapsto> \<lparr>t_type = BARRIER, t_info = ClientPtr (Some 1), t_data = Request ''0'', t_next = None\<rparr>]\<rparr>"

theorem worker_turn_takes_oldest_witness:
  "\<exists>q'. worker_turn log_env True two_clients (one_task, one_object, []) = Inr (Done (None, []), q', one_object, [])
    \<and> tq_rep q' []"
proof -
  have "tq_rep one_task [16]" by (simp add: tq_rep_def one_task_def valid_addr_def)
  moreover have "run_task log_env (task_at one_task 16) two_clients (one_object, []) = Inr (None, [], one_object, [])"
    by (simp add: run_task_def task_at_def one_task_def payload_def)
  ultimately show ?thesis using worker_turn_takes_oldest by blast
qed

end
