(* ===== verification/Server.thy ===== *)
theory Server
  imports Commands Handlers
begin

text \<open>
  The main loop of \<open>server/src/animate_server.c\<close>: what the main thread does with a handshake, with a result of the
  workers and with the requests of the clients. The work of the threads between two turns is in \<open>Handlers\<close>, the start and the
  teardown are in \<open>Startup\<close>, and \<open>System\<close> puts the two kinds of threads together.
\<close>

unbundle bit_operations_syntax

section \<open>State\<close>

text \<open>
  The globals the main thread works on. \<open>sv_in\<close> is what the kernel will answer to reads on each client's pipe,
  \<open>sv_out\<close> the trace of the calls to the operating system.
\<close>

record 'l server =
  sv_reg :: ClientRegistry
  sv_queue :: TaskQueue
  sv_tabs :: tables
  sv_lib :: 'l
  sv_slots :: PollSlots
  sv_running :: bool
  sv_retval :: ErrType
  sv_in :: "int \<Rightarrow> rd_event list"
  sv_out :: "os_event list"

definition emit :: "os_event list \<Rightarrow> 'l server \<Rightarrow> 'l server" where
  "emit evs s = s\<lparr>sv_out := sv_out s @ evs\<rparr>"

text \<open>The library and the allocators the main thread calls.\<close>

record 'l main_env =
  me_lib :: "'l animate"
  me_task :: allocator
  me_client :: "(addr \<rightharpoonup> ActiveClient) \<Rightarrow> addr option"
  me_pfds :: "nat \<Rightarrow> bool"
  me_slots :: "nat \<Rightarrow> bool"

section \<open>The registry operations on the whole state\<close>

definition remove_client :: "'l main_env \<Rightarrow> addr \<Rightarrow> 'l server \<Rightarrow> 'l server res" where
  "remove_client env a s =
     and_then (creg_remove (me_lib env) a (sv_reg s, sv_tabs s, sv_lib s)) (\<lambda>(evs, R, tb, l).
       Inr (emit evs (s\<lparr>sv_reg := R, sv_tabs := tb, sv_lib := l\<rparr>)))"

definition release_client :: "addr \<Rightarrow> 'l server \<Rightarrow> 'l server res" where
  "release_client a s =
     and_then (creg_release_client a (sv_reg s)) (\<lambda>(evs, R). Inr (emit evs (s\<lparr>sv_reg := R\<rparr>)))"

definition client_field :: "(ActiveClient \<Rightarrow> 'v) \<Rightarrow> addr \<Rightarrow> 'l server \<Rightarrow> 'v res" where
  "client_field f a s = and_then (load (cr_mem (sv_reg s)) a) (\<lambda>c. Inr (f c))"

definition set_client :: "(ActiveClient \<Rightarrow> ActiveClient) \<Rightarrow> addr \<Rightarrow> 'l server \<Rightarrow> 'l server res" where
  "set_client f a s = and_then (upd_client a f (sv_reg s)) (\<lambda>R. Inr (s\<lparr>sv_reg := R\<rparr>))"

definition unpoll :: "int \<Rightarrow> 'l server \<Rightarrow> 'l server res" where
  "unpoll fd s = and_then (server_remove_pollslots fd (sv_slots s)) (\<lambda>S. Inr (s\<lparr>sv_slots := S\<rparr>))"

section \<open>Results of the workers\<close>

text \<open>The text sent for the three numbers of a reply: as many of them as are not \<open>INT_MIN\<close>.\<close>

definition reply_text :: "int \<Rightarrow> int \<Rightarrow> int \<Rightarrow> string" where
  "reply_text a b c = snprintf MAX_RPC_BUF_LEN
     (if c \<noteq> INT_MIN then show_int a @ SPC # show_int b @ SPC # show_int c @ [NL]
      else if b \<noteq> INT_MIN then show_int a @ SPC # show_int b @ [NL]
      else show_int a @ [NL])"

definition MSG_REJECT_BALANCE :: string where "MSG_REJECT_BALANCE = ''Reject BALANCE'' @ [NL]"
definition MSG_REJECT_UNAUTHORISED :: string where "MSG_REJECT_UNAUTHORISED = ''Reject UNAUTHORISED'' @ [NL]"

definition on_handshake :: "'l main_env \<Rightarrow> int \<Rightarrow> int \<Rightarrow> int \<Rightarrow> 'l server \<Rightarrow> 'l server res" where
  "on_handshake env pid c2s s2c s =
     and_then (creg_insert (me_client env (cr_mem (sv_reg s))) pid c2s s2c (sv_reg s)) (\<lambda>(client, R).
       case client of
         None \<Rightarrow> Inr (emit (destroy_client_pipes pid c2s s2c) (s\<lparr>sv_reg := R\<rparr>))
       | Some a \<Rightarrow>
           and_then (server_insert_pollslots (me_pfds env) (me_slots env) c2s (Some a) (sv_slots s)) (\<lambda>(e, S).
             if e \<noteq> SUCCESS then remove_client env a (s\<lparr>sv_reg := R, sv_slots := S, sv_retval := GROW_FAIL\<rparr>)
             else Inr (s\<lparr>sv_reg := R, sv_slots := S\<rparr>)))"

text \<open>The client is released before its fields are used.\<close>

definition on_auth_ok :: "addr \<Rightarrow> string \<Rightarrow> int \<Rightarrow> 'l server \<Rightarrow> 'l server res" where
  "on_auth_ok a name balance s =
     and_then (client_field client_pid a s) (\<lambda>pid.
     and_then (release_client a s) (\<lambda>s1.
     and_then (set_client (\<lambda>c. c\<lparr>username := Some (strncpy0 name (MAX_USERNAME_LEN - 1))\<rparr>) a s1) (\<lambda>s2.
     and_then (client_field s2c_fd a s2) (\<lambda>fd.
       set_client (\<lambda>c. c\<lparr>logged_in := True\<rparr>) a
         (emit [WriteTo fd (snprintf 64 (show_int balance @ [NL]))] s2)))))"

text \<open>\<open>AUTH_NO\<close> and \<open>AUTH_UN\<close> differ in the message.\<close>

definition on_reject :: "'l main_env \<Rightarrow> string \<Rightarrow> addr \<Rightarrow> 'l server \<Rightarrow> 'l server res" where
  "on_reject env msg a s =
     and_then (release_client a s) (\<lambda>s1.
     and_then (client_field c2s_fd a s1) (\<lambda>fd.
     and_then (unpoll fd s1) (\<lambda>s2.
     and_then (client_field s2c_fd a s2) (\<lambda>wfd.
       remove_client env a (emit [WriteTo wfd msg, Sleep] s2)))))"

definition on_rpc_done :: "addr \<Rightarrow> int \<Rightarrow> int \<Rightarrow> int \<Rightarrow> 'l server \<Rightarrow> 'l server res" where
  "on_rpc_done client a b c s =
     and_then (release_client client s) (\<lambda>s1.
     and_then (client_field s2c_fd client s1) (\<lambda>fd.
       Inr (emit [WriteTo fd (reply_text a b c)] s1)))"

definition dispatch_result :: "'l main_env \<Rightarrow> TaskResult \<Rightarrow> 'l server \<Rightarrow> 'l server res" where
  "dispatch_result env r s = (case r of
     ResHsk pid c2s s2c \<Rightarrow> on_handshake env pid c2s s2c s
   | ResAuthOk a name balance \<Rightarrow> on_auth_ok a name balance s
   | ResAuthNo a \<Rightarrow> on_reject env MSG_REJECT_BALANCE a s
   | ResAuthUn a \<Rightarrow> on_reject env MSG_REJECT_UNAUTHORISED a s
   | ResRpc client a b c \<Rightarrow> on_rpc_done client a b c s)"

section \<open>The two self pipes\<close>

text \<open>
  One \<open>read_nonblock_pipe\<close> of a whole record: the record, or the code of the failure. The writers write a
  record with one call, and a record is shorter than \<open>PIPE_BUF\<close>. \<open>True\<close> is the jump to \<open>mainloop_end\<close>.
\<close>

datatype 'm record_read = Rec 'm | NoRec ErrType

definition HSK_MAX_PER_WAKE :: nat where "HSK_MAX_PER_WAKE = 5"
definition RPC_MAX_PER_WAKE :: nat where "RPC_MAX_PER_WAKE = 5"
definition FIFO_MAX_PER_WAKE :: nat where "FIFO_MAX_PER_WAKE = 5"

definition pipe_failed :: "ErrType \<Rightarrow> 'l server \<Rightarrow> 'l server" where
  "pipe_failed e s = s\<lparr>sv_running := False,
     sv_retval := if e \<in> {PIPE_CLOSED, PIPE_PARTIAL, PIPE_READ_FAIL} then e else FAIL\<rparr>"

fun self_pipe_loop ::
  "('m \<Rightarrow> 'l server \<Rightarrow> 'l server res) \<Rightarrow> nat \<Rightarrow> 'm record_read list \<Rightarrow> 'l server \<Rightarrow> (bool \<times> 'l server) res" where
  "self_pipe_loop handle 0 reads s = Inr (False, s)"
| "self_pipe_loop handle (Suc k) reads s =
     (if \<not> sv_running s then Inr (False, s)
      else case reads of
          [] \<Rightarrow> Inr (False, s)
        | NoRec e # rest \<Rightarrow> if e = PIPE_EMPTY then Inr (False, s) else Inr (True, pipe_failed e s)
        | Rec m # rest \<Rightarrow> and_then (handle m s) (\<lambda>s1. self_pipe_loop handle k rest s1))"

text \<open>A process that has sent \<open>SIGUSR1\<close>: its handshake is queued, whether or not there is memory for the task.\<close>

definition queue_handshake :: "'l main_env \<Rightarrow> int \<Rightarrow> 'l server \<Rightarrow> 'l server res" where
  "queue_handshake env pid s =
     and_then (enqueue (me_task env) HANDSHAKE pid None None (sv_queue s, sv_retval s)) (\<lambda>(q, rv).
       Inr (s\<lparr>sv_queue := q, sv_retval := rv\<rparr>))"

section \<open>Requests of the clients\<close>

text \<open>
  At most five lines of one client. A read that finds nothing more returns \<open>PIPE_EMPTY\<close>. The client of a
  slot above the first two is never the null pointer.
\<close>

fun request_loop ::
  "allocator \<Rightarrow> addr option \<Rightarrow> nat \<Rightarrow> rd_event list \<Rightarrow> cmd_state \<Rightarrow> (bool \<times> rd_event list \<times> cmd_state) res" where
  "request_loop malloc client 0 evs S = Inr (False, evs, S)"
| "request_loop malloc client (Suc k) evs S =
     (case read_until_delim MAX_RPC_BUF_LEN NL evs of
        None \<Rightarrow> Inr (False, [], S)
      | Some (r, request, rest) \<Rightarrow>
          if r = SUCCESS then
            (case client of
               None \<Rightarrow> Inl NullDeref
             | Some a \<Rightarrow> and_then (handle_command malloc a (c_str request) S) (\<lambda>(remove_client, S1).
                 if remove_client then Inr (True, rest, S1) else request_loop malloc client k rest S1))
          else if r = PIPE_EMPTY then Inr (False, rest, S)
          else if r = PIPE_CLOSED \<or> r = PIPE_READ_FAIL then Inr (True, rest, S)
          else request_loop malloc client k rest S)"

definition visit_slot :: "'l main_env \<Rightarrow> slot \<Rightarrow> 'l server \<Rightarrow> (bool \<times> 'l server) res" where
  "visit_slot env x s = (case x of (p, client) \<Rightarrow>
     if p_revents p AND (POLLERR OR POLLNVAL) \<noteq> 0 then Inr (True, s)
     else if p_revents p AND (POLLIN OR POLLHUP) \<noteq> 0 then
       and_then (request_loop (me_task env) client FIFO_MAX_PER_WAKE (sv_in s (p_fd p))
                   (sv_reg s, sv_queue s, sv_retval s)) (\<lambda>(to_remove, rest, R, q, rv).
         Inr (to_remove, s\<lparr>sv_in := (sv_in s)(p_fd p := rest), sv_reg := R, sv_queue := q, sv_retval := rv\<rparr>))
     else Inr (False, s))"

text \<open>\<open>creg_remove\<close> of a slot's client; the null pointer is ignored.\<close>

definition drop_slot_client :: "'l main_env \<Rightarrow> slot \<Rightarrow> 'l server \<Rightarrow> 'l server res" where
  "drop_slot_client env x s = (case snd x of None \<Rightarrow> Inr s | Some a \<Rightarrow> remove_client env a s)"

definition client_requests :: "'l main_env \<Rightarrow> 'l server \<Rightarrow> 'l server res" where
  "client_requests env s =
     and_then (slot_loop sv_running (visit_slot env) (drop_slot_client env) 2 (sv_slots s) s) (\<lambda>(S, s1).
       Inr (s1\<lparr>sv_slots := S\<rparr>))"

section \<open>One turn of the main loop\<close>

text \<open>\<open>poll\<close> sets the events of every slot in use, or fails.\<close>

definition set_revents :: "(int \<Rightarrow> 16 word) \<Rightarrow> PollSlots \<Rightarrow> PollSlots" where
  "set_revents ready S = S\<lparr>ps_fds := map (map_option (\<lambda>p. p\<lparr>p_revents := ready (p_fd p)\<rparr>)) (take (ps_count S) (ps_fds S))
                                  @ drop (ps_count S) (ps_fds S)\<rparr>"

datatype poll_answer = PollErr errno | Polled "int \<Rightarrow> 16 word"

datatype turn_end = Next | Leave

definition main_turn ::
  "'l main_env \<Rightarrow> poll_answer \<Rightarrow> int record_read list \<Rightarrow> TaskResult record_read list \<Rightarrow> 'l server
   \<Rightarrow> (turn_end \<times> 'l server) res" where
  "main_turn env answer hsk_reads rpc_reads s = (case answer of
     PollErr e \<Rightarrow> if e = EINTR then Inr (Next, s) else Inr (Leave, s)
   | Polled ready \<Rightarrow>
       let s0 = s\<lparr>sv_slots := set_revents ready (sv_slots s)\<rparr>
       in and_then (slot (sv_slots s0) 0) (\<lambda>(hsk, c0).
          and_then (if p_revents hsk AND POLLIN \<noteq> 0
                    then self_pipe_loop (queue_handshake env) HSK_MAX_PER_WAKE hsk_reads s0
                    else Inr (False, s0)) (\<lambda>(stop1, s1).
          if stop1 then Inr (Next, s1)
          else
            and_then (slot (sv_slots s1) 1) (\<lambda>(rpc, c1).
            and_then (if p_revents rpc AND POLLIN \<noteq> 0
                      then self_pipe_loop (dispatch_result env) RPC_MAX_PER_WAKE rpc_reads s1
                      else Inr (False, s1)) (\<lambda>(stop2, s2).
            if stop2 then Inr (Next, s2)
            else and_then (client_requests env s2) (\<lambda>s3. Inr (Next, s3)))))))"

end
