(* ===== verification/Startup.thy ===== *)
theory Startup
  imports Server
begin

text \<open>
  The start and the end of the server: the signal handlers of \<open>server/src/s_helper.c\<close>, the creation and the joining of
  the threads in \<open>threadpool.c\<close>, and \<open>main\<close> before and after its loop.
\<close>

section \<open>Signals\<close>

datatype signal = SIGUSR1 | SIGUSR2 | SIGALRM | SIGINT | SIGTERM | SIGQUIT | SIGHUP | SIGPIPE
datatype handler = Sigusr1Handler | ShutdownHandler | Ignored

text \<open>The calls of \<open>sigaction\<close> in their order: the first that fails stops the set-up; \<open>ok\<close> is the kernel's answer.\<close>

fun install :: "(signal \<Rightarrow> bool) \<Rightarrow> (signal \<times> 'h) list \<Rightarrow> (signal \<rightharpoonup> 'h) \<Rightarrow> ErrType \<times> (signal \<rightharpoonup> 'h)" where
  "install accepted [] hs = (SUCCESS, hs)"
| "install accepted ((sig, h) # rest) hs =
     (if accepted sig then install accepted rest (hs(sig \<mapsto> h)) else (SIG_FAIL, hs))"

definition server_setup_signals :: "(signal \<Rightarrow> bool) \<Rightarrow> ErrType \<times> (signal \<rightharpoonup> handler)" where
  "server_setup_signals accepted = install accepted
     [(SIGUSR1, Sigusr1Handler), (SIGINT, ShutdownHandler), (SIGTERM, ShutdownHandler), (SIGQUIT, ShutdownHandler),
      (SIGHUP, ShutdownHandler), (SIGPIPE, Ignored)] Map.empty"

text \<open>
  What a handler does: \<open>sigusr1_handler\<close> writes the pid of the sender to the handshake pipe, where \<open>room\<close> says whether it
  has room for it, the result of the write being ignored; \<open>shutdown_handler\<close> clears \<open>RUNNING\<close>.
\<close>

definition deliver :: "handler \<Rightarrow> int \<Rightarrow> bool \<Rightarrow> int list \<times> bool \<Rightarrow> int list \<times> bool" where
  "deliver h pid room S = (case h of
     Sigusr1Handler \<Rightarrow> (if room then fst S @ [pid] else fst S, snd S)
   | ShutdownHandler \<Rightarrow> (fst S, False)
   | Ignored \<Rightarrow> S)"

section \<open>Threads\<close>

text \<open>The array of threads: the null pointer, a block whose cells are threads that run or have been joined or were
  never written, or freed.\<close>

datatype thread = Unwritten | Runs | Joined
datatype thread_array = NoThreads | Threads "thread list" | FreedThreads

record ThreadPool =
  tp_size :: int
  tp_threads :: thread_array

text \<open>\<open>argv\<close> without the name of the program. The first component is also stored in \<open>retval\<close> unless it is \<open>SUCCESS\<close>.\<close>

definition get_threadpool_size :: "string list \<Rightarrow> ThreadPool \<Rightarrow> ErrType \<times> ThreadPool" where
  "get_threadpool_size args tp = (case args of
     [] \<Rightarrow> (TOO_FEW, tp)
   | [a] \<Rightarrow>
       let tp1 = tp\<lparr>tp_size := atol a\<rparr>
       in if tp_size tp1 \<le> 0 then (POOL_FAIL, tp1)
          else if 0 < tp_size tp1 then (SUCCESS, tp1)
          else (INV_ARG, tp1)
   | _ \<Rightarrow> (TOO_MANY, tp))"

text \<open>\<open>pthread_join(threads[i])\<close>.\<close>

definition join_thread :: "nat \<Rightarrow> thread_array \<Rightarrow> thread_array res" where
  "join_thread i ts = (case ts of
     NoThreads \<Rightarrow> Inl NullDeref
   | FreedThreads \<Rightarrow> Inl (UseAfterFree 0)
   | Threads xs \<Rightarrow> and_then (peek xs i) (\<lambda>t.
       if t = Runs then Inr (Threads (xs[i := Joined])) else Inl Uninitialised))"

fun join_all :: "nat list \<Rightarrow> thread_array \<Rightarrow> thread_array res" where
  "join_all [] ts = Inr ts"
| "join_all (i # is) ts = and_then (join_thread i ts) (join_all is)"

text \<open>
  The loop that creates the threads: \<open>created\<close> is also its index. A failure clears \<open>RUNNING\<close>, joins what has been created and
  frees the array, but leaves \<open>tpool_threads\<close> and \<open>TPOOL_SIZE\<close> as they are.
\<close>

function create_loop :: "(nat \<Rightarrow> bool) \<Rightarrow> nat \<Rightarrow> bool \<times> ThreadPool \<Rightarrow> (ErrType \<times> bool \<times> ThreadPool) res" where
  "create_loop create i S = (case S of (running, tp) \<Rightarrow>
     if i < nat (tp_size tp) then
       (case tp_threads tp of
          Threads xs \<Rightarrow>
            if create i then
              and_then (poke xs i Runs) (\<lambda>ys. create_loop create (Suc i) (running, tp\<lparr>tp_threads := Threads ys\<rparr>))
            else and_then (join_all [0..<i] (tp_threads tp)) (\<lambda>ts.
                   Inr (POOL_FAIL, False, tp\<lparr>tp_threads := FreedThreads\<rparr>))
        | _ \<Rightarrow> Inl NullDeref)
     else Inr (SUCCESS, running, tp))"
  by pat_completeness auto
termination
  by (relation "measure (\<lambda>(c, i, running, tp). nat (tp_size tp) - i)") auto

declare create_loop.simps [simp del]

text \<open>The size of the array is a product of \<open>size_t\<close>, which may wrap around.\<close>

definition threads_allocated :: "int \<Rightarrow> nat" where
  "threads_allocated n = nat ((8 * n) mod 2 ^ 64 div 8)"

definition threadpool_init :: "bool \<Rightarrow> (nat \<Rightarrow> bool) \<Rightarrow> bool \<times> ThreadPool \<Rightarrow> (ErrType \<times> bool \<times> ThreadPool) res" where
  "threadpool_init alloc create S =
     (if \<not> alloc then Inr (POOL_FAIL, S)
      else create_loop create 0 (fst S, (snd S)\<lparr>tp_threads := Threads (replicate (threads_allocated (tp_size (snd S))) Unwritten)\<rparr>))"

definition threadpool_destroy :: "bool \<Rightarrow> ThreadPool \<Rightarrow> ThreadPool res" where
  "threadpool_destroy running tp =
     (if running then Inr tp
      else and_then (join_all [0..<nat (tp_size tp)] (tp_threads tp)) (\<lambda>ts.
        case ts of FreedThreads \<Rightarrow> Inl (UseAfterFree 0) | _ \<Rightarrow> Inr (tp\<lparr>tp_threads := NoThreads\<rparr>)))"

section \<open>Start and teardown\<close>

text \<open>The answers of the system at the start: the self pipes, the arrays of the slots, the threads, the signals.\<close>

record start_env =
  st_hsk :: "(int \<times> int) option"
  st_rpc :: "(int \<times> int) option"
  st_pfds :: bool
  st_clients :: bool
  st_threads :: bool
  st_create :: "nat \<Rightarrow> bool"
  st_signals :: "signal \<Rightarrow> bool"

text \<open>The globals at the start of the program: \<open>HANDSHAKE_PIPE\<close>, \<open>RPC_PIPE\<close> and \<open>POLLSLOTS\<close> are zero.\<close>

definition no_pipes :: self_pipes where
  "no_pipes = \<lparr>hsk_r = 0, hsk_w = 0, rpc_r = 0, rpc_w = 0\<rparr>"

definition no_slots :: PollSlots where
  "no_slots = \<lparr>ps_fds = [], ps_clients = [], ps_capacity = 0, ps_count = 0\<rparr>"

definition initial_server :: "'l \<Rightarrow> PollSlots \<Rightarrow> bool \<Rightarrow> ErrType \<Rightarrow> 'l server" where
  "initial_server l S running rv = \<lparr>sv_reg = creg_init, sv_queue = task_init, sv_tabs = tables_init, sv_lib = l,
     sv_slots = S, sv_running = running, sv_retval = rv, sv_in = (\<lambda>fd. []), sv_out = []\<rparr>"

text \<open>What the two arrays hold after the calls of \<open>pipe2\<close>: the second is not called when the first fails.\<close>

definition opened_pipes :: "(int \<times> int) option \<Rightarrow> (int \<times> int) option \<Rightarrow> self_pipes" where
  "opened_pipes hsk rpc = (case hsk of
     None \<Rightarrow> no_pipes
   | Some (hr, hw) \<Rightarrow> (case rpc of
       None \<Rightarrow> no_pipes\<lparr>hsk_r := hr, hsk_w := hw\<rparr>
     | Some (rr, rw) \<Rightarrow> \<lparr>hsk_r = hr, hsk_w = hw, rpc_r = rr, rpc_w = rw\<rparr>))"

text \<open>
  \<open>main\<close> up to the loop: whether the loop is reached, the pipes, the pool and the state. The value of a failed \<open>threadpool_init\<close> is not stored in
  \<open>retval\<close>.
\<close>

definition server_start ::
  "start_env \<Rightarrow> string list \<Rightarrow> 'l \<Rightarrow> (bool \<times> self_pipes \<times> ThreadPool \<times> 'l server) res" where
  "server_start env args l =
     (let (e, tp) = get_threadpool_size args \<lparr>tp_size = 0, tp_threads = NoThreads\<rparr>
      in if e \<noteq> SUCCESS then Inr (False, no_pipes, tp, initial_server l no_slots True e)
         else
           and_then (server_setup_pipes (st_hsk env) (st_rpc env) (st_pfds env) (st_clients env)) (\<lambda>(e1, made).
             case made of
               None \<Rightarrow> Inr (False, opened_pipes (st_hsk env) (st_rpc env), tp, initial_server l no_slots True e1)
             | Some (P, S) \<Rightarrow>
                 and_then (threadpool_init (st_threads env) (st_create env) (True, tp)) (\<lambda>(e2, running, tp1).
                   if e2 \<noteq> SUCCESS then Inr (False, P, tp1, initial_server l S running SUCCESS)
                   else
                     let e3 = fst (server_setup_signals (st_signals env))
                     in if e3 \<noteq> SUCCESS then Inr (False, P, tp1, initial_server l S running e3)
                        else Inr (True, P, tp1, initial_server l S running SUCCESS))))"

text \<open>An array that has been freed is a block without a cell: its pointer is not cleared, and any access is out of bounds.\<close>

definition server_destroy_pollslots :: "bool \<Rightarrow> PollSlots \<Rightarrow> PollSlots" where
  "server_destroy_pollslots running S = (if running then S else S\<lparr>ps_fds := [], ps_clients := []\<rparr>)"

definition free_arr :: "'e table \<Rightarrow> 'e table" where
  "free_arr T = T\<lparr>arr := map_option (\<lambda>a. []) (arr T)\<rparr>"

definition tables_destroy :: "tables \<Rightarrow> tables" where
  "tables_destroy tb = \<lparr>CANVAS_TABLE = free_arr (CANVAS_TABLE tb), SPRITE_TABLE = free_arr (SPRITE_TABLE tb),
     PLACEMENT_TABLE = free_arr (PLACEMENT_TABLE tb)\<rparr>"

text \<open>
  The teardown: the threads are joined, the self pipes closed, the arrays of the slots and of the tables freed, the clients destroyed, the
  queue freed. The last component is what \<open>main\<close> returns.
\<close>

definition teardown ::
  "self_pipes \<Rightarrow> ThreadPool \<Rightarrow> 'l server \<Rightarrow> (os_event list \<times> 'l server \<times> int) res" where
  "teardown P tp s =
     (let s0 = s\<lparr>sv_running := False\<rparr>
      in and_then (threadpool_destroy (sv_running s0) tp) (\<lambda>tp1.
         let evs0 = server_destroy_selfpipes (sv_running s0) P;
             s1 = s0\<lparr>sv_slots := server_destroy_pollslots (sv_running s0) (sv_slots s0), sv_tabs := tables_destroy (sv_tabs s0)\<rparr>
         in and_then (creg_destroy (sv_running s1) (sv_reg s1)) (\<lambda>(evs, R).
              case task_destroy (sv_running s1) (sv_queue s1) of
                None \<Rightarrow> Inl Diverges
              | Some q \<Rightarrow> and_then q (\<lambda>q1.
                  Inr (evs0 @ evs, s1\<lparr>sv_reg := R, sv_queue := q1\<rparr>, exit_status (sv_retval s1))))))"

section \<open>Creating and joining\<close>

lemma join_all_runs:
  "j \<le> k \<Longrightarrow> k \<le> length xs \<Longrightarrow> \<forall>i. j \<le> i \<and> i < k \<longrightarrow> xs ! i = Runs \<Longrightarrow>
   join_all [j..<k] (Threads xs) = Inr (Threads (take j xs @ replicate (k - j) Joined @ drop k xs))"
proof (induction "k - j" arbitrary: j xs)
  case 0
  then show ?case by simp
next
  case (Suc d)
  then have j: "j < k" "j < length xs" and up: "[j..<k] = j # [Suc j..<k]" by (simp_all add: upt_conv_Cons)
  have "join_all [Suc j..<k] (Threads (xs[j := Joined])) = Inr (Threads (take (Suc j) (xs[j := Joined])
      @ replicate (k - Suc j) Joined @ drop k (xs[j := Joined])))"
    using Suc.prems j Suc.hyps(2) by (intro Suc.hyps(1)) auto
  moreover have "k - j = Suc (k - Suc j)" using j by simp
  ultimately show ?case using Suc.prems up j by (simp add: join_thread_def take_list_update_snoc)
qed

text \<open>The array in which the first \<open>i\<close> of \<open>n\<close> threads run.\<close>

definition started :: "nat \<Rightarrow> nat \<Rightarrow> thread list" where
  "started i n = replicate i Runs @ replicate (n - i) Unwritten"

lemma started_step: "i < n \<Longrightarrow> poke (started i n) i Runs = Inr (started (Suc i) n)"
  by (auto simp: started_def list_update_append Suc_diff_Suc [symmetric] replicate_app_Cons_same)

lemma create_loop_step:
  "i < nat (tp_size tp) \<Longrightarrow> create i \<Longrightarrow> tp_threads tp = Threads (started i (nat (tp_size tp))) \<Longrightarrow>
   create_loop create i (running, tp)
     = create_loop create (Suc i) (running, tp\<lparr>tp_threads := Threads (started (Suc i) (nat (tp_size tp)))\<rparr>)"
  by (subst create_loop.simps) (simp add: started_step)

lemma create_loop_reaches:
  assumes "\<forall>i < k. create i" and "k \<le> nat (tp_size tp)" and "tp_threads tp = Threads (started 0 (nat (tp_size tp)))"
  shows "create_loop create 0 (running, tp)
    = create_loop create k (running, tp\<lparr>tp_threads := Threads (started k (nat (tp_size tp)))\<rparr>)"
  using assms
proof (induction k)
  case 0
  then have "tp\<lparr>tp_threads := Threads (started 0 (nat (tp_size tp)))\<rparr> = tp" by simp
  then show ?case by metis
next
  case (Suc k)
  then show ?case
    using create_loop_step [of k "tp\<lparr>tp_threads := Threads (started k (nat (tp_size tp)))\<rparr>" create running] by simp
qed

lemma threads_allocated_small: "0 \<le> n \<Longrightarrow> n < 2 ^ 61 \<Longrightarrow> threads_allocated n = nat n"
  by (simp add: threads_allocated_def)

lemma started_0: "started 0 n = replicate n Unwritten"
  by (simp add: started_def)

lemma threadpool_init_ok:
  assumes "0 \<le> tp_size tp" and "tp_size tp < 2 ^ 61" and "\<forall>i < nat (tp_size tp). create i"
  shows "threadpool_init True create (running, tp)
    = Inr (SUCCESS, running, tp\<lparr>tp_threads := Threads (replicate (nat (tp_size tp)) Runs)\<rparr>)"
  using create_loop_reaches [of "nat (tp_size tp)" create "tp\<lparr>tp_threads := Threads (started 0 (nat (tp_size tp)))\<rparr>" running] assms
  by (simp add: threadpool_init_def threads_allocated_small started_0 create_loop.simps [of _ "nat (tp_size tp)"] started_def)

lemma threadpool_init_fails:
  assumes "tp_size tp < 2 ^ 61" and k: "int k < tp_size tp" "\<not> create k" "\<forall>i < k. create i"
  shows "threadpool_init True create (running, tp) = Inr (POOL_FAIL, False, tp\<lparr>tp_threads := FreedThreads\<rparr>)"
proof -
  let ?n = "nat (tp_size tp)"
  have kn: "k < ?n" using k(1) by simp
  have "join_all [0..<k] (Threads (started k ?n)) = Inr (Threads (replicate k Joined @ drop k (started k ?n)))"
    using join_all_runs [of 0 k "started k ?n"] kn by (simp add: started_def nth_append)
  then have "create_loop create k (running, tp\<lparr>tp_threads := Threads (started k ?n)\<rparr>)
      = Inr (POOL_FAIL, False, tp\<lparr>tp_threads := FreedThreads\<rparr>)"
    using kn k(2) by (simp add: create_loop.simps [of _ k])
  then show ?thesis
    using create_loop_reaches [of k create "tp\<lparr>tp_threads := Threads (started 0 ?n)\<rparr>" running] assms(1) k(3) kn
    by (simp add: threadpool_init_def threads_allocated_small started_0)
qed

section \<open>Properties\<close>

lemma get_threadpool_size_number:
  "1 \<le> n \<Longrightarrow> n \<le> LONG_MAX \<Longrightarrow> get_threadpool_size [show_int n] tp = (SUCCESS, tp\<lparr>tp_size := n\<rparr>)"
  using strtol_show_int [of n "[]"] by (simp add: get_threadpool_size_def atol_def LONG_MIN_def)

text \<open>The end of a server whose \<open>n\<close> threads run.\<close>

lemma join_all_running: "join_all [0..<n] (Threads (replicate n Runs)) = Inr (Threads (replicate n Joined))"
  using join_all_runs [of 0 n "replicate n Runs"] by simp

lemma threadpool_destroy_running:
  "tp_threads tp = Threads (replicate (nat (tp_size tp)) Runs) \<Longrightarrow>
   threadpool_destroy False tp = Inr (tp\<lparr>tp_threads := NoThreads\<rparr>)"
  by (simp add: threadpool_destroy_def join_all_running)

lemma teardown_running:
  assumes "tp_threads tp = Threads (replicate (nat (tp_size tp)) Runs)"
    and "reg_rep (sv_reg s) as" and "tq_inv (sv_queue s)"
  shows "\<exists>s'. teardown P tp s = Inr (server_destroy_selfpipes False P @ concat (map (pipes_at (cr_mem (sv_reg s))) as), s', exit_status (sv_retval s))
    \<and> sv_reg s' = \<lparr>cr_clients = None, cr_count = 0, cr_mem = cr_mem (sv_reg s) |` (- set as)\<rparr>
    \<and> tq_head (sv_queue s') = None
    \<and> (\<forall>a. tq_mem (sv_queue s') a = (if a \<in> set (tq_addrs (sv_queue s)) then None else tq_mem (sv_queue s) a))
    \<and> ps_fds (sv_slots s') = [] \<and> ps_clients (sv_slots s') = [] \<and> sv_tabs s' = tables_destroy (sv_tabs s)"
proof -
  have "path (tq_mem (sv_queue s)) (tq_head (sv_queue s)) (tq_addrs (sv_queue s))" "distinct (tq_addrs (sv_queue s))"
    using assms(3) by (simp_all add: tq_inv_def tq_rep_def)
  from task_destroy_rep [OF this] show ?thesis
    using creg_destroy_lpath [of "cr_mem (sv_reg s)" None "cr_clients (sv_reg s)" as "[]"] assms(1,2)
    by (auto simp: teardown_def threadpool_destroy_running creg_destroy_def task_destroy_def reg_rep_def Let_def
        server_destroy_pollslots_def cong: if_cong)
qed


definition two_connected :: "lib_call list server" where
  "two_connected = (initial_server [] three_slots False SUCCESS)\<lparr>sv_reg := two_clients\<rparr>"


text \<open>Every call of a start with \<open>n\<close> threads succeeds.\<close>

definition all_granted :: "start_env \<Rightarrow> int \<Rightarrow> bool" where
  "all_granted env n \<longleftrightarrow> st_hsk env \<noteq> None \<and> st_rpc env \<noteq> None \<and> st_pfds env \<and> st_clients env \<and> st_threads env
     \<and> list_all (st_create env) [0..<nat n]
     \<and> list_all (st_signals env) [SIGUSR1, SIGINT, SIGTERM, SIGQUIT, SIGHUP, SIGPIPE]"

lemma setup_signals_ok:
  "fst (server_setup_signals accepted)
     = (if list_all accepted [SIGUSR1, SIGINT, SIGTERM, SIGQUIT, SIGHUP, SIGPIPE] then SUCCESS else SIG_FAIL)"
  by (simp add: server_setup_signals_def)

lemma least_refused: "\<not> list_all P [0..<n] \<Longrightarrow> \<exists>k < n. \<not> P k \<and> (\<forall>i < k. P i)" for P :: "nat \<Rightarrow> bool"
  using exists_least_iff [of "\<lambda>k. k < n \<and> \<not> P k"] by (auto simp: list_all_iff)

definition pool :: "int \<Rightarrow> thread_array \<Rightarrow> ThreadPool" where
  "pool n ts = \<lparr>tp_size = n, tp_threads = ts\<rparr>"

text \<open>The four ways a start with an acceptable number of threads can end.\<close>

lemma server_start_cases:
  assumes n: "1 \<le> n" "n < 2 ^ 61"
  obtains (no_pipes) P e where "server_start env [show_int n] l = Inr (False, P, pool n NoThreads, initial_server l no_slots True e)"
      "\<not> all_granted env n" "e \<noteq> SIG_FAIL"
    | (no_array) P S where "server_start env [show_int n] l = Inr (False, P, pool n NoThreads, initial_server l S True SUCCESS)"
      "\<not> all_granted env n"
    | (no_thread) P S where "server_start env [show_int n] l = Inr (False, P, pool n FreedThreads, initial_server l S False SUCCESS)"
      "\<not> all_granted env n"
    | (no_signal) P S where "server_start env [show_int n] l
        = Inr (False, P, pool n (Threads (replicate (nat n) Runs)), initial_server l S True SIG_FAIL)" "\<not> all_granted env n"
    | (started) hr hw rr rw S where "st_hsk env = Some (hr, hw)" "st_rpc env = Some (rr, rw)"
      "server_start env [show_int n] l = Inr (True, \<lparr>hsk_r = hr, hsk_w = hw, rpc_r = rr, rpc_w = rw\<rparr>,
         pool n (Threads (replicate (nat n) Runs)), initial_server l S True SUCCESS)"
      "slots_wf S" "slots S = [(\<lparr>p_fd = hr, p_events = POLLIN, p_revents = 0\<rparr>, None),
                               (\<lparr>p_fd = rr, p_events = POLLIN, p_revents = 0\<rparr>, None)]" "all_granted env n"
proof -
  have size: "get_threadpool_size [show_int n] \<lparr>tp_size = 0, tp_threads = NoThreads\<rparr> = (SUCCESS, pool n NoThreads)"
    using n by (simp add: get_threadpool_size_number LONG_MAX_def pool_def)
  show thesis
  proof (cases "st_hsk env = None \<or> st_rpc env = None \<or> \<not> st_pfds env \<or> \<not> st_clients env")
    case True
    then have "\<exists>e \<in> {PIPE_FAIL, POLLFD_FAIL}.
        server_setup_pipes (st_hsk env) (st_rpc env) (st_pfds env) (st_clients env) = Inr (e, None)"
      by (auto simp: server_setup_pipes_def split: option.split)
    then obtain e where
      "e \<in> {PIPE_FAIL, POLLFD_FAIL}" "server_setup_pipes (st_hsk env) (st_rpc env) (st_pfds env) (st_clients env) = Inr (e, None)"
      by blast
    then have "server_start env [show_int n] l
        = Inr (False, opened_pipes (st_hsk env) (st_rpc env), pool n NoThreads, initial_server l no_slots True e)"
      using size by (auto simp: server_start_def)
    moreover have "\<not> all_granted env n" using True by (auto simp only: all_granted_def)
    ultimately show thesis using \<open>e \<in> _\<close> by (intro no_pipes) auto
  next
    case False
    then obtain hr hw rr rw where sys: "st_hsk env = Some (hr, hw)" "st_rpc env = Some (rr, rw)" "st_pfds env" "st_clients env"
      by fast
    let ?P = "\<lparr>hsk_r = hr, hsk_w = hw, rpc_r = rr, rpc_w = rw\<rparr>"
    obtain S where S: "server_setup_pipes (Some (hr, hw)) (Some (rr, rw)) True True
        = Inr (SUCCESS, Some (\<lparr>hsk_r = hr, hsk_w = hw, rpc_r = rr, rpc_w = rw\<rparr>, S))"
      "slots_wf S" "slots S = [(\<lparr>p_fd = hr, p_events = POLLIN, p_revents = 0\<rparr>, None),
                               (\<lparr>p_fd = rr, p_events = POLLIN, p_revents = 0\<rparr>, None)]"
      using server_setup_pipes_slots [of hr hw rr rw, THEN conjunct1] by blast
    consider "\<not> st_threads env" | "st_threads env" "\<not> list_all (st_create env) [0..<nat n]"
      | "st_threads env" "list_all (st_create env) [0..<nat n]" by blast
    then show thesis
    proof cases
      case 1
      have "server_start env [show_int n] l = Inr (False, ?P, pool n NoThreads, initial_server l S True SUCCESS)"
        using 1 sys S(1) size by (simp add: server_start_def threadpool_init_def)
      moreover have "\<not> all_granted env n" using 1 by (auto simp only: all_granted_def)
      ultimately show thesis by (rule no_array)
    next
      case 2
      then obtain k where k: "k < nat n" "\<not> st_create env k" "\<forall>i < k. st_create env i" using least_refused by blast
      have "threadpool_init True (st_create env) (True, pool n NoThreads) = Inr (POOL_FAIL, False, pool n FreedThreads)"
        using threadpool_init_fails [of "pool n NoThreads" k "st_create env" True] k n by (simp add: pool_def)
      then have "server_start env [show_int n] l = Inr (False, ?P, pool n FreedThreads, initial_server l S False SUCCESS)"
        using 2(1) sys S(1) size by (simp add: server_start_def)
      moreover have "\<not> all_granted env n" using 2 by (auto simp only: all_granted_def)
      ultimately show thesis by (rule no_thread)
    next
      case 3
      then have "threadpool_init True (st_create env) (True, pool n NoThreads)
          = Inr (SUCCESS, True, pool n (Threads (replicate (nat n) Runs)))"
        using threadpool_init_ok [of "pool n NoThreads" "st_create env" True] n by (simp add: pool_def list_all_iff)
      note init = this
      show thesis
      proof (cases "list_all (st_signals env) [SIGUSR1, SIGINT, SIGTERM, SIGQUIT, SIGHUP, SIGPIPE]")
        case True
        then have "fst (server_setup_signals (st_signals env)) = SUCCESS" by (simp only: setup_signals_ok if_True)
        then have "server_start env [show_int n] l
            = Inr (True, ?P, pool n (Threads (replicate (nat n) Runs)), initial_server l S True SUCCESS)"
          using 3(1) init sys S(1) size by (simp add: server_start_def)
        moreover have "all_granted env n" using 3 sys True by (simp add: all_granted_def)
        ultimately show thesis by (rule started [OF sys(1,2) _ S(2,3)])
      next
        case False
        then have "fst (server_setup_signals (st_signals env)) = SIG_FAIL" by (simp only: setup_signals_ok if_False)
        then have "server_start env [show_int n] l
            = Inr (False, ?P, pool n (Threads (replicate (nat n) Runs)), initial_server l S True SIG_FAIL)"
          using 3(1) init sys S(1) size by (simp add: server_start_def)
        moreover have "\<not> all_granted env n" using False by (auto simp only: all_granted_def)
        ultimately show thesis by (rule no_signal)
      qed
    qed
  qed
qed

text \<open>C35: a start that is given a number of threads between 1 and \<open>2^61 - 1\<close> reaches the main loop, with exactly these threads
  running and the read ends of the two self pipes polled, if every call it makes succeeds, and goes to the teardown otherwise.\<close>

theorem start_reaches_loop:
  assumes "1 \<le> n" and "n < 2 ^ 61"
  shows "if all_granted env n
    then \<exists>hr hw rr rw S. st_hsk env = Some (hr, hw) \<and> st_rpc env = Some (rr, rw)
      \<and> server_start env [show_int n] l = Inr (True, \<lparr>hsk_r = hr, hsk_w = hw, rpc_r = rr, rpc_w = rw\<rparr>,
          pool n (Threads (replicate (nat n) Runs)), initial_server l S True SUCCESS)
      \<and> slots_wf S \<and> slots S = [(\<lparr>p_fd = hr, p_events = POLLIN, p_revents = 0\<rparr>, None),
                                 (\<lparr>p_fd = rr, p_events = POLLIN, p_revents = 0\<rparr>, None)]
    else \<exists>P tp s. server_start env [show_int n] l = Inr (False, P, tp, s)"
  by (rule server_start_cases [OF assms, of env l]) auto

definition granting :: start_env where
  "granting = \<lparr>st_hsk = Some (3, 4), st_rpc = Some (5, 6), st_pfds = True, st_clients = True, st_threads = True,
     st_create = (\<lambda>i. True), st_signals = (\<lambda>s. True)\<rparr>"

lemma granting_all: "all_granted granting n"
  by (simp add: all_granted_def granting_def list_all_iff)

theorem start_reaches_loop_witness:
  "\<exists>S. server_start granting [''4''] () = Inr (True, \<lparr>hsk_r = 3, hsk_w = 4, rpc_r = 5, rpc_w = 6\<rparr>,
        pool 4 (Threads [Runs, Runs, Runs, Runs]), initial_server () S True SUCCESS) \<and> slot_fds S = [3, 5]"
proof -
  have "show_int 4 = ''4''" by code_simp
  then show ?thesis
    using start_reaches_loop [of 4 granting "()"] granting_all [of 4]
    by (auto simp: granting_def slot_fds_def numeral_eq_Suc)
qed



text \<open>the size of the array of threads is computed without a check for overflow: with \<open>2^61\<close> threads nothing is allocated and
  the first thread is stored past the end of the array.\<close>

theorem huge_pool_overflows:
  assumes "st_threads env" and "st_create env 0" and "st_hsk env \<noteq> None" and "st_rpc env \<noteq> None"
    and "st_pfds env" and "st_clients env"
  shows "server_start env [show_int (2 ^ 61)] l = Inl OutOfBounds"
proof -
  obtain hr hw rr rw where sys: "st_hsk env = Some (hr, hw)" "st_rpc env = Some (rr, rw)" using assms(3,4) by auto
  obtain P S where S: "server_setup_pipes (Some (hr, hw)) (Some (rr, rw)) True True = Inr (SUCCESS, Some (P, S))"
    using server_setup_pipes_slots [of hr hw rr rw, THEN conjunct1] by blast
  let ?n = "2 ^ 61 :: int"
  have "threads_allocated ?n = 0" by (simp add: threads_allocated_def)
  then have "threadpool_init True (st_create env) (True, pool ?n NoThreads) = Inl OutOfBounds"
    using assms(2) by (simp add: threadpool_init_def create_loop.simps [of _ 0] pool_def poke_def)
  then show ?thesis
    using assms S sys get_threadpool_size_number [of ?n] by (simp add: server_start_def LONG_MAX_def pool_def)
qed

theorem huge_pool_overflows_witness:
  "server_start granting [show_int (2 ^ 61)] () = Inl OutOfBounds"
  by (rule huge_pool_overflows) (simp_all add: granting_def)

end
