(* ===== verification/Invariant.thy ===== *)
theory Invariant
  imports Server
begin

text \<open>
  What the server keeps true between two operations under its locks, and that the operations of the main thread keep
  it: how the references of a client, the list of the registry, the slots of \<open>poll\<close> and the pointers in tasks and
  results agree. \<open>as\<close> is always the list of the connected clients.
\<close>

section \<open>References and clients\<close>

text \<open>
  \<open>n a\<close> pointers to the client at \<open>a\<close> are on their way in tasks and results. A client that has been freed has none; one that
  is connected is not dead and has one more reference than pointers at least, for the registry; one that is not connected any more
  is dead, and still has a reference.
\<close>

definition ref_ok :: "bool \<Rightarrow> nat \<Rightarrow> ActiveClient option \<Rightarrow> bool" where
  "ref_ok connected k co = (case co of
     None \<Rightarrow> k = 0
   | Some c \<Rightarrow> dead c = (\<not> connected) \<and> refcount c \<noteq> 0 \<and> k + of_bool connected \<le> unat (refcount c))"

lemma ref_ok_simps [simp]:
  "ref_ok connected k None \<longleftrightarrow> k = 0"
  "ref_ok connected k (Some c) \<longleftrightarrow> dead c = (\<not> connected) \<and> refcount c \<noteq> 0 \<and> k + of_bool connected \<le> unat (refcount c)"
  by (simp_all add: ref_ok_def)

lemma ref_ok_mono: "ref_ok connected k co \<Longrightarrow> j \<le> k \<Longrightarrow> ref_ok connected j co"
  by (cases co) auto

definition registry_inv :: "(addr \<Rightarrow> nat) \<Rightarrow> addr list \<Rightarrow> ClientRegistry \<Rightarrow> bool" where
  "registry_inv n as R \<longleftrightarrow> reg_rep R as \<and> (\<forall>a. ref_ok (a \<in> set as) (n a) (client_at R a))
     \<and> (\<forall>a \<in> set as. names_set (client_at R a))"

text \<open>The descriptors of a client.\<close>

definition fds :: "ClientRegistry \<Rightarrow> addr \<Rightarrow> int \<times> int" where
  "fds R a = (case client_at R a of None \<Rightarrow> (0, 0) | Some c \<Rightarrow> (c2s_fd c, s2c_fd c))"

lemma registry_inv_mono: "registry_inv n as R \<Longrightarrow> (\<And>a. m a \<le> n a) \<Longrightarrow> registry_inv m as R"
  unfolding registry_inv_def using ref_ok_mono by blast

lemma registry_inv_init: "registry_inv (\<lambda>a. 0) [] creg_init"
  by (simp add: registry_inv_def reg_rep_init) (simp add: creg_init_def client_at_def)

lemma names_set_client_at: "names_set (client_at R a) = names_set (cr_mem R a)"
  by (simp add: client_at_def names_set_def split: option.split)

lemma registry_inv_ok: "registry_inv n as R \<Longrightarrow> registry_ok R"
  by (auto simp: registry_inv_def registry_ok_def names_set_client_at)

lemma registry_inv_live:
  assumes "registry_inv n as R" and "a \<in> set as"
  obtains c where "client_at R a = Some c" "\<not> dead c" "n a < unat (refcount c)"
proof -
  obtain c where c: "client_at R a = Some c"
    using assms reg_rep_allocated [of R as a] by (auto simp: registry_inv_def client_at_def)
  have "ref_ok (a \<in> set as) (n a) (client_at R a)" using assms(1) by (simp add: registry_inv_def)
  then show thesis using that c assms(2) by auto
qed

lemma registry_inv_distinct: "registry_inv n as R \<Longrightarrow> distinct as"
  by (simp add: registry_inv_def reg_rep_def)

text \<open>The block at an address and the same client without its links.\<close>

lemma client_at_SomeE:
  assumes "client_at R a = Some c"
  obtains d where "cr_mem R a = Some d" "c = d\<lparr>c_next := None, c_prev := None\<rparr>"
  using assms by (auto simp: client_at_def)

text \<open>An update of the other fields of a connected client.\<close>

lemma registry_inv_upd:
  assumes inv: "registry_inv n as R" and a: "a \<in> set as" and d: "cr_mem R a = Some d"
    and links: "c_next d' = c_next d" "c_prev d' = c_prev d" and live: "\<not> dead d'" "refcount d' \<noteq> 0"
    and m: "m a + 1 \<le> unat (refcount d')" "\<And>b. b \<noteq> a \<Longrightarrow> m b \<le> n b" and name: "names_set (Some d')"
  shows "registry_inv m as (R\<lparr>cr_mem := (cr_mem R)(a \<mapsto> d')\<rparr>)"
proof -
  let ?R = "R\<lparr>cr_mem := (cr_mem R)(a \<mapsto> d')\<rparr>"
  have at: "client_at ?R = (client_at R)(a \<mapsto> d'\<lparr>c_next := None, c_prev := None\<rparr>)"
    by (auto simp: client_at_def fun_eq_iff)
  have "ref_ok (b \<in> set as) (m b) (client_at ?R b)" for b
  proof (cases "b = a")
    case True
    then show ?thesis using live m(1) a by (simp add: at)
  next
    case False
    moreover have "ref_ok (b \<in> set as) (n b) (client_at R b)" using inv by (simp add: registry_inv_def)
    ultimately show ?thesis using m(2) [of b] by (simp add: at ref_ok_mono)
  qed
  moreover have "reg_rep ?R as" using inv d links by (intro reg_rep_upd) (simp_all add: registry_inv_def)
  moreover have "names_set (client_at ?R b)" if "b \<in> set as" for b
    using inv name that by (cases "b = a") (auto simp: registry_inv_def names_set_def at)
  ultimately show ?thesis by (simp add: registry_inv_def)
qed

lemma unat_minus_1: "w \<noteq> 0 \<Longrightarrow> unat (w - 1) = unat w - 1" for w :: size_t
  by (simp add: unat_minus_one)

text \<open>The release of a reference a pointer to a connected client held.\<close>

lemma registry_inv_release:
  assumes inv: "registry_inv n as R" and a: "a \<in> set as" and n: "0 < n a"
  shows "\<exists>R'. creg_release_client a R = Inr ([], R') \<and> registry_inv (n(a := n a - 1)) as R' \<and> fds R' = fds R"
proof -
  obtain c where c: "client_at R a = Some c" "\<not> dead c" "n a < unat (refcount c)"
    using registry_inv_live [OF inv a] by blast
  then obtain d where d: "cr_mem R a = Some d" "c = d\<lparr>c_next := None, c_prev := None\<rparr>"
    by (auto elim: client_at_SomeE)
  let ?d = "d\<lparr>refcount := refcount d - 1\<rparr>"
  let ?R = "R\<lparr>cr_mem := (cr_mem R)(a \<mapsto> ?d)\<rparr>"
  have gt: "1 < unat (refcount d)" using c d n by simp
  then have "refcount d \<noteq> 0" by auto
  then have u: "unat (refcount d - 1) = unat (refcount d) - 1" by (rule unat_minus_1)
  then have nz: "refcount d - 1 \<noteq> 0" using gt by (metis diff_is_0_eq not_le unat_0)
  have "registry_inv (n(a := n a - 1)) as ?R"
    using inv c d u nz n names_set_client_at [of R a] a
    by (intro registry_inv_upd [OF inv a d(1)]) (auto simp: registry_inv_def names_set_def)
  moreover have "creg_release_client a R = Inr ([], ?R)"
    using c d by (simp add: creg_release_client_def Let_def)
  moreover have "fds ?R = fds R" using d by (auto simp: fds_def client_at_def fun_eq_iff)
  ultimately show ?thesis by blast
qed

text \<open>A reference for a new task.\<close>

lemma registry_inv_acquire:
  assumes inv: "registry_inv n as R" and a: "a \<in> set as" and d: "cr_mem R a = Some d"
    and room: "unat (refcount d) + 1 < 2 ^ 64"
  shows "creg_acquire_client a R = Inr (SUCCESS, acquired a d R)"
    and "registry_inv (n(a := n a + 1)) as (acquired a d R)" and "fds (acquired a d R) = fds R"
proof -
  obtain c where c: "client_at R a = Some c" "\<not> dead c" "n a < unat (refcount c)"
    using registry_inv_live [OF inv a] by blast
  have live: "\<not> dead d" "n a < unat (refcount d)" using c d by (auto simp: client_at_def)
  then show "creg_acquire_client a R = Inr (SUCCESS, acquired a d R)"
    using d by (simp add: creg_acquire_client_def acquired_def)
  have u: "unat (refcount d + 1) = Suc (unat (refcount d))" using room unat_succ [of "refcount d"] by simp
  then have "refcount d + 1 \<noteq> 0" by auto
  then show "registry_inv (n(a := n a + 1)) as (acquired a d R)"
    unfolding acquired_def using inv c d live u names_set_client_at [of R a] a
    by (intro registry_inv_upd [OF inv a d]) (auto simp: registry_inv_def names_set_def)
  show "fds (acquired a d R) = fds R" using d by (auto simp: fds_def acquired_def client_at_def fun_eq_iff)
qed

section \<open>Slots and clients\<close>

text \<open>Every slot above the first two belongs to one connected client, by its descriptor and its pointer.\<close>

definition slots_ok :: "addr list \<Rightarrow> ClientRegistry \<Rightarrow> PollSlots \<Rightarrow> bool" where
  "slots_ok as R S \<longleftrightarrow> slots_wf S \<and> 2 \<le> ps_count S \<and> distinct (slot_fds S)
     \<and> mset (map (\<lambda>x. (p_fd (fst x), snd x)) (drop 2 (slots S))) = mset (map (\<lambda>a. (fst (fds R a), Some a)) as)"

lemma slots_ok_cong:
  "slots_ok as R S \<Longrightarrow> (\<And>a. a \<in> set as \<Longrightarrow> fds R' a = fds R a) \<Longrightarrow> slots_ok as R' S"
  by (simp add: slots_ok_def cong: map_cong)

lemma slots_ok_keys:
  "slots_ok as R S \<Longrightarrow> (\<lambda>x. (p_fd (fst x), snd x)) ` set (drop 2 (slots S)) = (\<lambda>a. (fst (fds R a), Some a)) ` set as"
  using mset_eq_setD [of "map (\<lambda>x. (p_fd (fst x), snd x)) (drop 2 (slots S))" "map (\<lambda>a. (fst (fds R a), Some a)) as"]
  by (simp add: slots_ok_def del: mset_map)

lemma slots_ok_at:
  assumes "slots_ok as R S" and "2 \<le> i" and "i < ps_count S"
  obtains p a where "slots S ! i = (p, Some a)" "a \<in> set as" "p_fd p = fst (fds R a)"
proof -
  let ?g = "\<lambda>x :: slot. (p_fd (fst x), snd x)"
  have len: "length (slots S) = ps_count S" using assms(1) by (simp add: slots_ok_def length_slots)
  then have "slots S ! i \<in> set (drop 2 (slots S))"
  proof -
    assume "length (slots S) = ps_count S"
    moreover obtain k where "i = 2 + k" using assms(2) le_Suc_ex by blast
    ultimately show ?thesis using assms(3) by (auto simp: in_set_conv_nth intro!: exI [of _ k])
  qed
  then have "?g (slots S ! i) \<in> (\<lambda>a. (fst (fds R a), Some a)) ` set as"
    unfolding slots_ok_keys [OF assms(1), symmetric] by (rule imageI)
  then show thesis using that by (cases "slots S ! i") auto
qed

lemma slots_ok_find:
  assumes "slots_ok as R S" and "a \<in> set as"
  obtains i p where "2 \<le> i" "i < ps_count S" "slots S ! i = (p, Some a)" "p_fd p = fst (fds R a)"
proof -
  let ?g = "\<lambda>x :: slot. (p_fd (fst x), snd x)"
  have len: "length (slots S) = ps_count S" using assms(1) by (simp add: slots_ok_def length_slots)
  have "(fst (fds R a), Some a) \<in> ?g ` set (drop 2 (slots S))"
    unfolding slots_ok_keys [OF assms(1)] using assms(2) by blast
  then obtain x where x: "x \<in> set (drop 2 (slots S))" "?g x = (fst (fds R a), Some a)" by auto
  then obtain j where "j < ps_count S - 2" "slots S ! (2 + j) = x"
    using len by (auto simp: in_set_conv_nth)
  then show thesis using that [of "2 + j" "fst x"] x(2) by (cases x) auto
qed

lemma slots_ok_remove:
  assumes ok: "slots_ok as R S" and a: "a \<in> set as"
  shows "\<exists>S'. server_remove_pollslots (fst (fds R a)) S = Inr S' \<and> slots_ok (remove1 a as) R S'"
proof -
  let ?g = "\<lambda>x :: slot. (p_fd (fst x), snd x)" and ?k = "\<lambda>a. (fst (fds R a), Some a)"
  note s = ok [unfolded slots_ok_def]
  obtain j p where j: "2 \<le> j" "j < ps_count S" "slots S ! j = (p, Some a)" "p_fd p = fst (fds R a)"
    using slots_ok_find [OF ok a] by blast
  obtain S' where S': "server_remove_pollslots (fst (fds R a)) S = Inr S'" "slots_wf S'" "slots S' = swap_remove j (slots S)"
    using server_remove_at [of S j] s j by auto
  have len: "length (slots S) = ps_count S" "length (slots S') = ps_count S'" using s S'(2) by (simp_all add: length_slots)
  have jl: "j < length (slots S)" using j(2) len(1) by simp
  have "take 2 (slots S') = take 2 (swap_remove j (slots S))" using S'(3) by simp
  also have "\<dots> = take 2 (slots S)"
    using j(1) jl by (metis min.absorb1 swap_remove_take take_take)
  finally have t: "take 2 (slots S') = take 2 (slots S)" .
  have all: "add_mset (slots S ! j) (mset (slots S')) = mset (slots S)" using swap_remove_mset [OF jl] S'(3) by simp
  have parts: "mset (slots T) = mset (take 2 (slots T)) + mset (drop 2 (slots T))" for T
    by (metis append_take_drop_id mset_append)
  have "add_mset (slots S ! j) (mset (drop 2 (slots S'))) = mset (drop 2 (slots S))"
    using all parts [of S] parts [of S'] t by (metis add_left_imp_eq union_mset_add_mset_right)
  from arg_cong [OF this, of "image_mset ?g"]
  have "add_mset (?g (slots S ! j)) (image_mset ?g (mset (drop 2 (slots S')))) = image_mset ?g (mset (drop 2 (slots S)))"
    by (simp only: image_mset_add_mset)
  also have "\<dots> = image_mset ?k (mset as)" using s by simp
  also have "mset as = add_mset a (mset (remove1 a as))" using a by simp
  also have "image_mset ?k \<dots> = add_mset (?k a) (image_mset ?k (mset (remove1 a as)))" by (rule image_mset_add_mset)
  finally have "image_mset ?g (mset (drop 2 (slots S'))) = image_mset ?k (mset (remove1 a as))" using j(3,4) by simp
  moreover have "2 \<le> ps_count S'" using len S'(3) j by simp
  moreover have "distinct (slot_fds S')"
    using s jl S'(3) swap_remove_distinct [of "p_fd \<circ> fst" "slots S" j] by (simp add: slot_fds_def)
  ultimately show ?thesis using S'(1,2) by (auto simp: slots_ok_def)
qed

lemma slots_ok_insert:
  assumes ok: "slots_ok as R S" and fresh: "c2s \<notin> set (slot_fds S)"
    and fd: "fst (fds R' a) = c2s" "\<And>b. b \<in> set as \<Longrightarrow> fds R' b = fds R b"
  shows "\<exists>e S'. server_insert_pollslots a1 a2 c2s (Some a) S = Inr (e, S')
    \<and> slots_ok (if e = SUCCESS then a # as else as) R' S'"
proof -
  note s = ok [unfolded slots_ok_def]
  have len: "2 \<le> length (slots S)" using s by (simp add: length_slots)
  have same: "map (\<lambda>a. (fst (fds R' a), Some a)) as = map (\<lambda>a. (fst (fds R a), Some a)) as" using fd(2) by simp
  consider (appended) S' where "server_insert_pollslots a1 a2 c2s (Some a) S = Inr (SUCCESS, S')" "slots_wf S'"
      "slots S' = slots S @ [(\<lparr>p_fd = c2s, p_events = POLLIN, p_revents = 0\<rparr>, Some a)]"
    | (full) S' where "server_insert_pollslots a1 a2 c2s (Some a) S = Inr (GROW_FAIL, S')" "slots_wf S'" "slots S' = slots S"
    using server_insert_cases [of S a1 a2 c2s "Some a"] s by blast
  then show ?thesis
  proof cases
    case S': (appended S')
    have "ps_count S' = length (slots S')" using S'(2) by (simp add: length_slots)
    then have "2 \<le> ps_count S'" using S'(3) len by simp
    then have "slots_ok (a # as) R' S'"
      using S' s len fresh fd(1) by (simp add: slots_ok_def slot_fds_def same)
    then show ?thesis using S'(1) by (intro exI [of _ SUCCESS]) auto
  next
    case S': (full S')
    then have "ps_count S' = ps_count S" using s length_slots by metis
    then have "slots_ok as R' S'" using s S' by (simp add: slots_ok_def slot_fds_def same)
    then show ?thesis using S'(1) by (intro exI [of _ GROW_FAIL]) auto
  qed
qed

section \<open>Removing and inserting a client\<close>

lemma remove1_set: "distinct as \<Longrightarrow> set (remove1 a as) = set as - {a}"
  by (rule set_remove1_eq)

lemma tables_ok_removed:
  assumes "tables_ok tb" and "tables_wf tb'" and "items (CANVAS_TABLE tb') = map (disown_canvas a) (items (CANVAS_TABLE tb))"
  shows "tables_ok tb'"
  using assms by (auto simp: tables_ok_def disown_canvas_def canvas_ok_def)

lemma registry_inv_remove:
  assumes inv: "registry_inv n as R" and a: "a \<in> set as" and tb: "tables_ok tb"
  shows "\<exists>evs R' tb' l'. creg_remove lib a (R, tb, l) = Inr (evs, R', tb', l')
    \<and> registry_inv n (remove1 a as) R' \<and> tables_ok tb' \<and> (\<forall>b \<in> set as. b \<noteq> a \<longrightarrow> fds R' b = fds R b)"
proof -
  obtain c where c: "client_at R a = Some c" "\<not> dead c" "n a < unat (refcount c)"
    using registry_inv_live [OF inv a] by blast
  have wf: "reg_rep R as" "distinct as" "tables_wf tb"
    using inv tb registry_inv_distinct by (auto simp: registry_inv_def tables_ok_def)
  from creg_remove_exact [OF wf(1) a wf(3) c(1), of lib l] obtain R' tb' where R':
    "creg_remove lib a (R, tb, l) =
       Inr (if refcount c = 1 then destroy_client_pipes (client_pid c) (c2s_fd c) (s2c_fd c) else [],
            R', tb', destroy_calls lib a tb l)" "reg_rep R' (remove1 a as)"
    "client_at R' = (client_at R)(a := if refcount c = 1 then None
                          else Some (c\<lparr>dead := True, refcount := refcount c - 1\<rparr>))"
    "tables_wf tb'" "items (CANVAS_TABLE tb') = map (disown_canvas a) (items (CANVAS_TABLE tb))"
    by blast
  have "ref_ok (b \<in> set (remove1 a as)) (n b) (client_at R' b)" for b
  proof (cases "b = a")
    case False
    moreover have "ref_ok (b \<in> set as) (n b) (client_at R b)" using inv by (simp add: registry_inv_def)
    ultimately show ?thesis using wf(2) by (simp add: R'(3))
  next
    case True
    have nz: "refcount c \<noteq> 0" using c(3) by auto
    show ?thesis
    proof (cases "refcount c = 1")
      case one: True
      then show ?thesis using True c(3) by (simp add: R'(3))
    next
      case False
      then have "refcount c - 1 \<noteq> 0" by simp
      then show ?thesis using True False c(3) nz wf(2) unat_minus_1 [of "refcount c"] by (simp add: R'(3))
    qed
  qed
  moreover have "names_set (client_at R' b)" if "b \<in> set (remove1 a as)" for b
    using that inv wf(2) by (simp add: R'(3) registry_inv_def)
  moreover have "fds R' b = fds R b" if "b \<noteq> a" for b using that by (simp add: fds_def R'(3))
  moreover have "tables_ok tb'" by (rule tables_ok_removed [OF tb R'(4,5)])
  ultimately show ?thesis using R'(1,2) by (auto simp: registry_inv_def)
qed

lemma registry_inv_insert:
  assumes inv: "registry_inv n as R" and a: "malloc_ok (cr_mem R) a"
  shows "\<exists>R'. creg_insert (Some a) pid c2s s2c R = Inr (Some a, R') \<and> registry_inv n (a # as) R'
    \<and> fds R' a = (c2s, s2c) \<and> (\<forall>b \<in> set as. fds R' b = fds R b) \<and> a \<notin> set as"
proof -
  have free: "client_at R a = None" using a by (simp add: malloc_ok_def)
  have new: "a \<notin> set as" using registry_inv_live [OF inv, of a] free by force
  obtain R' where R': "creg_insert (Some a) pid c2s s2c R = Inr (Some a, R')" "reg_rep R' (a # as)"
    "client_at R' = (client_at R)(a \<mapsto> new_client pid c2s s2c None)"
    using creg_insert_rep [of R as a pid c2s s2c] inv a by (auto simp: registry_inv_def)
  have "ref_ok (b \<in> set (a # as)) (n b) (client_at R' b)" for b
  proof -
    have "ref_ok (b \<in> set as) (n b) (client_at R b)" using inv by (simp add: registry_inv_def)
    then show ?thesis using new free by (cases "b = a") (auto simp: R'(3) new_client_def)
  qed
  moreover have "names_set (client_at R' b)" if "b \<in> set (a # as)" for b
    using that inv by (auto simp: R'(3) registry_inv_def names_set_def new_client_def)
  ultimately have "registry_inv n (a # as) R'" using R'(2) by (simp add: registry_inv_def)
  then show ?thesis using R'(1) new by (auto simp: fds_def R'(3) new_client_def)
qed

section \<open>The queue\<close>

text \<open>The client a task points to, and the tasks the handlers of the workers accept.\<close>

definition target :: "payload \<Rightarrow> addr option" where
  "target t = (case t of (type, ClientPtr p, d) \<Rightarrow> p | _ \<Rightarrow> None)"

definition task_ok :: "payload \<Rightarrow> bool" where
  "task_ok t = (case t of
     (type, RawPid pid, FifoNames c2s s2c) \<Rightarrow> type = HANDSHAKE
   | (type, ClientPtr (Some a), Request req) \<Rightarrow> type \<noteq> HANDSHAKE
   | _ \<Rightarrow> False)"

definition queue_ok :: "TaskQueue \<Rightarrow> bool" where
  "queue_ok q \<longleftrightarrow> tq_inv q \<and> (\<forall>t \<in> set (tq_list q). task_ok t)"

definition queued :: "TaskQueue \<Rightarrow> addr \<Rightarrow> nat" where
  "queued q a = count_list (map target (tq_list q)) (Some a)"

text \<open>Blocks that are in use keep their contents, and none of them gets into the list.\<close>

definition keeps :: "TaskQueue \<Rightarrow> TaskQueue \<Rightarrow> bool" where
  "keeps q q' \<longleftrightarrow> (\<forall>b. tq_mem q b \<noteq> None \<longrightarrow>
     tq_mem q' b \<noteq> None \<and> task_at q' b = task_at q b \<and> (b \<in> set (tq_addrs q') \<longrightarrow> b \<in> set (tq_addrs q)))"

lemma keeps_refl [simp]: "keeps q q"
  by (simp add: keeps_def)

lemma keeps_trans: "keeps p q \<Longrightarrow> keeps q r \<Longrightarrow> keeps p r"
  unfolding keeps_def by metis

definition alloc_ok :: "((addr \<rightharpoonup> 'b) \<Rightarrow> addr option) \<Rightarrow> bool" where
  "alloc_ok malloc \<longleftrightarrow> (\<forall>m b. malloc m = Some b \<longrightarrow> malloc_ok m b)"

lemma enqueue_inv:
  assumes q: "queue_ok q" and m: "alloc_ok malloc"
    and args: "type = HANDSHAKE \<or> client = Some a \<and> request = Some req"
  shows "\<exists>q' rv'. enqueue malloc type pid request client (q, rv) = Inr (q', rv') \<and> queue_ok q' \<and> keeps q q'
    \<and> (\<forall>b. queued q' b \<le> queued q b + of_bool (type \<noteq> HANDSHAKE \<and> b = a))"
proof (cases "malloc (tq_mem q)")
  case None
  then show ?thesis using q by (auto simp: enqueue_def task_enqueue_def)
next
  case (Some b)
  then have b: "malloc_ok (tq_mem q) b" using m by (simp add: alloc_ok_def)
  have rep: "tq_rep q (tq_addrs q)" using q by (simp add: queue_ok_def tq_inv_def)
  let ?p = "enq_payload type pid request client"
  obtain q' where q': "task_enqueue (Some b) type pid request client q = Inr (SUCCESS, q')"
    "tq_rep q' (tq_addrs q @ [b])" "task_at q' b = ?p" "\<forall>x. x \<noteq> b \<longrightarrow> task_at q' x = task_at q x"
    "\<forall>x. x \<noteq> b \<longrightarrow> (tq_mem q' x = None) = (tq_mem q x = None)"
    using task_enqueue_rep [OF rep b, of type request pid client] args by blast
  have addrs: "tq_addrs q' = tq_addrs q @ [b]" using q'(2) by (rule tq_rep_addrs)
  have new: "b \<notin> set (tq_addrs q)" using q'(2) by (simp add: tq_rep_def)
  then have lst: "tq_list q' = tq_list q @ [?p]" using q'(3,4) addrs by (auto simp: tq_list_def)
  have "task_ok ?p" using args by (auto simp: task_ok_def enq_payload_def)
  then have "queue_ok q'" using q lst tq_inv_rep [OF q'(2)] by (auto simp: queue_ok_def)
  moreover have "keeps q q'"
    unfolding keeps_def
  proof (intro allI impI)
    fix x assume "tq_mem q x \<noteq> None"
    then show "tq_mem q' x \<noteq> None \<and> task_at q' x = task_at q x \<and> (x \<in> set (tq_addrs q') \<longrightarrow> x \<in> set (tq_addrs q))"
      using b q'(4,5) addrs by (cases "x = b") (auto simp: malloc_ok_def)
  qed
  moreover have "queued q' x \<le> queued q x + of_bool (type \<noteq> HANDSHAKE \<and> x = a)" for x
    using args lst by (auto simp: queued_def target_def enq_payload_def)
  ultimately show ?thesis using q'(1) Some by (simp add: enqueue_def)
qed

section \<open>The invariant of the server\<close>

text \<open>\<open>ext a\<close> is the number of pointers to the client \<open>a\<close> in tasks a worker has taken and in results in the pipe.\<close>

definition server_inv :: "(addr \<Rightarrow> nat) \<Rightarrow> addr list \<Rightarrow> 'l server \<Rightarrow> bool" where
  "server_inv ext as s \<longleftrightarrow> registry_inv (\<lambda>a. ext a + queued (sv_queue s) a) as (sv_reg s)
     \<and> slots_ok as (sv_reg s) (sv_slots s) \<and> queue_ok (sv_queue s) \<and> tables_ok (sv_tabs s)"

lemma server_inv_emit [simp]: "server_inv ext as (emit evs s) = server_inv ext as s"
  by (simp add: server_inv_def emit_def)

text \<open>A client whose slot is gone is removed.\<close>

lemma remove_client_inv:
  assumes reg: "registry_inv (\<lambda>a. ext a + queued (sv_queue s) a) as (sv_reg s)" and a: "a \<in> set as"
    and rest: "slots_ok (remove1 a as) (sv_reg s) (sv_slots s)" "queue_ok (sv_queue s)" "tables_ok (sv_tabs s)"
  shows "\<exists>s'. remove_client env a s = Inr s' \<and> server_inv ext (remove1 a as) s' \<and> sv_queue s' = sv_queue s"
proof -
  obtain evs R' tb' l' where r: "creg_remove (me_lib env) a (sv_reg s, sv_tabs s, sv_lib s) = Inr (evs, R', tb', l')"
    "registry_inv (\<lambda>a. ext a + queued (sv_queue s) a) (remove1 a as) R'" "tables_ok tb'"
    "\<forall>b \<in> set as. b \<noteq> a \<longrightarrow> fds R' b = fds (sv_reg s) b"
    using registry_inv_remove [OF reg a rest(3), of "me_lib env" "sv_lib s"] by blast
  have "slots_ok (remove1 a as) R' (sv_slots s)"
    using rest(1) r(4) registry_inv_distinct [OF reg] by (rule_tac slots_ok_cong) auto
  then show ?thesis using r rest(2) by (simp add: remove_client_def server_inv_def emit_def)
qed

text \<open>A pointer to a connected client is given back.\<close>

lemma release_client_inv:
  assumes inv: "server_inv ext as s" and a: "a \<in> set as" "0 < ext a"
  shows "\<exists>s'. release_client a s = Inr s' \<and> server_inv (ext(a := ext a - 1)) as s' \<and> fds (sv_reg s') = fds (sv_reg s)
    \<and> sv_slots s' = sv_slots s \<and> sv_queue s' = sv_queue s"
proof -
  obtain R' where R': "creg_release_client a (sv_reg s) = Inr ([], R')"
    "registry_inv ((\<lambda>a. ext a + queued (sv_queue s) a)(a := ext a + queued (sv_queue s) a - 1)) as R'" "fds R' = fds (sv_reg s)"
    using registry_inv_release [of "\<lambda>a. ext a + queued (sv_queue s) a" as "sv_reg s" a] inv a by (auto simp: server_inv_def)
  have "(\<lambda>a. ext a + queued (sv_queue s) a)(a := ext a + queued (sv_queue s) a - 1)
      = (\<lambda>b. (ext(a := ext a - 1)) b + queued (sv_queue s) b)" using a(2) by auto
  then have "server_inv (ext(a := ext a - 1)) as (emit [] (s\<lparr>sv_reg := R'\<rparr>))"
    using R' inv slots_ok_cong [of as "sv_reg s" "sv_slots s" R'] by (simp add: server_inv_def emit_def)
  then show ?thesis using R' by (simp add: release_client_def emit_def)
qed

lemma client_field_inv:
  assumes inv: "server_inv ext as s" and a: "a \<in> set as"
  shows "\<exists>d. cr_mem (sv_reg s) a = Some d \<and> client_field f a s = Inr (f d) \<and> (c2s_fd d, s2c_fd d) = fds (sv_reg s) a"
proof -
  obtain c where "client_at (sv_reg s) a = Some c" using registry_inv_live inv a unfolding server_inv_def by blast
  then show ?thesis by (auto simp: client_field_def fds_def client_at_def)
qed

text \<open>The login of a connected client changes nothing the invariant reads, but the name.\<close>

lemma set_client_inv:
  assumes inv: "server_inv ext as s" and a: "a \<in> set as"
    and f: "\<And>d. c_next (f d) = c_next d \<and> c_prev (f d) = c_prev d \<and> dead (f d) = dead d \<and> refcount (f d) = refcount d
      \<and> c2s_fd (f d) = c2s_fd d \<and> s2c_fd (f d) = s2c_fd d"
    and name: "\<And>d. cr_mem (sv_reg s) a = Some d \<Longrightarrow> names_set (Some (f d))"
  shows "\<exists>s' d. set_client f a s = Inr s' \<and> server_inv ext as s' \<and> fds (sv_reg s') = fds (sv_reg s)
    \<and> cr_mem (sv_reg s) a = Some d \<and> cr_mem (sv_reg s') a = Some (f d)"
proof -
  have reg: "registry_inv (\<lambda>a. ext a + queued (sv_queue s) a) as (sv_reg s)" using inv by (simp add: server_inv_def)
  obtain c where c: "client_at (sv_reg s) a = Some c" "\<not> dead c" "ext a + queued (sv_queue s) a < unat (refcount c)"
    using registry_inv_live [OF reg a] by blast
  then obtain d where d: "cr_mem (sv_reg s) a = Some d" "c = d\<lparr>c_next := None, c_prev := None\<rparr>" by (auto elim: client_at_SomeE)
  let ?R = "(sv_reg s)\<lparr>cr_mem := (cr_mem (sv_reg s))(a \<mapsto> f d)\<rparr>"
  have nz: "refcount d \<noteq> 0" using c(3) d by auto
  have "registry_inv (\<lambda>a. ext a + queued (sv_queue s) a) as ?R"
    using c d nz f [of d] name [OF d(1)] by (intro registry_inv_upd [OF reg a d(1)]) auto
  moreover have "fds ?R = fds (sv_reg s)" using d f [of d] by (auto simp: fds_def client_at_def fun_eq_iff)
  moreover from this have "slots_ok as ?R (sv_slots s)"
    using inv slots_ok_cong [of as "sv_reg s" "sv_slots s" ?R] by (simp add: server_inv_def)
  moreover have "set_client f a s = Inr (s\<lparr>sv_reg := ?R\<rparr>)" using d by (simp add: set_client_def upd_client_def)
  ultimately show ?thesis using inv d by (auto simp: server_inv_def)
qed

section \<open>Results\<close>

definition result_client :: "TaskResult \<Rightarrow> addr option" where
  "result_client r = (case r of
     ResHsk pid c2s s2c \<Rightarrow> None
   | ResAuthOk a name balance \<Rightarrow> Some a
   | ResAuthNo a \<Rightarrow> Some a
   | ResAuthUn a \<Rightarrow> Some a
   | ResRpc a x y z \<Rightarrow> Some a)"

text \<open>
  What the code relies on when the main thread takes a result: the client it points to is still connected, and the kernel has not
  given the read end of a new client a descriptor that is polled already.
\<close>

definition live :: "ClientRegistry \<Rightarrow> addr \<Rightarrow> bool" where
  "live R a \<longleftrightarrow> (case cr_mem R a of None \<Rightarrow> False | Some c \<Rightarrow> \<not> dead c)"

definition result_timely :: "'l server \<Rightarrow> TaskResult \<Rightarrow> bool" where
  "result_timely s r \<longleftrightarrow> (case r of
     ResHsk pid c2s s2c \<Rightarrow> c2s \<notin> set (slot_fds (sv_slots s))
   | _ \<Rightarrow> live (sv_reg s) (the (result_client r)))"

lemma live_connected: "registry_inv n as R \<Longrightarrow> live R a \<longleftrightarrow> a \<in> set as"
proof -
  assume inv: "registry_inv n as R"
  then have "ref_ok (a \<in> set as) (n a) (client_at R a)" by (simp add: registry_inv_def)
  moreover have "a \<in> set as \<Longrightarrow> cr_mem R a \<noteq> None" using inv reg_rep_allocated by (auto simp: registry_inv_def)
  ultimately show ?thesis by (auto simp: live_def client_at_def split: option.splits)
qed

lemma release_pointed:
  assumes inv: "server_inv (\<lambda>b. ext b + of_bool (Some a = Some b)) as s" and a: "a \<in> set as"
  obtains s' where "release_client a s = Inr s'" "server_inv ext as s'" "sv_queue s' = sv_queue s"
proof -
  have "(\<lambda>b. ext b + of_bool (Some a = Some b) :: nat)(a := ext a + of_bool (Some a = Some a) - 1) = ext" by auto
  then show thesis using release_client_inv [OF inv a] that by auto
qed

lemma on_handshake_inv:
  assumes inv: "server_inv ext as s" and m: "alloc_ok (me_client env)" and fd: "c2s \<notin> set (slot_fds (sv_slots s))"
  shows "\<exists>s' as'. on_handshake env pid c2s s2c s = Inr s' \<and> server_inv ext as' s' \<and> sv_queue s' = sv_queue s"
proof (cases "me_client env (cr_mem (sv_reg s))")
  case None
  then show ?thesis using inv by (auto simp: on_handshake_def creg_insert_def server_inv_def emit_def)
next
  case (Some a)
  let ?n = "\<lambda>a. ext a + queued (sv_queue s) a"
  have reg: "registry_inv ?n as (sv_reg s)" using inv by (simp add: server_inv_def)
  have "malloc_ok (cr_mem (sv_reg s)) a" using m Some by (simp add: alloc_ok_def)
  then obtain R' where R': "creg_insert (Some a) pid c2s s2c (sv_reg s) = Inr (Some a, R')" "registry_inv ?n (a # as) R'"
    "fds R' a = (c2s, s2c)" "\<forall>b \<in> set as. fds R' b = fds (sv_reg s) b" "a \<notin> set as"
    using registry_inv_insert [OF reg, of a pid c2s s2c] by blast
  have "slots_ok as (sv_reg s) (sv_slots s)" using inv by (simp add: server_inv_def)
  then obtain e S' where S': "server_insert_pollslots (me_pfds env) (me_slots env) c2s (Some a) (sv_slots s) = Inr (e, S')"
    "slots_ok (if e = SUCCESS then a # as else as) R' S'"
    using slots_ok_insert [of as "sv_reg s" "sv_slots s" c2s R' a "me_pfds env" "me_slots env"] fd R'(3,4) by auto
  show ?thesis
  proof (cases "e = SUCCESS")
    case True
    then show ?thesis using R' S' Some inv by (auto simp: on_handshake_def server_inv_def)
  next
    case False
    have "\<exists>s'. remove_client env a (s\<lparr>sv_reg := R', sv_slots := S', sv_retval := GROW_FAIL\<rparr>) = Inr s'
        \<and> server_inv ext (remove1 a (a # as)) s' \<and> sv_queue s' = sv_queue s"
      using remove_client_inv [of ext "s\<lparr>sv_reg := R', sv_slots := S', sv_retval := GROW_FAIL\<rparr>" "a # as" a env]
        R'(2) S'(2) False inv by (simp add: server_inv_def)
    then show ?thesis using R'(1) S'(1) Some False by (auto simp: on_handshake_def)
  qed
qed

lemma on_auth_ok_inv:
  assumes inv: "server_inv (\<lambda>b. ext b + of_bool (Some a = Some b)) as s" and a: "a \<in> set as"
  shows "\<exists>s'. on_auth_ok a name balance s = Inr s' \<and> server_inv ext as s' \<and> sv_queue s' = sv_queue s"
proof -
  obtain pid where d: "client_field client_pid a s = Inr pid" using client_field_inv [OF inv a, of client_pid] by blast
  obtain s1 where s1: "release_client a s = Inr s1" "server_inv ext as s1" "sv_queue s1 = sv_queue s"
    using release_pointed [OF inv a] by blast
  let ?f = "\<lambda>c. c\<lparr>username := Some (strncpy0 name (MAX_USERNAME_LEN - 1))\<rparr>"
  obtain s2 d2 where s2: "set_client ?f a s1 = Inr s2" "server_inv ext as s2" "cr_mem (sv_reg s2) a = Some (?f d2)"
    "sv_queue s2 = sv_queue s1"
    using set_client_inv [OF s1(2) a, of ?f] by (auto simp: names_set_def set_client_def upd_client_def)
  obtain fd where fd: "client_field s2c_fd a s2 = Inr fd" using client_field_inv [OF s2(2) a, of s2c_fd] by blast
  let ?s3 = "emit [WriteTo fd (snprintf 64 (show_int balance @ [NL]))] s2"
  obtain s4 d4 where s4: "set_client (\<lambda>c. c\<lparr>logged_in := True\<rparr>) a ?s3 = Inr s4" "server_inv ext as s4"
    "sv_queue s4 = sv_queue s2"
    using set_client_inv [of ext as ?s3 a "\<lambda>c. c\<lparr>logged_in := True\<rparr>"] s2(2,3) a
    by (auto simp: names_set_def set_client_def upd_client_def) (auto simp: emit_def)
  show ?thesis using d s1 s2 fd s4 by (simp add: on_auth_ok_def)
qed

lemma on_reject_inv:
  assumes inv: "server_inv (\<lambda>b. ext b + of_bool (Some a = Some b)) as s" and a: "a \<in> set as"
  shows "\<exists>s'. on_reject env msg a s = Inr s' \<and> server_inv ext (remove1 a as) s' \<and> sv_queue s' = sv_queue s"
proof -
  obtain s1 where s1: "release_client a s = Inr s1" "server_inv ext as s1" "sv_queue s1 = sv_queue s"
    using release_pointed [OF inv a] by blast
  obtain fd where fd: "client_field c2s_fd a s1 = Inr fd" "fd = fst (fds (sv_reg s1) a)"
    using client_field_inv [OF s1(2) a, of c2s_fd] by (metis fst_conv)
  obtain S' where S': "server_remove_pollslots fd (sv_slots s1) = Inr S'" "slots_ok (remove1 a as) (sv_reg s1) S'"
    using slots_ok_remove [of as "sv_reg s1" "sv_slots s1" a] s1(2) a fd(2) by (auto simp: server_inv_def)
  let ?s2 = "s1\<lparr>sv_slots := S'\<rparr>"
  have u: "unpoll fd s1 = Inr ?s2" using S'(1) by (simp add: unpoll_def)
  obtain wfd where wfd: "client_field s2c_fd a ?s2 = Inr wfd"
    using client_field_inv [OF s1(2) a, of s2c_fd] by (auto simp: client_field_def)
  obtain s3 where "remove_client env a (emit [WriteTo wfd msg, Sleep] ?s2) = Inr s3" "server_inv ext (remove1 a as) s3"
    "sv_queue s3 = sv_queue s1"
    using remove_client_inv [of ext "emit [WriteTo wfd msg, Sleep] ?s2" as a env] s1(2) S'(2) a
    by (auto simp: server_inv_def emit_def)
  then show ?thesis using s1 fd u wfd by (simp add: on_reject_def)
qed

lemma on_rpc_done_inv:
  assumes inv: "server_inv (\<lambda>b. ext b + of_bool (Some a = Some b)) as s" and a: "a \<in> set as"
  shows "\<exists>s'. on_rpc_done a x y z s = Inr s' \<and> server_inv ext as s' \<and> sv_queue s' = sv_queue s"
proof -
  obtain s1 where s1: "release_client a s = Inr s1" "server_inv ext as s1" "sv_queue s1 = sv_queue s"
    using release_pointed [OF inv a] by blast
  obtain fd where "client_field s2c_fd a s1 = Inr fd" using client_field_inv [OF s1(2) a, of s2c_fd] by blast
  then show ?thesis using s1 by (simp add: on_rpc_done_def) (simp add: emit_def)
qed

lemma dispatch_result_inv:
  assumes inv: "server_inv (\<lambda>a. ext a + of_bool (result_client r = Some a)) as s"
    and m: "alloc_ok (me_client env)" and r: "result_timely s r"
  shows "\<exists>s' as'. dispatch_result env r s = Inr s' \<and> server_inv ext as' s' \<and> sv_queue s' = sv_queue s"
proof -
  have reg: "\<exists>n. registry_inv n as (sv_reg s)" using inv by (auto simp: server_inv_def)
  have conn: "live (sv_reg s) a \<Longrightarrow> a \<in> set as" for a using reg live_connected by blast
  show ?thesis
  proof (cases r)
    case (ResHsk pid c2s s2c)
    then show ?thesis using on_handshake_inv [of ext as s env] inv m r
      by (simp add: dispatch_result_def result_client_def result_timely_def)
  next
    case (ResAuthOk a name balance)
    then show ?thesis using on_auth_ok_inv [of ext a as s name balance] inv r conn
      by (auto simp: dispatch_result_def result_client_def result_timely_def)
  next
    case (ResAuthNo a)
    then show ?thesis using on_reject_inv [of ext a as s env MSG_REJECT_BALANCE] inv r conn
      by (auto simp: dispatch_result_def result_client_def result_timely_def)
  next
    case (ResAuthUn a)
    then show ?thesis using on_reject_inv [of ext a as s env MSG_REJECT_UNAUTHORISED] inv r conn
      by (auto simp: dispatch_result_def result_client_def result_timely_def)
  next
    case (ResRpc a x y z)
    then show ?thesis using on_rpc_done_inv [of ext a as s x y z] inv r conn
      by (auto simp: dispatch_result_def result_client_def result_timely_def)
  qed
qed

section \<open>Requests\<close>

text \<open>One line of a connected client.\<close>

lemma handle_command_inv:
  assumes reg: "registry_inv (\<lambda>b. ext b + queued q b) as R" and q: "queue_ok q" and a: "a \<in> set as"
    and d: "cr_mem R a = Some d" and room: "unat (refcount d) + k < 2 ^ 64" "0 < k" and m: "alloc_ok malloc"
  shows "\<exists>b R' q' rv' d'. handle_command malloc a cmd (R, q, rv) = Inr (b, R', q', rv')
    \<and> registry_inv (\<lambda>b. ext b + queued q' b) as R' \<and> queue_ok q' \<and> keeps q q' \<and> fds R' = fds R
    \<and> cr_mem R' a = Some d' \<and> unat (refcount d') + (k - 1) < 2 ^ 64"
proof (cases "command_task d cmd")
  case None
  then show ?thesis using handle_command_task [OF d, of malloc cmd q rv] reg q d room by auto
next
  case (Some p)
  obtain type args where p: "p = (type, args)" by fastforce
  have t: "type \<noteq> HANDSHAKE" using command_task_type Some p by blast
  obtain c where "client_at R a = Some c" "\<not> dead c" using registry_inv_live [OF reg a] by blast
  then have live: "\<not> dead d" using d by (auto simp: client_at_def)
  have "unat (refcount d) + 1 < 2 ^ 64" using room by linarith
  note acq = registry_inv_acquire [OF reg a d this]
  obtain q' rv' where q': "enqueue malloc type 0 (Some args) (Some a) (q, rv) = Inr (q', rv')" "queue_ok q'" "keeps q q'"
    "\<forall>b. queued q' b \<le> queued q b + of_bool (type \<noteq> HANDSHAKE \<and> b = a)"
    using enqueue_inv [OF q m, of type "Some a" a "Some args" args 0 rv] by blast
  have le: "queued q' b \<le> queued q b + of_bool (b = a)" for b using q'(4) t by simp
  have "registry_inv (\<lambda>b. ext b + queued q' b) as (acquired a d R)"
  proof (rule registry_inv_mono [OF acq(2)])
    show "ext b + queued q' b \<le> ((\<lambda>b. ext b + queued q b)(a := ext a + queued q a + 1)) b" for b
      using le [of b] by (cases "b = a") auto
  qed
  moreover have "unat (refcount d + 1) = Suc (unat (refcount d))" using room unat_succ [of "refcount d"] by simp
  moreover have "handle_command malloc a cmd (R, q, rv) = Inr (False, acquired a d R, q', rv')"
    using handle_command_task [OF d, of malloc cmd q rv] Some p acq(1) q'(1) by (simp add: submit_def)
  ultimately show ?thesis using q'(2,3) acq(3) room by (auto simp: acquired_def)
qed

lemma request_loop_inv:
  "registry_inv (\<lambda>b. ext b + queued q b) as R \<Longrightarrow> queue_ok q \<Longrightarrow> a \<in> set as \<Longrightarrow> cr_mem R a = Some d \<Longrightarrow>
   unat (refcount d) + k < 2 ^ 64 \<Longrightarrow> alloc_ok malloc \<Longrightarrow>
   \<exists>b evs' R' q' rv'. request_loop malloc (Some a) k evs (R, q, rv) = Inr (b, evs', R', q', rv')
     \<and> registry_inv (\<lambda>b. ext b + queued q' b) as R' \<and> queue_ok q' \<and> keeps q q' \<and> fds R' = fds R"
proof (induction k arbitrary: evs R q rv d)
  case 0
  then show ?case by auto
next
  case (Suc k)
  have less: "unat (refcount d) + k < 2 ^ 64" using Suc.prems(5) by linarith
  have again: "\<exists>b evs' R' q' rv'. request_loop malloc (Some a) k rest (R, q, rv) = Inr (b, evs', R', q', rv')
     \<and> registry_inv (\<lambda>b. ext b + queued q' b) as R' \<and> queue_ok q' \<and> keeps q q' \<and> fds R' = fds R" for rest
    using Suc.IH [of q R d rest rv] Suc.prems less by blast
  show ?case
  proof (cases "read_until_delim MAX_RPC_BUF_LEN NL evs")
    case None
    then show ?thesis using Suc.prems by auto
  next
    case (Some p)
    obtain r request rest where p: "p = (r, request, rest)" by (cases p)
    show ?thesis
    proof (cases "r = SUCCESS")
      case False
      then show ?thesis using Some p again [of rest] Suc.prems(1,2) by auto
    next
      case True
      obtain b R1 q1 rv1 d1 where h: "handle_command malloc a (c_str request) (R, q, rv) = Inr (b, R1, q1, rv1)"
        "registry_inv (\<lambda>b. ext b + queued q1 b) as R1" "queue_ok q1" "keeps q q1" "fds R1 = fds R"
        "cr_mem R1 a = Some d1" "unat (refcount d1) + (Suc k - 1) < 2 ^ 64"
        using handle_command_inv [OF Suc.prems(1-5) _ Suc.prems(6), of "c_str request" rv] by auto
      show ?thesis
      proof (cases b)
        case True
        then show ?thesis using \<open>r = SUCCESS\<close> Some p h by auto
      next
        case False
        obtain b' evs' R' q' rv' where "request_loop malloc (Some a) k rest (R1, q1, rv1) = Inr (b', evs', R', q', rv')"
          "registry_inv (\<lambda>b. ext b + queued q' b) as R'" "queue_ok q'" "keeps q1 q'" "fds R' = fds R1"
          using Suc.IH [of q1 R1 d1 rest rv1] h Suc.prems(3,6) by auto
        then show ?thesis using \<open>r = SUCCESS\<close> False Some p h keeps_trans [of q q1 q'] by auto
      qed
    qed
  qed
qed

text \<open>The visit of a slot, and the removal of its client.\<close>

definition visit_room :: "addr option \<Rightarrow> 'l server \<Rightarrow> bool" where
  "visit_room co s \<longleftrightarrow> (case co of None \<Rightarrow> True | Some a \<Rightarrow> (case cr_mem (sv_reg s) a of None \<Rightarrow> True
     | Some d \<Rightarrow> unat (refcount d) + FIFO_MAX_PER_WAKE < 2 ^ 64))"

lemma visit_slot_inv:
  assumes inv: "server_inv ext as s" and a: "a \<in> set as" and m: "alloc_ok (me_task env)" and room: "visit_room (Some a) s"
  shows "\<exists>b s'. visit_slot env (p, Some a) s = Inr (b, s') \<and> server_inv ext as s' \<and> keeps (sv_queue s) (sv_queue s')
    \<and> fds (sv_reg s') = fds (sv_reg s) \<and> sv_slots s' = sv_slots s"
proof -
  obtain d where d: "cr_mem (sv_reg s) a = Some d" using client_field_inv [OF inv a] by blast
  let ?n = "\<lambda>b. ext b + queued (sv_queue s) b"
  have "registry_inv ?n as (sv_reg s)" "queue_ok (sv_queue s)" using inv by (simp_all add: server_inv_def)
  from request_loop_inv [OF this a d, of FIFO_MAX_PER_WAKE "me_task env" "sv_in s (p_fd p)" "sv_retval s"] m room d
  obtain b rest R' q' rv' where r: "request_loop (me_task env) (Some a) FIFO_MAX_PER_WAKE (sv_in s (p_fd p))
      (sv_reg s, sv_queue s, sv_retval s) = Inr (b, rest, R', q', rv')"
    "registry_inv (\<lambda>b. ext b + queued q' b) as R'" "queue_ok q'" "keeps (sv_queue s) q'" "fds R' = fds (sv_reg s)"
    by (auto simp: visit_room_def)
  have "slots_ok as R' (sv_slots s)"
    using inv r(5) slots_ok_cong [of as "sv_reg s" "sv_slots s" R'] by (simp add: server_inv_def)
  then show ?thesis using inv r by (auto simp: visit_slot_def server_inv_def)
qed

end
