(* ===== verification/System.thy ===== *)
theory System
  imports Startup Invariant
begin

text \<open>
  The server as a whole: the main thread, the worker threads, the signal handler and what is between them, the two
  self pipes and the tasks the workers have taken. Each event is what one thread does between taking and
  releasing the locks, so the runs of the server are the sequences of events.
\<close>

section \<open>State and events\<close>

text \<open>The pids in the handshake pipe, the tasks the workers have taken and the results in the other pipe.\<close>

record 'l system =
  y_sv :: "'l server"
  y_hsk :: "int list"
  y_busy :: "addr list"
  y_res :: "TaskResult list"

text \<open>
  \<open>room\<close> is whether the pipe has room for the record. A worker \<open>ERun\<close>s one of the tasks that have been taken, at the end of
  which it frees the task and writes the result.
\<close>

datatype 'l event =
    ESignal int bool
  | EPoll "int \<Rightarrow> 16 word"
  | EInput int "rd_event list"
  | EHandshake "'l main_env"
  | ETake
  | ERun "'l worker_env" addr bool
  | EResult "'l main_env"
  | EVisit "'l main_env" nat

definition worker_take :: "bool \<Rightarrow> TaskQueue \<times> addr list \<Rightarrow> (TaskQueue \<times> addr list) res" where
  "worker_take running S = (case S of (q, busy) \<Rightarrow>
     and_then (task_dequeue running q) (\<lambda>(d, q1).
       Inr (q1, case d of Got a \<Rightarrow> busy @ [a] | _ \<Rightarrow> busy)))"

definition worker_run ::
  "'l worker_env \<Rightarrow> addr \<Rightarrow> ClientRegistry \<Rightarrow> TaskQueue \<times> 'l objects
   \<Rightarrow> ((TaskResult option \<times> os_event list) \<times> TaskQueue \<times> 'l objects) res" where
  "worker_run env a R St = (case St of (q, S) \<Rightarrow>
     and_then (load (tq_mem q) a) (\<lambda>t.
     and_then (run_task env (payload t) R S) (\<lambda>(r, evs, S1).
     and_then (task_free a q) (\<lambda>q1. Inr ((r, evs), q1, S1)))))"

text \<open>One pass of the loop over the clients, at the index \<open>i\<close>.\<close>

definition visit_step :: "'l main_env \<Rightarrow> nat \<Rightarrow> 'l server \<Rightarrow> 'l server res" where
  "visit_step env i s =
     and_then (slot (sv_slots s) i) (\<lambda>x.
     and_then (visit_slot env x s) (\<lambda>(to_remove, s1).
       if to_remove then and_then (unpoll (p_fd (fst x)) s1) (drop_slot_client env x) else Inr s1))"

fun sys_do :: "'l event \<Rightarrow> 'l system \<Rightarrow> 'l system res" where
  "sys_do (ESignal pid room) y = Inr (y\<lparr>y_hsk := fst (deliver Sigusr1Handler pid room (y_hsk y, True))\<rparr>)"
| "sys_do (EPoll ready) y = Inr (y\<lparr>y_sv := (y_sv y)\<lparr>sv_slots := set_revents ready (sv_slots (y_sv y))\<rparr>\<rparr>)"
| "sys_do (EInput fd evs) y = Inr (y\<lparr>y_sv := (y_sv y)\<lparr>sv_in := (sv_in (y_sv y))(fd := sv_in (y_sv y) fd @ evs)\<rparr>\<rparr>)"
| "sys_do (EHandshake env) y = (case y_hsk y of
     [] \<Rightarrow> Inr y
   | pid # rest \<Rightarrow> and_then (queue_handshake env pid (y_sv y)) (\<lambda>s. Inr (y\<lparr>y_sv := s, y_hsk := rest\<rparr>)))"
| "sys_do ETake y =
     and_then (worker_take (sv_running (y_sv y)) (sv_queue (y_sv y), y_busy y)) (\<lambda>(q, busy).
       Inr (y\<lparr>y_sv := (y_sv y)\<lparr>sv_queue := q\<rparr>, y_busy := busy\<rparr>))"
| "sys_do (ERun env a room) y =
     (if a \<notin> set (y_busy y) then Inr y
      else
        and_then (worker_run env a (sv_reg (y_sv y)) (sv_queue (y_sv y), sv_tabs (y_sv y), sv_lib (y_sv y))) (\<lambda>((r, evs), q, tb, l).
          Inr (y\<lparr>y_sv := emit evs ((y_sv y)\<lparr>sv_queue := q, sv_tabs := tb, sv_lib := l\<rparr>), y_busy := remove1 a (y_busy y),
                 y_res := (case r of Some x \<Rightarrow> if room then y_res y @ [x] else y_res y | None \<Rightarrow> y_res y)\<rparr>)))"
| "sys_do (EResult env) y = (case y_res y of
     [] \<Rightarrow> Inr y
   | r # rest \<Rightarrow> and_then (dispatch_result env r (y_sv y)) (\<lambda>s. Inr (y\<lparr>y_sv := s, y_res := rest\<rparr>)))"
| "sys_do (EVisit env i) y =
     (if 2 \<le> i \<and> i < ps_count (sv_slots (y_sv y)) then
        and_then (visit_step env i (y_sv y)) (\<lambda>s. Inr (y\<lparr>y_sv := s\<rparr>))
      else Inr y)"

fun sys_run :: "'l event list \<Rightarrow> 'l system \<Rightarrow> 'l system res" where
  "sys_run [] y = Inr y"
| "sys_run (e # es) y = and_then (sys_do e y) (sys_run es)"

text \<open>
  What the events may rely on: the allocators return blocks that are not in use; the line buffer has its size;
  the tables find memory to grow; no request asks for the frame with the largest \<open>int\<close>; a counter of references has room; and a
  result is taken while its client is connected.
\<close>

definition task_bounded :: "payload \<Rightarrow> bool" where
  "task_bounded t = (case t of (GENERATE, c, Request req) \<Rightarrow> generate_bounded req | _ \<Rightarrow> True)"

fun admissible :: "'l event \<Rightarrow> 'l system \<Rightarrow> bool" where
  "admissible (EHandshake env) y = alloc_ok (me_task env)"
| "admissible (ERun env a room) y = (length (we_junk env) = MAX_UTXT_LINEBUF_LEN
     \<and> tables_growable (we_alloc env) (sv_tabs (y_sv y)) \<and> task_bounded (task_at (sv_queue (y_sv y)) a))"
| "admissible (EResult env) y = (alloc_ok (me_client env)
     \<and> (case y_res y of [] \<Rightarrow> True | r # rest \<Rightarrow> result_timely (y_sv y) r))"
| "admissible (EVisit env i) y = (alloc_ok (me_task env)
     \<and> (case slot (sv_slots (y_sv y)) i of Inr x \<Rightarrow> visit_room (snd x) (y_sv y) | Inl e \<Rightarrow> True))"
| "admissible e y = True"

section \<open>The invariant of the system\<close>

text \<open>The pointers to a client in the tasks taken and in the results.\<close>

definition pointers :: "'l system \<Rightarrow> addr \<Rightarrow> nat" where
  "pointers y a = count_list (map (target \<circ> task_at (sv_queue (y_sv y))) (y_busy y)) (Some a)
     + count_list (map result_client (y_res y)) (Some a)"

definition busy_ok :: "TaskQueue \<Rightarrow> addr list \<Rightarrow> bool" where
  "busy_ok q busy \<longleftrightarrow> distinct busy
     \<and> (\<forall>b \<in> set busy. tq_mem q b \<noteq> None \<and> b \<notin> set (tq_addrs q) \<and> task_ok (task_at q b))"

definition sys_inv :: "'l system \<Rightarrow> bool" where
  "sys_inv y \<longleftrightarrow> busy_ok (sv_queue (y_sv y)) (y_busy y) \<and> (\<exists>as. server_inv (pointers y) as (y_sv y))"

lemma busy_ok_keeps: "busy_ok q busy \<Longrightarrow> keeps q q' \<Longrightarrow> busy_ok q' busy"
  unfolding busy_ok_def keeps_def by metis

lemma pointers_keeps:
  "busy_ok (sv_queue (y_sv y)) (y_busy y) \<Longrightarrow> keeps (sv_queue (y_sv y)) (sv_queue s) \<Longrightarrow>
   pointers (y\<lparr>y_sv := s\<rparr>) = pointers y"
  unfolding pointers_def busy_ok_def keeps_def by (intro ext) (auto simp: o_def cong: map_cong)

lemma server_inv_mono: "server_inv m as s \<Longrightarrow> (\<And>a. n a \<le> m a) \<Longrightarrow> server_inv n as s"
  unfolding server_inv_def by (auto elim: registry_inv_mono)

text \<open>A step of the main thread that only adds tasks.\<close>

lemma sys_inv_server:
  assumes "busy_ok (sv_queue (y_sv y)) (y_busy y)" and "keeps (sv_queue (y_sv y)) (sv_queue s)"
    and "server_inv (pointers y) as s"
  shows "sys_inv (y\<lparr>y_sv := s\<rparr>)"
  using busy_ok_keeps [OF assms(1,2)] pointers_keeps [OF assms(1,2)] assms(3) by (auto simp: sys_inv_def)

section \<open>Every event keeps the invariant\<close>

lemma slots_set_revents:
  assumes "slots_wf S"
  shows "slots_wf (set_revents ready S)"
    and "map (\<lambda>x. (p_fd (fst x), snd x)) (slots (set_revents ready S)) = map (\<lambda>x. (p_fd (fst x), snd x)) (slots S)"
proof -
  let ?n = "ps_count S" and ?f = "map_option (\<lambda>p. p\<lparr>p_revents := ready (p_fd p)\<rparr>)"
  note wf = slots_wfD [OF assms]
  have at: "ps_fds (set_revents ready S) ! i = ?f (ps_fds S ! i)" if "i < ?n" for i
    using that wf(4) by (simp add: set_revents_def nth_append)
  have len: "length (ps_fds (set_revents ready S)) = length (ps_fds S)" using wf(4) by (simp add: set_revents_def)
  show wf': "slots_wf (set_revents ready S)"
    using assms at len by (auto simp: slots_wf_def) (auto simp: set_revents_def)
  have n: "length (slots (set_revents ready S)) = ?n" "length (slots S) = ?n"
    using length_slots [OF wf'] length_slots [OF assms] by (simp_all add: set_revents_def)
  show "map (\<lambda>x. (p_fd (fst x), snd x)) (slots (set_revents ready S)) = map (\<lambda>x. (p_fd (fst x), snd x)) (slots S)"
  proof (rule nth_equalityI)
    fix i assume "i < length (map (\<lambda>x. (p_fd (fst x), snd x)) (slots (set_revents ready S)))"
    then have i: "i < ?n" using n by simp
    obtain p c where pc: "ps_fds S ! i = Some p" "ps_clients S ! i = Some c" using wf(8,9) [OF i] by auto
    have "slots S ! i = (p, c)" using i wf(4,5) pc by (simp add: slots_def)
    moreover have "slots (set_revents ready S) ! i = (p\<lparr>p_revents := ready (p_fd p)\<rparr>, c)"
      using i at [OF i] len wf(4,5) pc by (simp add: slots_def) (simp add: set_revents_def)
    ultimately show "map (\<lambda>x. (p_fd (fst x), snd x)) (slots (set_revents ready S)) ! i
        = map (\<lambda>x. (p_fd (fst x), snd x)) (slots S) ! i"
      using i n by simp
  qed (use n in simp)
qed

lemma slots_ok_set_revents: "slots_ok as R S \<Longrightarrow> slots_ok as R (set_revents ready S)"
proof -
  assume ok: "slots_ok as R S"
  then have wf: "slots_wf S" by (simp add: slots_ok_def)
  note e = slots_set_revents [OF wf, of ready]
  have "map fst (map (\<lambda>x :: slot. (p_fd (fst x), snd x)) xs) = map (p_fd \<circ> fst) xs" for xs by simp
  then have "slot_fds (set_revents ready S) = slot_fds S" unfolding slot_fds_def using e(2) by metis
  moreover have "map (\<lambda>x. (p_fd (fst x), snd x)) (drop 2 (slots (set_revents ready S)))
      = map (\<lambda>x. (p_fd (fst x), snd x)) (drop 2 (slots S))"
    using e(2) by (metis drop_map)
  moreover have "ps_count (set_revents ready S) = ps_count S" by (simp add: set_revents_def)
  ultimately show ?thesis using ok e(1) by (simp add: slots_ok_def del: mset_map)
qed

lemma queue_handshake_inv:
  assumes inv: "server_inv ext as s" and m: "alloc_ok (me_task env)"
  shows "\<exists>s'. queue_handshake env pid s = Inr s' \<and> server_inv ext as s' \<and> keeps (sv_queue s) (sv_queue s')"
proof -
  obtain q' rv' where q': "enqueue (me_task env) HANDSHAKE pid None None (sv_queue s, sv_retval s) = Inr (q', rv')" "queue_ok q'"
    "keeps (sv_queue s) q'" "\<forall>b. queued q' b \<le> queued (sv_queue s) b + of_bool (HANDSHAKE \<noteq> HANDSHAKE \<and> b = 0)"
    using enqueue_inv [of "sv_queue s" "me_task env" HANDSHAKE None 0 None "[]" pid "sv_retval s"] inv m
    by (auto simp: server_inv_def)
  then have "registry_inv (\<lambda>a. ext a + queued q' a) as (sv_reg s)"
    using inv by (auto simp: server_inv_def elim!: registry_inv_mono)
  then show ?thesis using q' inv by (simp add: queue_handshake_def server_inv_def)
qed

lemma visit_step_inv:
  assumes inv: "server_inv ext as s" and m: "alloc_ok (me_task env)" and i: "2 \<le> i" "i < ps_count (sv_slots s)"
    and room: "\<And>x. slot (sv_slots s) i = Inr x \<Longrightarrow> visit_room (snd x) s"
  shows "\<exists>s' as'. visit_step env i s = Inr s' \<and> server_inv ext as' s' \<and> keeps (sv_queue s) (sv_queue s')"
proof -
  have ok: "slots_ok as (sv_reg s) (sv_slots s)" using inv by (simp add: server_inv_def)
  then obtain p a where x: "slots (sv_slots s) ! i = (p, Some a)" "a \<in> set as" "p_fd p = fst (fds (sv_reg s) a)"
    using slots_ok_at i by blast
  have sl: "slot (sv_slots s) i = Inr (p, Some a)" using slot_wf ok i(2) x(1) by (simp add: slots_ok_def)
  then have "visit_room (Some a) s" using room by auto
  then obtain b s1 where v: "visit_slot env (p, Some a) s = Inr (b, s1)" "server_inv ext as s1"
    "keeps (sv_queue s) (sv_queue s1)" "fds (sv_reg s1) = fds (sv_reg s)" "sv_slots s1 = sv_slots s"
    using visit_slot_inv [where p = p, OF inv x(2) m] by blast
  show ?thesis
  proof (cases b)
    case False
    then show ?thesis using sl v by (auto simp: visit_step_def)
  next
    case True
    obtain S' where S': "server_remove_pollslots (p_fd p) (sv_slots s1) = Inr S'" "slots_ok (remove1 a as) (sv_reg s1) S'"
      using slots_ok_remove [of as "sv_reg s1" "sv_slots s1" a] v(2,4) x(2,3) by (auto simp: server_inv_def)
    have "\<exists>s2. remove_client env a (s1\<lparr>sv_slots := S'\<rparr>) = Inr s2 \<and> server_inv ext (remove1 a as) s2 \<and> sv_queue s2 = sv_queue s1"
      using remove_client_inv [of ext "s1\<lparr>sv_slots := S'\<rparr>" as a env] v(2) S'(2) x(2) by (auto simp: server_inv_def)
    then show ?thesis using True sl v S'(1) by (auto simp: visit_step_def unpoll_def drop_slot_client_def)
  qed
qed

lemma worker_take_inv:
  assumes inv: "server_inv ext as s" and b: "busy_ok (sv_queue s) busy"
  shows "\<exists>q busy'. worker_take running (sv_queue s, busy) = Inr (q, busy') \<and> busy_ok q busy' \<and> queue_ok q
    \<and> task_at q = task_at (sv_queue s)
    \<and> (\<forall>a. count_list (map (target \<circ> task_at q) busy') (Some a) + queued q a
         = count_list (map (target \<circ> task_at q) busy) (Some a) + queued (sv_queue s) a)"
proof -
  let ?q = "sv_queue s"
  have q: "tq_rep ?q (tq_addrs ?q)" "queue_ok ?q" using inv by (simp_all add: server_inv_def queue_ok_def tq_inv_def)
  show ?thesis
  proof (cases "running \<and> tq_addrs ?q \<noteq> []")
    case False
    then have "task_dequeue running ?q = Inr (if running then Waits else NoTask, ?q)"
      using task_dequeue_empty [of ?q] q(1) by (auto simp: task_dequeue_stopped)
    then show ?thesis using b q(2) by (auto simp: worker_take_def)
  next
    case True
    then obtain a rest where a: "tq_addrs ?q = a # rest" by (meson list.exhaust)
    then obtain q' where q': "task_dequeue True ?q = Inr (Got a, q')" "tq_rep q' rest" "tq_mem q' = tq_mem ?q"
      using task_dequeue_rep [of ?q a rest] q(1) by auto
    have at: "task_at q' = task_at ?q" using q'(3) by (simp add: task_at_def fun_eq_iff)
    have rest: "tq_addrs q' = rest" by (rule tq_rep_addrs [OF q'(2)])
    have lst: "tq_list ?q = task_at ?q a # tq_list q'" by (simp add: tq_list_def a rest at)
    have "a \<notin> set rest" "tq_mem ?q a \<noteq> None" using q(1) a path_allocated by (auto simp: tq_rep_def)
    then have "busy_ok q' (busy @ [a])"
      using b q(2) a at rest lst q'(3) by (auto simp: busy_ok_def queue_ok_def)
    moreover have "queue_ok q'" using q(2) lst tq_inv_rep [OF q'(2)] by (simp add: queue_ok_def)
    ultimately show ?thesis using True q'(1) at lst by (auto simp: worker_take_def queued_def)
  qed
qed

text \<open>A worker answers every task with a result for the client of the task, or with none.\<close>

lemma usertxt_total: "length junk = MAX_UTXT_LINEBUF_LEN \<Longrightarrow> \<exists>r. usertxt_get_balance db junk name = Inr (auth_result r)"
  using usertxt_loop_spec by (cases db) (auto simp: usertxt_get_balance_def auth_result_def intro: exI [of _ None])

lemma do_authorise_total:
  assumes "length junk = MAX_UTXT_LINEBUF_LEN"
  shows "\<exists>r. do_authorise db junk a name = Inr r \<and> result_client r = Some a"
proof -
  obtain o' where "usertxt_get_balance db junk name = Inr (auth_result o')" using usertxt_total [OF assms] by blast
  then show ?thesis
    by (auto simp: do_authorise_def auth_result_def result_client_def split: option.split)
qed

lemma do_handshake_client: "fst (do_handshake env pid c2s s2c) = Some r \<Longrightarrow> result_client r = None"
  by (auto simp: do_handshake_def result_client_def Let_def split_beta split: if_splits option.splits)

lemma run_task_total:
  assumes t: "task_ok t" "task_bounded t" and tb: "tables_ok tb" "tables_growable (we_alloc env) tb" and R: "registry_ok R"
    and junk: "length (we_junk env) = MAX_UTXT_LINEBUF_LEN"
  shows "\<exists>r evs tb' l'. run_task env t R (tb, l) = Inr (r, evs, tb', l') \<and> tables_ok tb'
    \<and> (case r of None \<Rightarrow> True | Some x \<Rightarrow> result_client x = target t)"
proof -
  obtain type info data where td: "t = (type, info, data)" by (cases t)
  show ?thesis
  proof (cases info)
    case (RawPid pid)
    then obtain c2s s2c where "type = HANDSHAKE" "data = FifoNames c2s s2c"
      using t(1) td by (auto simp: task_ok_def split: task_data.splits)
    then show ?thesis using RawPid td tb(1) do_handshake_client [of "we_hsk env" pid c2s s2c]
      by (cases "do_handshake (we_hsk env) pid c2s s2c") (auto simp: run_task_def target_def split: option.split)
  next
    case (ClientPtr p)
    then obtain a req where c: "info = ClientPtr (Some a)" "data = Request req" "type \<noteq> HANDSHAKE"
      using t(1) td by (auto simp: task_ok_def split: option.splits task_data.splits)
    show ?thesis
    proof (cases "type = AUTHORISE \<or> type = BARRIER")
      case True
      obtain r where "do_authorise (we_db env) (we_junk env) a req = Inr r" "result_client r = Some a"
        using do_authorise_total [OF junk] by blast
      then show ?thesis using True td c tb(1) by (auto simp: run_task_def target_def)
    next
      case False
      then have ty: "type \<notin> {HANDSHAKE, AUTHORISE, BARRIER}" using c(3) by simp
      have "type = GENERATE \<Longrightarrow> generate_bounded req" using t(2) td c by (simp add: task_bounded_def)
      then have "replied True (do_rpc env type R a req (tb, l))"
        using rpc_replied [OF tb(1) R ty, of True env req a l] tb(2) by blast
      then obtain x y z evs tb' l' where r: "do_rpc env type R a req (tb, l) = Inr ((x, y, z), evs, tb', l')" "tables_ok tb'"
        by (auto simp: replied_def)
      have "run_task env t R (tb, l) = Inr (Some (ResRpc a x y z), evs, tb', l')"
        using ty r(1) td c by (cases type) (simp_all add: run_task_def)
      then show ?thesis using r(2) td c by (simp add: target_def result_client_def)
    qed
  qed
qed

lemma worker_run_inv:
  assumes inv: "server_inv ext as s" and b: "busy_ok (sv_queue s) busy" and a: "a \<in> set busy"
    and env: "length (we_junk env) = MAX_UTXT_LINEBUF_LEN" "tables_growable (we_alloc env) (sv_tabs s)"
    "task_bounded (task_at (sv_queue s) a)"
  shows "\<exists>r evs q tb l. worker_run env a (sv_reg s) (sv_queue s, sv_tabs s, sv_lib s) = Inr ((r, evs), q, tb, l)
    \<and> tables_ok tb \<and> queue_ok q \<and> queued q = queued (sv_queue s) \<and> busy_ok q (remove1 a busy)
    \<and> (\<forall>b \<in> set busy. b \<noteq> a \<longrightarrow> task_at q b = task_at (sv_queue s) b)
    \<and> (case r of None \<Rightarrow> True | Some x \<Rightarrow> result_client x = target (task_at (sv_queue s) a))"
proof -
  let ?q = "sv_queue s"
  obtain t where t: "tq_mem ?q a = Some t" "a \<notin> set (tq_addrs ?q)" "task_ok (payload t)" "task_at ?q a = payload t"
    using b a by (auto simp: busy_ok_def task_at_def)
  have rep: "tq_rep ?q (tq_addrs ?q)" using inv by (simp add: server_inv_def queue_ok_def tq_inv_def)
  obtain q where q: "task_free a ?q = Inr q" "tq_rep q (tq_addrs ?q)" "tq_mem q = (tq_mem ?q)(a := None)"
    using task_free_rep [OF rep t(2)] t(1) by auto
  have "registry_ok (sv_reg s)" "tables_ok (sv_tabs s)" using inv registry_inv_ok by (auto simp: server_inv_def)
  then obtain r evs tb l where r: "run_task env (payload t) (sv_reg s) (sv_tabs s, sv_lib s) = Inr (r, evs, tb, l)" "tables_ok tb"
    "case r of None \<Rightarrow> True | Some x \<Rightarrow> result_client x = target (payload t)"
    using run_task_total [OF t(3), of "sv_tabs s" env "sv_reg s" "sv_lib s"] env t(4) by auto
  have at: "task_at q b = task_at ?q b" if "b \<noteq> a" for b using that q(3) by (simp add: task_at_def)
  have addrs: "tq_addrs q = tq_addrs ?q" by (rule tq_rep_addrs [OF q(2)])
  have lst: "tq_list q = tq_list ?q"
    unfolding tq_list_def addrs using at t(2) by (intro map_cong refl) metis
  have "queue_ok q" using inv lst tq_inv_rep [OF q(2)] by (simp add: server_inv_def queue_ok_def)
  moreover have "busy_ok q (remove1 a busy)" using b at addrs q(3) by (auto simp: busy_ok_def)
  ultimately show ?thesis using r q(1) t at lst by (auto simp: worker_run_def queued_def split: option.splits)
qed

lemma count_list_remove1: "a \<in> set xs \<Longrightarrow> distinct xs \<Longrightarrow>
   count_list (map f xs) v = count_list (map f (remove1 a xs)) v + of_bool (f a = v)"
  by (induction xs) (auto split: if_splits)

text \<open>The pointers of the results grow by at most what those of the tasks taken lose.\<close>

lemma sys_do_inv:
  assumes inv: "sys_inv y" and ok: "admissible e y"
  shows "\<exists>y'. sys_do e y = Inr y' \<and> sys_inv y'"
proof -
  obtain as where s: "server_inv (pointers y) as (y_sv y)" and b: "busy_ok (sv_queue (y_sv y)) (y_busy y)"
    using inv by (auto simp: sys_inv_def)
  note main = sys_inv_server [OF b]
  show ?thesis
  proof (cases e)
    case (ESignal pid room)
    have "pointers (y\<lparr>y_hsk := fst (deliver Sigusr1Handler pid room (y_hsk y, True))\<rparr>) = pointers y"
      by (simp add: pointers_def fun_eq_iff)
    then show ?thesis using s b ESignal by (auto simp: sys_inv_def)
  next
    case (EPoll ready)
    have "server_inv (pointers y) as ((y_sv y)\<lparr>sv_slots := set_revents ready (sv_slots (y_sv y))\<rparr>)"
      using s slots_ok_set_revents by (simp add: server_inv_def)
    from main [OF _ this] show ?thesis using EPoll by simp
  next
    case (EInput fd evs)
    have "server_inv (pointers y) as ((y_sv y)\<lparr>sv_in := (sv_in (y_sv y))(fd := sv_in (y_sv y) fd @ evs)\<rparr>)"
      using s by (simp add: server_inv_def)
    from main [OF _ this] show ?thesis using EInput by simp
  next
    case (EHandshake env)
    show ?thesis
    proof (cases "y_hsk y")
      case Nil
      then show ?thesis using EHandshake inv by simp
    next
      case (Cons pid rest)
      obtain s' where s': "queue_handshake env pid (y_sv y) = Inr s'" "server_inv (pointers y) as s'"
        "keeps (sv_queue (y_sv y)) (sv_queue s')"
        using queue_handshake_inv [OF s, of env pid] ok EHandshake by auto
      have "pointers (y\<lparr>y_sv := s', y_hsk := rest\<rparr>) = pointers (y\<lparr>y_sv := s'\<rparr>)"
        by (simp add: pointers_def fun_eq_iff)
      then have "sys_inv (y\<lparr>y_sv := s', y_hsk := rest\<rparr>)" using main [OF s'(3,2)] by (simp add: sys_inv_def)
      then show ?thesis using EHandshake Cons s'(1) by simp
    qed
  next
    case ETake
    obtain q busy where q: "worker_take (sv_running (y_sv y)) (sv_queue (y_sv y), y_busy y) = Inr (q, busy)" "busy_ok q busy"
      "queue_ok q" "task_at q = task_at (sv_queue (y_sv y))"
      "\<forall>a. count_list (map (target \<circ> task_at q) busy) (Some a) + queued q a
         = count_list (map (target \<circ> task_at q) (y_busy y)) (Some a) + queued (sv_queue (y_sv y)) a"
      using worker_take_inv [OF s b] by blast
    let ?y = "y\<lparr>y_sv := (y_sv y)\<lparr>sv_queue := q\<rparr>, y_busy := busy\<rparr>"
    have "(\<lambda>a. pointers ?y a + queued q a) = (\<lambda>a. pointers y a + queued (sv_queue (y_sv y)) a)"
      using q(4,5) by (auto simp: pointers_def add.commute add.left_commute)
    then have "server_inv (pointers ?y) as (y_sv ?y)" using s q(3) by (simp add: server_inv_def)
    then show ?thesis using ETake q by (auto simp: sys_inv_def)
  next
    case (ERun env a room)
    show ?thesis
    proof (cases "a \<in> set (y_busy y)")
      case False
      then show ?thesis using ERun inv by simp
    next
      case True
      obtain r evs q tb l where r: "worker_run env a (sv_reg (y_sv y)) (sv_queue (y_sv y), sv_tabs (y_sv y), sv_lib (y_sv y))
          = Inr ((r, evs), q, tb, l)" "tables_ok tb" "queue_ok q" "queued q = queued (sv_queue (y_sv y))"
        "busy_ok q (remove1 a (y_busy y))" "\<forall>b \<in> set (y_busy y). b \<noteq> a \<longrightarrow> task_at q b = task_at (sv_queue (y_sv y)) b"
        "case r of None \<Rightarrow> True | Some x \<Rightarrow> result_client x = target (task_at (sv_queue (y_sv y)) a)"
        using worker_run_inv [OF s b True, of env] ok ERun by auto
      let ?res = "case r of Some x \<Rightarrow> if room then y_res y @ [x] else y_res y | None \<Rightarrow> y_res y"
      let ?s = "emit evs ((y_sv y)\<lparr>sv_queue := q, sv_tabs := tb, sv_lib := l\<rparr>)"
      let ?y = "y\<lparr>y_sv := ?s, y_busy := remove1 a (y_busy y), y_res := ?res\<rparr>"
      have d: "distinct (y_busy y)" using b by (simp add: busy_ok_def)
      have same: "map (target \<circ> task_at q) (remove1 a (y_busy y)) = map (target \<circ> task_at (sv_queue (y_sv y))) (remove1 a (y_busy y))"
        using r(6) d by auto
      have "pointers ?y x \<le> pointers y x" for x
        using r(7) count_list_remove1 [OF True d, of "target \<circ> task_at (sv_queue (y_sv y))" "Some x"]
        by (auto simp: pointers_def emit_def same simp del: map_map split: option.splits)
      moreover have "server_inv (pointers y) as ?s" using s r(2-4) by (simp add: server_inv_def emit_def)
      ultimately have "server_inv (pointers ?y) as (y_sv ?y)" by (auto elim: server_inv_mono)
      then have "sys_inv ?y" using r(5) by (auto simp: sys_inv_def emit_def)
      then show ?thesis using ERun True r(1) by simp
    qed
  next
    case (EResult env)
    show ?thesis
    proof (cases "y_res y")
      case Nil
      then show ?thesis using EResult inv by simp
    next
      case (Cons r rest)
      let ?y = "y\<lparr>y_res := rest\<rparr>"
      have "pointers y = (\<lambda>a. pointers ?y a + of_bool (result_client r = Some a))" using Cons by (auto simp: pointers_def)
      then obtain s' as' where s': "dispatch_result env r (y_sv y) = Inr s'" "server_inv (pointers ?y) as' s'"
        "sv_queue s' = sv_queue (y_sv y)"
        using dispatch_result_inv [of "pointers ?y" r as "y_sv y" env] s ok EResult Cons by auto
      have "pointers (y\<lparr>y_sv := s', y_res := rest\<rparr>) = pointers ?y" using s'(3) by (simp add: pointers_def fun_eq_iff)
      then have "sys_inv (y\<lparr>y_sv := s', y_res := rest\<rparr>)" using s' b by (auto simp: sys_inv_def)
      then show ?thesis using EResult Cons s'(1) by simp
    qed
  next
    case (EVisit env i)
    show ?thesis
    proof (cases "2 \<le> i \<and> i < ps_count (sv_slots (y_sv y))")
      case False
      then show ?thesis using EVisit inv by auto
    next
      case True
      have room: "visit_room (snd x) (y_sv y)" if "slot (sv_slots (y_sv y)) i = Inr x" for x
        using ok EVisit that by simp
      obtain s' as' where s': "visit_step env i (y_sv y) = Inr s'" "server_inv (pointers y) as' s'"
        "keeps (sv_queue (y_sv y)) (sv_queue s')"
        using visit_step_inv [OF s, of env i] room ok EVisit True by auto
      from main [OF s'(3,2)] show ?thesis using EVisit True s'(1) by simp
    qed
  qed
qed

section \<open>Reachable states\<close>

text \<open>A server that has just started; the kernel gives the two self pipes different descriptors.\<close>

definition idle :: "'l server \<Rightarrow> 'l system" where
  "idle s = \<lparr>y_sv = s, y_hsk = [], y_busy = [], y_res = []\<rparr>"

inductive reachable :: "'l system \<Rightarrow> bool" where
  start: "server_start env args l = Inr (True, P, tp, s) \<Longrightarrow> hsk_r P \<noteq> rpc_r P \<Longrightarrow> reachable (idle s)"
| step: "reachable y \<Longrightarrow> admissible e y \<Longrightarrow> sys_do e y = Inr y' \<Longrightarrow> reachable y'"

lemma server_started:
  assumes "server_start env args l = Inr (True, P, tp, s)"
  obtains S running where "s = initial_server l S running SUCCESS" "slots_wf S"
    "slots S = [(\<lparr>p_fd = hsk_r P, p_events = POLLIN, p_revents = 0\<rparr>, None),
                (\<lparr>p_fd = rpc_r P, p_events = POLLIN, p_revents = 0\<rparr>, None)]"
proof -
  obtain e1 made where made: "server_setup_pipes (st_hsk env) (st_rpc env) (st_pfds env) (st_clients env) = Inr (e1, made)"
    using assms by (auto simp: server_start_def Let_def split: prod.splits if_splits)
  then obtain S running where S: "made = Some (P, S)" "s = initial_server l S running SUCCESS"
    using assms by (auto simp: server_start_def Let_def split: prod.splits if_splits option.splits elim!: and_then_InrE)
  then obtain hr hw rr rw where sys: "st_hsk env = Some (hr, hw)" "st_rpc env = Some (rr, rw)" "st_pfds env" "st_clients env"
    using made by (auto simp: server_setup_pipes_def split: option.splits if_splits)
  then show thesis using that [of S running] server_setup_pipes_slots [of hr hw rr rw, THEN conjunct1] made S by auto
qed

lemma sys_inv_idle:
  assumes "server_start env args l = Inr (True, P, tp, s)" and "hsk_r P \<noteq> rpc_r P"
  shows "sys_inv (idle s)"
proof -
  obtain S running where S: "s = initial_server l S running SUCCESS" "slots_wf S"
    "slots S = [(\<lparr>p_fd = hsk_r P, p_events = POLLIN, p_revents = 0\<rparr>, None),
                (\<lparr>p_fd = rpc_r P, p_events = POLLIN, p_revents = 0\<rparr>, None)]"
    using server_started [OF assms(1)] by blast
  have "ps_count S = 2" using length_slots [OF S(2)] S(3) by simp
  then have "slots_ok [] creg_init S" using S(2,3) assms(2) by (simp add: slots_ok_def slot_fds_def)
  moreover have "queue_ok task_init" "queued task_init = (\<lambda>a. 0)"
    by (simp_all add: queue_ok_def queued_def tq_inv_init fun_eq_iff)
  moreover have "tables_ok tables_init"
    by (simp add: tables_ok_def tables_wf_def tables_init_def table_wf_empty)
  ultimately have "server_inv (\<lambda>a. 0) [] s" using registry_inv_init S(1) by (simp add: server_inv_def initial_server_def)
  moreover have "pointers (idle s) = (\<lambda>a. 0)" by (simp add: pointers_def idle_def fun_eq_iff)
  ultimately have "server_inv (pointers (idle s)) [] s" by simp
  then show ?thesis by (auto simp: sys_inv_def idle_def busy_ok_def)
qed

text \<open>The threads are a transition system that survives every admissible event.\<close>

definition sys_next :: "'l event \<Rightarrow> 'l system \<Rightarrow> 'l system option" where
  "sys_next e y = (case sys_do e y of Inl f \<Rightarrow> None | Inr y' \<Rightarrow> Some y')"

lemma sys_next_Some [simp]: "sys_next e y = Some y' \<longleftrightarrow> sys_do e y = Inr y'"
  by (simp add: sys_next_def split: sum.split)

interpretation sv_threads: live_transitions admissible sys_next sys_inv
proof
  show "sys_inv t" if "sys_inv s" "admissible e s" "sys_next e s = Some t" for s t :: "'b system" and e
    using sys_do_inv [OF that(1,2)] that(3) by auto
  show "sys_next e s \<noteq> None" if "sys_inv s" "admissible e s" for s :: "'b system" and e
    using sys_do_inv [OF that] by (auto simp: sys_next_def)
qed

lemma sys_run_next: "run_of sys_next es y = Some y' \<longleftrightarrow> sys_run es y = Inr y'"
proof (induction es arbitrary: y)
  case (Cons e es)
  then show ?case by (cases "sys_do e y") (auto simp: sys_next_def)
qed auto

lemma admissible_runs: "sys_inv y \<Longrightarrow> guarded admissible sys_next es y \<Longrightarrow> \<exists>y'. sys_run es y = Inr y' \<and> sys_inv y'"
  using sv_threads.run_survives [of y es] by (simp add: sys_run_next)

lemma reachable_inv: "reachable y \<Longrightarrow> sys_inv y"
proof (induction rule: reachable.induct)
  case (start env args l P tp s)
  then show ?case by (rule sys_inv_idle)
next
  case (step y e y')
  then show ?case using sv_threads.keeps [of y e y'] by simp
qed

text \<open>The reachable states are those at the end of the runs of a started server in which every event is admissible when it happens.\<close>

lemma reachable_run: "reachable y \<Longrightarrow> guarded admissible sys_next es y \<Longrightarrow> sys_run es y = Inr y' \<Longrightarrow> reachable y'"
proof (induction es arbitrary: y)
  case (Cons e es)
  then obtain y1 where "sys_do e y = Inr y1" "sys_run es y1 = Inr y'" by auto
  then show ?case using Cons.IH [of y1] Cons.prems reachable.step [of y e y1] by (simp add: sys_next_def)
qed simp

section \<open>Properties\<close>


definition at_start :: "PollSlots \<Rightarrow> unit system" where
  "at_start S = idle (initial_server () S True SUCCESS)"

lemma at_start_reachable: "\<exists>S. reachable (at_start S) \<and> slot_fds S = [3, 5]"
proof -
  have n: "1 \<le> (4 :: int)" "(4 :: int) < 2 ^ 61" by simp_all
  show ?thesis
  proof (cases rule: server_start_cases [OF n, of granting "()"])
    case (5 hr hw rr rw S)
    then have "hr = 3" "rr = 5" by (simp_all add: granting_def)
    then have "reachable (at_start S)" unfolding at_start_def
      by (intro reachable.start [OF 5(3)]) simp
    then show ?thesis using 5 \<open>hr = 3\<close> \<open>rr = 5\<close> by (auto simp: slot_fds_def)
  qed (use granting_all [of 4] in auto)
qed




text \<open>C10: each connected client is polled exactly once: in every reachable state the slots above the two self pipes are, up to
  their order, the descriptors and pointers of the clients of the registry, and no descriptor is polled twice.\<close>

theorem clients_polled_once:
  assumes "reachable y"
  shows "\<exists>as. reg_rep (sv_reg (y_sv y)) as \<and> distinct (slot_fds (sv_slots (y_sv y)))
    \<and> mset (map (\<lambda>x. (p_fd (fst x), snd x)) (drop 2 (slots (sv_slots (y_sv y)))))
      = mset (map (\<lambda>a. (fst (fds (sv_reg (y_sv y)) a), Some a)) as)"
  using reachable_inv [OF assms] by (auto simp: sys_inv_def server_inv_def registry_inv_def slots_ok_def)

theorem clients_polled_once_witness:
  "\<exists>S as. reg_rep creg_init as \<and> distinct (slot_fds S) \<and> slot_fds S = [3, 5]
     \<and> size (mset (drop 2 (slots S))) = length as"
proof -
  obtain S where r: "reachable (at_start S)" "slot_fds S = [3, 5]" using at_start_reachable by blast
  from clients_polled_once [OF r(1)] obtain as where as: "reg_rep creg_init as" "distinct (slot_fds S)"
    "mset (map (\<lambda>x. (p_fd (fst x), snd x)) (drop 2 (slots S))) = mset (map (\<lambda>a. (fst (fds creg_init a), Some a)) as)"
    by (auto simp: at_start_def idle_def initial_server_def)
  then show ?thesis using r(2) mset_eq_length [OF as(3)] by (intro exI [of _ S] exI [of _ as]) simp
qed

end
