(* ===== verification/Session.thy ===== *)
theory Session
  imports System
begin

text \<open>
  A run of the server computed event by event: it shows that the states the properties of the races speak of are reached.
\<close>

unbundle bit_operations_syntax

section \<open>A client that is stopped before its answer comes\<close>

text \<open>
  A server with four threads, one client with the pid 100 and the address 8 that logs in under a name there is no
  database for, and is stopped before the answer comes.
\<close>

definition first_slots :: PollSlots where
  "first_slots = \<lparr>ps_fds = [Some \<lparr>p_fd = 3, p_events = POLLIN, p_revents = 0\<rparr>, Some \<lparr>p_fd = 5, p_events = POLLIN, p_revents = 0\<rparr>, None]
       @ replicate 29 None,
     ps_clients = [Some None, Some None, None] @ replicate 29 None, ps_capacity = 32, ps_count = 2\<rparr>"

definition first_state :: "lib_call list system" where
  "first_state = idle (initial_server [] first_slots True SUCCESS)"

definition log_main :: "lib_call list main_env" where
  "log_main = \<lparr>me_lib = log_lib, me_task = (\<lambda>m. if m 16 = None then Some 16 else None),
     me_client = (\<lambda>m. if m 8 = None then Some 8 else None), me_pfds = (\<lambda>n. True), me_slots = (\<lambda>n. True)\<rparr>"

definition session :: "lib_call list event list" where
  "session = [ESignal 100 True, EHandshake log_main, ETake, ERun log_env 16 True, EResult log_main,
     EInput 10 [Data (''Login b'' @ [NL])], EPoll (\<lambda>fd. if fd = 10 then POLLIN else 0), EVisit log_main 2,
     ETake, ERun log_env 16 True, EInput 10 [Eof], EPoll (\<lambda>fd. if fd = 10 then POLLHUP else 0)]"

lemma first_state_reachable: "reachable first_state"
proof -
  have "replicate 32 (None :: 'x option) = None # None # None # replicate 29 None" for x :: 'x by (simp add: numeral_eq_Suc)
  then have "server_setup_pipes (Some (3, 4)) (Some (5, 6)) True True
      = Inr (SUCCESS, Some (\<lparr>hsk_r = 3, hsk_w = 4, rpc_r = 5, rpc_w = 6\<rparr>, first_slots))"
    by (simp add: server_setup_pipes_def set_slot_def POLLFD_INIT_N_def Let_def first_slots_def numeral_eq_Suc)
  moreover have "threadpool_init True (\<lambda>i. True) (True, pool 4 NoThreads)
      = Inr (SUCCESS, True, pool 4 (Threads (replicate 4 Runs)))"
    using threadpool_init_ok [of "pool 4 NoThreads" "\<lambda>i. True" True] by (simp add: pool_def)
  ultimately have "server_start granting [show_int 4] [] = Inr (True, \<lparr>hsk_r = 3, hsk_w = 4, rpc_r = 5, rpc_w = 6\<rparr>,
      pool 4 (Threads (replicate 4 Runs)), initial_server [] first_slots True SUCCESS)"
    using get_threadpool_size_number [of 4] setup_signals_ok [of "\<lambda>s. True"]
    by (simp add: server_start_def LONG_MAX_def granting_def pool_def)
  then show ?thesis unfolding first_state_def by (rule reachable.start) simp
qed

lemmas session_defs = first_state_def session_def idle_def initial_server_def deliver_def queue_handshake_def enqueue_def
  task_enqueue_def task_init_def new_task_def link_task_def log_main_def worker_take_def worker_run_def task_dequeue_def
  task_free_def emit_def Let_def payload_def run_task_def do_handshake_def log_env_def open_write_end_def open_retry.simps
  MAX_OPEN_RETRIES_def dispatch_result_def on_handshake_def creg_insert_def creg_init_def server_insert_pollslots_def
  first_slots_def set_slot_def poke_def set_revents_def visit_step_def slot_def peek_def visit_slot_def handle_command_def c_str_def
  strncmp_eq_def new_client_def submit_def creg_acquire_client_def do_authorise_def usertxt_get_balance_def strncpy0_def
  MAX_RPC_BUF_LEN_def

lemma session_reads:
  "read_until_delim 128 NL [Data (''Login b'' @ [NL])] = Some (SUCCESS, ''Login b'', [])"
  "read_until_delim 128 NL [] = None"
  by (simp_all add: read_until_delim_def read_delim_loop.simps)

lemma session_bits:
  "POLLIN AND (POLLERR OR POLLNVAL) = 0" "POLLIN AND (POLLIN OR POLLHUP) \<noteq> 0" "POLLIN \<noteq> 0"
  "FIFO_MAX_PER_WAKE = Suc (Suc (Suc (Suc (Suc 0))))"
  by (simp_all add: POLLHUP_def POLLERR_def POLLNVAL_def POLLIN_def FIFO_MAX_PER_WAKE_def)

lemma session_end:
  "\<exists>y c. sys_run session first_state = Inr y \<and> 2 < ps_count (sv_slots (y_sv y))
     \<and> slot (sv_slots (y_sv y)) 2 = Inr (\<lparr>p_fd = 10, p_events = POLLIN, p_revents = POLLHUP\<rparr>, Some 8)
     \<and> sv_in (y_sv y) 10 = [Eof] \<and> cr_mem (sv_reg (y_sv y)) 8 = Some c \<and> refcount c = 2 \<and> y_res y = [ResAuthUn 8]"
  by (simp add: session_defs session_bits session_reads [simplified])

lemma tables_init_growable: "tables_growable (\<lambda>n. True) tables_init"
  by (simp add: tables_growable_def growable_def tables_init_def empty_table_def grow_array_def realloc_ok_def Let_def
      int32_def INITIAL_CAPACITY_def sizeof_CanvasEntry_def sizeof_SpriteEntry_def sizeof_PlacementEntry_def)

lemma session_admissible: "guarded admissible sys_next session first_state"
  by (simp add: sys_next_def session_defs session_bits session_reads [simplified] alloc_ok_def malloc_ok_def valid_addr_def MAX_UTXT_LINEBUF_LEN_def
      tables_init_growable task_bounded_def task_at_def result_timely_def slot_fds_def slots_def visit_room_def)

lemma session_reachable:
  obtains y :: "lib_call list system" and c where "reachable y" "2 < ps_count (sv_slots (y_sv y))"
     "slot (sv_slots (y_sv y)) 2 = Inr (\<lparr>p_fd = 10, p_events = POLLIN, p_revents = POLLHUP\<rparr>, Some 8)"
     "sv_in (y_sv y) 10 = [Eof]" "cr_mem (sv_reg (y_sv y)) 8 = Some c" "refcount c = 2" "y_res y = [ResAuthUn 8]"
  using session_end by (metis reachable_run [OF first_state_reachable session_admissible])

section \<open>A client that asks for a barrier\<close>

definition barrier_session :: "lib_call list event list" where
  "barrier_session = [ESignal 100 True, EHandshake log_main, ETake, ERun log_env 16 True, EResult log_main,
     EInput 10 [Data (''barrier 0'' @ [NL])], EPoll (\<lambda>fd. if fd = 10 then POLLIN else 0), EVisit log_main 2, ETake]"

lemma barrier_reads: "read_until_delim 128 NL [Data (''barrier 0'' @ [NL])] = Some (SUCCESS, ''barrier 0'', [])"
  by (simp add: read_until_delim_def read_delim_loop.simps)

lemma barrier_end:
  "\<exists>y. sys_run barrier_session first_state = Inr y \<and> y_busy y = [16] \<and> y_res y = []
     \<and> task_at (sv_queue (y_sv y)) 16 = (BARRIER, ClientPtr (Some 8), Request ''0'')"
  by (simp add: barrier_session_def session_defs session_bits session_reads(2) barrier_reads [simplified] rpc_table_def task_at_def)

lemma barrier_admissible: "guarded admissible sys_next barrier_session first_state"
  by (simp add: sys_next_def barrier_session_def session_defs session_bits session_reads(2) barrier_reads [simplified] rpc_table_def task_at_def
      alloc_ok_def malloc_ok_def valid_addr_def MAX_UTXT_LINEBUF_LEN_def tables_init_growable task_bounded_def
      result_timely_def slot_fds_def slots_def visit_room_def)

lemma barrier_reachable:
  obtains y :: "lib_call list system" where "reachable y" "y_busy y = [16]" "y_res y = []"
    "task_at (sv_queue (y_sv y)) 16 = (BARRIER, ClientPtr (Some 8), Request ''0'')"
  using barrier_end by (metis reachable_run [OF first_state_reachable barrier_admissible])

section \<open>Properties\<close>

text \<open>C33: every task is well typed: in every reachable state a queued task, and one that a worker has taken, either is a handshake, with a pid and the
  names of the two FIFOs, or is of another type, with a pointer to a client that is not null and a request. The handlers of the
  workers, which read the union by the type alone, rely on it.\<close>

theorem tasks_well_typed:
  assumes "reachable y"
  shows "list_all task_ok (tq_list (sv_queue (y_sv y))) \<and> list_all (task_ok \<circ> task_at (sv_queue (y_sv y))) (y_busy y)"
  using reachable_inv [OF assms] by (auto simp: sys_inv_def server_inv_def queue_ok_def busy_ok_def list_all_iff)

theorem tasks_well_typed_witness:
  "\<exists>y :: lib_call list system. reachable y \<and> y_busy y = [16] \<and> task_ok (task_at (sv_queue (y_sv y)) 16)
     \<and> fst (task_at (sv_queue (y_sv y)) 16) = BARRIER"
proof -
  obtain y :: "lib_call list system" where y: "reachable y" "y_busy y = [16]"
    "task_at (sv_queue (y_sv y)) 16 = (BARRIER, ClientPtr (Some 8), Request ''0'')"
    by (rule barrier_reachable)
  from tasks_well_typed [OF y(1)] y show ?thesis by auto
qed

end
