(* ===== verification/Races.thy ===== *)
theory Races
  imports Session
begin

unbundle bit_operations_syntax

text \<open>
  What happens when an event comes at a moment the code does not expect: a result for a client that has left, a second rejection, a
  \<open>barrier\<close>. Each property follows the handlers of \<open>animate_server.c\<close> from a state in which the event is not
  admissible.
\<close>

section \<open>Results of clients that have left\<close>

lemma late_result:
  assumes "cr_mem (sv_reg s) a = Some c" and "dead c" and "refcount c = 1" and "result_client r = Some a"
  shows "dispatch_result env r s = Inl (UseAfterFree a)"
proof -
  have rel: "release_client a s = Inr (emit (destroy_client_pipes (client_pid c) (c2s_fd c) (s2c_fd c))
      (s\<lparr>sv_reg := (sv_reg s)\<lparr>cr_mem := (cr_mem (sv_reg s))(a := None)\<rparr>\<rparr>))"
    using assms(1-3) by (simp add: release_client_def creg_release_client_def Let_def)
  show ?thesis
    using assms by (cases r)
      (simp_all add: result_client_def dispatch_result_def on_auth_ok_def on_reject_def on_rpc_done_def rel client_field_def
        set_client_def upd_client_def emit_def)
qed

text \<open>a result for a client that has been removed and has no other reference makes the main thread use freed memory: the
  release of the reference frees the client, and all five handlers read it afterwards.\<close>

theorem result_of_removed_client_faults:
  assumes "cr_mem (sv_reg s) a = Some c" and "dead c" and "refcount c = 1" and "result_client r = Some a"
  shows "dispatch_result env r s = Inl (UseAfterFree a)"
  using assms by (rule late_result)

definition left_early :: "lib_call list server" where
  "left_early = (initial_server [] three_slots True SUCCESS)\<lparr>sv_reg := two_clients\<lparr>cr_clients := Some 2, cr_count := 1,
     cr_mem := [1 \<mapsto> (new_client 100 10 11 None)\<lparr>dead := True\<rparr>, 2 \<mapsto> new_client 200 20 21 None]\<rparr>\<rparr>"

theorem result_of_removed_client_faults_witness:
  "dispatch_result env (ResRpc 1 0 0 INT_MIN) left_early = Inl (UseAfterFree 1)"
  by (rule result_of_removed_client_faults [where c = "(new_client 100 10 11 None)\<lparr>dead := True\<rparr>"])
     (simp_all add: left_early_def new_client_def result_client_def)

text \<open>The visit of the slot of a client that has closed its end.\<close>

lemma visit_hangup:
  assumes inv: "server_inv ext as s" and i: "2 \<le> i" "i < ps_count (sv_slots s)"
    and x: "slot (sv_slots s) i = Inr (p, Some a)" "p_revents p = POLLHUP" "sv_in s (p_fd p) = [Eof]"
    and c: "cr_mem (sv_reg s) a = Some c" "refcount c \<noteq> 1"
  shows "\<exists>s' c'. visit_step env i s = Inr s' \<and> cr_mem (sv_reg s') a = Some c' \<and> dead c' \<and> refcount c' = refcount c - 1"
proof -
  note v = inv [unfolded server_inv_def]
  obtain p' a' where "slots (sv_slots s) ! i = (p', Some a')" "a' \<in> set as" "p_fd p' = fst (fds (sv_reg s) a')"
    using slots_ok_at i v by blast
  moreover have "slot (sv_slots s) i = Inr (slots (sv_slots s) ! i)" using slot_wf i(2) v by (simp add: slots_ok_def)
  ultimately have a: "a \<in> set as" "p_fd p = fst (fds (sv_reg s) a)" using x(1) by auto
  let ?s1 = "s\<lparr>sv_in := (sv_in s)(p_fd p := [])\<rparr>"
  have "read_until_delim MAX_RPC_BUF_LEN NL [Eof] = Some (PIPE_CLOSED, [], [])"
    by (simp add: read_until_delim_def read_delim_loop.simps MAX_RPC_BUF_LEN_def)
  then have "request_loop (me_task env) (Some a) (Suc 4) [Eof] T = Inr (True, [], T)" for T
    by (subst request_loop.simps) simp
  moreover have "FIFO_MAX_PER_WAKE = Suc 4" by (simp add: FIFO_MAX_PER_WAKE_def)
  moreover have "POLLHUP AND (POLLERR OR POLLNVAL) = 0" "POLLHUP AND (POLLIN OR POLLHUP) \<noteq> 0"
    by (simp_all add: POLLHUP_def POLLERR_def POLLNVAL_def POLLIN_def)
  ultimately have "visit_slot env (p, Some a) s = Inr (True, ?s1)" by (simp add: visit_slot_def x(2,3))
  moreover obtain S' where "server_remove_pollslots (p_fd p) (sv_slots s) = Inr S'"
    using slots_ok_remove [of as "sv_reg s" "sv_slots s" a] v a by auto
  ultimately have gone: "\<exists>S' s1. visit_slot env (p, Some a) s = Inr (True, s1) \<and> s1 = ?s1
      \<and> server_remove_pollslots (p_fd p) (sv_slots s1) = Inr S'" by auto
  have wf: "reg_rep (sv_reg s) as" "tables_wf (sv_tabs s)" using v by (simp_all add: registry_inv_def tables_ok_def)
  have at: "client_at (sv_reg s) a = Some (c\<lparr>c_next := None, c_prev := None\<rparr>)" using c(1) by (simp add: client_at_def)
  obtain R' tb' where R': "creg_remove (me_lib env) a (sv_reg s, sv_tabs s, sv_lib s)
      = Inr ([], R', tb', destroy_calls (me_lib env) a (sv_tabs s) (sv_lib s))"
      "client_at R' a = Some (c\<lparr>c_next := None, c_prev := None, dead := True, refcount := refcount c - 1\<rparr>)"
    using creg_remove_exact [OF wf(1) a(1) wf(2) at, of "me_lib env" "sv_lib s"] c(2) by auto
  from R'(2) obtain d where d: "cr_mem R' a = Some d"
    "c\<lparr>c_next := None, c_prev := None, dead := True, refcount := refcount c - 1\<rparr> = d\<lparr>c_next := None, c_prev := None\<rparr>"
    by (rule client_at_SomeE)
  from arg_cong [OF d(2), of dead] arg_cong [OF d(2), of refcount] have "dead d" "refcount d = refcount c - 1" by simp_all
  with R'(1) x(1) gone d(1) show ?thesis
    by (auto simp: visit_step_def unpoll_def drop_slot_client_def remove_client_def emit_def)
qed

text \<open>C11: this happens in a run of the server: from every reachable state in which a connected client has one
  result in the pipe and no other task, when the client closes its end (as every client does that is stopped by a
  signal) and its slot is visited before the result is taken, the main thread uses freed memory when it takes the result.\<close>

theorem hangup_before_reply_faults:
  assumes "reachable y" and "2 \<le> i" and "i < ps_count (sv_slots (y_sv y))"
    and "slot (sv_slots (y_sv y)) i = Inr (p, Some a)" and "p_revents p = POLLHUP" and "sv_in (y_sv y) (p_fd p) = [Eof]"
    and "cr_mem (sv_reg (y_sv y)) a = Some c" and "refcount c = 2"
    and "y_res y = r # rest" and "result_client r = Some a"
  shows "sys_run [EVisit env i, EResult env] y = Inl (UseAfterFree a)"
proof -
  obtain as where "server_inv (pointers y) as (y_sv y)" using reachable_inv [OF assms(1)] by (auto simp: sys_inv_def)
  from visit_hangup [OF this assms(2-7), of env] obtain s' c' where
    "visit_step env i (y_sv y) = Inr s'" "cr_mem (sv_reg s') a = Some c'" "dead c'" "refcount c' = 1"
    using assms(8) by auto
  then show ?thesis using late_result [of s' a c' r env] assms(2,3,9,10) by simp
qed

theorem hangup_before_reply_faults_witness:
  "\<exists>y. reachable y \<and> sys_run [EVisit log_main 2, EResult log_main] y = Inl (UseAfterFree 8)"
proof -
  obtain y :: "lib_call list system" and c where y: "reachable y" "2 < ps_count (sv_slots (y_sv y))"
    "slot (sv_slots (y_sv y)) 2 = Inr (\<lparr>p_fd = 10, p_events = POLLIN, p_revents = POLLHUP\<rparr>, Some 8)"
    "sv_in (y_sv y) 10 = [Eof]" "cr_mem (sv_reg (y_sv y)) 8 = Some c" "refcount c = 2" "y_res y = [ResAuthUn 8]"
    by (rule session_reachable)
  have "sys_run [EVisit log_main 2, EResult log_main] y = Inl (UseAfterFree 8)"
    by (rule hangup_before_reply_faults [OF y(1) _ y(2,3) _ _ y(5,6,7)]) (simp_all add: y(4) result_client_def)
  then show ?thesis using y(1) by blast
qed

section \<open>Two rejections\<close>


definition rejected_twice :: "lib_call list server" where
  "rejected_twice = (initial_server [] first_slots True SUCCESS)\<lparr>sv_reg := creg_init\<lparr>cr_mem :=
     [8 \<mapsto> (new_client 100 10 11 None)\<lparr>dead := True, refcount := 2\<rparr>]\<rparr>\<rparr>"

lemma rejected_twice_inv: "server_inv (\<lambda>a. if a = 8 then 2 else 0) [] rejected_twice"
proof -
  have "pointers first_state = (\<lambda>a. 0)" by (simp add: pointers_def first_state_def idle_def fun_eq_iff)
  then obtain as where "server_inv (\<lambda>a. 0) as (initial_server ([] :: lib_call list) first_slots True SUCCESS)"
    using reachable_inv [OF first_state_reachable] by (auto simp: sys_inv_def first_state_def idle_def)
  moreover from this have "as = []"
    by (cases as) (auto simp: server_inv_def registry_inv_def reg_rep_def initial_server_def creg_init_def)
  moreover have "queued task_init = (\<lambda>a. 0)" by (simp add: queued_def tq_inv_init fun_eq_iff)
  ultimately show ?thesis
    by (auto simp: server_inv_def rejected_twice_def initial_server_def registry_inv_def reg_rep_def creg_init_def client_at_def
        new_client_def slots_ok_def)
qed


section \<open>Barriers\<close>

text \<open>C38: a \<open>barrier\<close> is never answered and leaks a reference: the worker frees the task without a result, so that the registry stays as it
  is although there is one pointer less, and the reference the request took is never given back.\<close>

theorem barrier_leaks_reference:
  assumes "reachable y" and "b \<in> set (y_busy y)" and "task_at (sv_queue (y_sv y)) b = (BARRIER, ClientPtr (Some a), Request req)"
  shows "\<exists>y'. sys_do (ERun env b room) y = Inr y' \<and> y_res y' = y_res y \<and> sv_reg (y_sv y') = sv_reg (y_sv y)
    \<and> pointers y a = pointers y' a + 1 \<and> sv_out (y_sv y') = sv_out (y_sv y)"
proof -
  let ?q = "sv_queue (y_sv y)"
  obtain as where s: "server_inv (pointers y) as (y_sv y)" and ok: "busy_ok ?q (y_busy y)"
    using reachable_inv [OF assms(1)] by (auto simp: sys_inv_def)
  then obtain t where t: "tq_mem ?q b = Some t" "b \<notin> set (tq_addrs ?q)" "payload t = (BARRIER, ClientPtr (Some a), Request req)"
    using assms(2,3) by (auto simp: busy_ok_def task_at_def)
  have d: "distinct (y_busy y)" using ok by (simp add: busy_ok_def)
  let ?q1 = "?q\<lparr>tq_mem := (tq_mem ?q)(b := None)\<rparr>"
  let ?y = "y\<lparr>y_sv := emit [] ((y_sv y)\<lparr>sv_queue := ?q1, sv_tabs := sv_tabs (y_sv y), sv_lib := sv_lib (y_sv y)\<rparr>),
      y_busy := remove1 b (y_busy y), y_res := y_res y\<rparr>"
  have "sys_do (ERun env b room) y = Inr ?y"
    using t assms(2) by (simp add: worker_run_def run_task_def task_free_def)
  moreover have same: "map (target \<circ> task_at ?q1) (remove1 b (y_busy y)) = map (target \<circ> task_at ?q) (remove1 b (y_busy y))"
    using d by (auto simp: task_at_def)
  have "pointers y a = pointers ?y a + 1"
    using count_list_remove1 [OF assms(2) d, of "target \<circ> task_at ?q" "Some a"] assms(3)
    by (simp add: pointers_def emit_def same del: map_eq_conv) (simp add: target_def)
  ultimately show ?thesis by (intro exI [of _ ?y]) (simp add: emit_def)
qed

theorem barrier_leaks_reference_witness:
  "\<exists>y y'. reachable y \<and> sys_do (ERun log_env 16 True) y = Inr y' \<and> y_res y' = [] \<and> pointers y 8 = pointers y' 8 + 1
    \<and> sv_reg (y_sv y') = sv_reg (y_sv y)"
proof -
  obtain y :: "lib_call list system" where y: "reachable y" "y_busy y = [16]" "y_res y = []"
    "task_at (sv_queue (y_sv y)) 16 = (BARRIER, ClientPtr (Some 8), Request ''0'')"
    by (rule barrier_reachable)
  from barrier_leaks_reference [OF y(1) _ y(4), of log_env True] y(2) obtain y' where
    "sys_do (ERun log_env 16 True) y = Inr y'" "y_res y' = y_res y" "sv_reg (y_sv y') = sv_reg (y_sv y)" "pointers y 8 = pointers y' 8 + 1"
    by auto
  then show ?thesis using y(1,3) by (intro exI [of _ y] exI [of _ y'] conjI) (simp_all del: sys_do.simps)
qed

end
