(* ===== verification/Turns.thy ===== *)
theory Turns
  imports Session
begin

unbundle bit_operations_syntax

text \<open>
  The turns of the threads as the code has them, \<open>worker_routine\<close> and the loop of \<open>main\<close>, are sequences of the
  events of \<open>System\<close>.
\<close>

section \<open>Workers\<close>


section \<open>The main thread\<close>

text \<open>A part of a turn is a sequence of events that ends in the same state, or with the same fault.\<close>

definition simulates :: "'l event set \<Rightarrow> 'l system \<Rightarrow> 'l system res \<Rightarrow> bool" where
  "simulates E y m \<longleftrightarrow> (\<exists>es. set es \<subseteq> E \<and> sys_run es y = m)"

lemma sys_run_append: "sys_run (es @ fs) y = and_then (sys_run es y) (sys_run fs)"
  by (induction es arbitrary: y) (auto simp: and_then_assoc and_then_def split: sum.split)

lemma simulates_refl: "simulates E y (Inr y)"
  by (auto simp: simulates_def intro: exI [of _ "[]"])

lemma simulates_step:
  "e \<in> E \<Longrightarrow> (\<And>y1. sys_do e y = Inr y1 \<Longrightarrow> simulates E y1 (f y1)) \<Longrightarrow> simulates E y (and_then (sys_do e y) f)"
proof (cases "sys_do e y")
  case (Inl f')
  then show "e \<in> E \<Longrightarrow> ?thesis" by (auto simp: simulates_def intro!: exI [of _ "[e]"])
next
  case (Inr y1)
  assume "e \<in> E" and "\<And>y1. sys_do e y = Inr y1 \<Longrightarrow> simulates E y1 (f y1)"
  with Inr obtain es where "set es \<subseteq> E" "sys_run es y1 = f y1" by (auto simp: simulates_def)
  then show ?thesis using Inr \<open>e \<in> E\<close> by (auto simp: simulates_def intro!: exI [of _ "e # es"])
qed

lemma simulates_fault: "sys_do e y = Inl f \<Longrightarrow> e \<in> E \<Longrightarrow> simulates E y (Inl f)"
  using simulates_step [of e E y Inr] by simp

lemma simulates_next: "sys_do e y = Inr y1 \<Longrightarrow> e \<in> E \<Longrightarrow> simulates E y1 m \<Longrightarrow> simulates E y m"
  using simulates_step [of e E y "\<lambda>y1. m"] by simp

lemma simulates_then:
  "simulates E y m \<Longrightarrow> (\<And>y1. m = Inr y1 \<Longrightarrow> simulates E y1 (f y1)) \<Longrightarrow> simulates E y (and_then m f)"
  unfolding simulates_def
proof (cases m, goal_cases)
  case (1 e)
  then show ?case by auto
next
  case (2 y1)
  then obtain es fs where "set es \<subseteq> E" "sys_run es y = Inr y1" "set fs \<subseteq> E" "sys_run fs y1 = f y1" by blast
  then show ?case using 2 by (intro exI [of _ "es @ fs"]) (simp add: sys_run_append)
qed

text \<open>The records the reads of a self pipe find: those that are in it, then nothing more.\<close>

definition in_pipe :: "'m list \<Rightarrow> 'm record_read list" where
  "in_pipe ms = map Rec ms @ [NoRec PIPE_EMPTY]"

lemma in_pipe_simps [simp]: "in_pipe [] = [NoRec PIPE_EMPTY]" "in_pipe (m # ms) = Rec m # in_pipe ms"
  by (simp_all add: in_pipe_def)

lemma handshake_loop_simulated:
  "EHandshake env \<in> E \<Longrightarrow> \<exists>m. simulates E y m
     \<and> self_pipe_loop (queue_handshake env) k (in_pipe (y_hsk y)) (y_sv y) = and_then m (\<lambda>y1. Inr (False, y_sv y1))
     \<and> (\<forall>y1. m = Inr y1 \<longrightarrow> y_res y1 = y_res y \<and> sv_slots (y_sv y1) = sv_slots (y_sv y))"
proof (induction k arbitrary: y)
  case 0
  then show ?case by (intro exI [of _ "Inr y"]) (simp add: simulates_refl)
next
  case (Suc k)
  show ?case
  proof (cases "sv_running (y_sv y) \<and> y_hsk y \<noteq> []")
    case False
    then show ?thesis by (intro exI [of _ "Inr y"]) (auto simp: simulates_refl)
  next
    case True
    then obtain pid rest where p: "y_hsk y = pid # rest" by (cases "y_hsk y") auto
    show ?thesis
    proof (cases "queue_handshake env pid (y_sv y)")
      case (Inl f)
      then have "simulates E y (Inl f)"
        using simulates_step [of "EHandshake env" E y Inr] Suc.prems p by simp
      then show ?thesis using Inl True p by (intro exI [of _ "Inl f"]) simp
    next
      case (Inr s1)
      let ?y1 = "y\<lparr>y_sv := s1, y_hsk := rest\<rparr>"
      obtain m where m: "simulates E ?y1 m"
        "self_pipe_loop (queue_handshake env) k (in_pipe rest) s1 = and_then m (\<lambda>y1. Inr (False, y_sv y1))"
        "\<forall>y1. m = Inr y1 \<longrightarrow> y_res y1 = y_res y \<and> sv_slots (y_sv y1) = sv_slots s1"
        using Suc.IH [OF Suc.prems, of ?y1] by auto
      have "simulates E y (and_then (sys_do (EHandshake env) y) (\<lambda>y1. m))"
        using Inr p m(1) Suc.prems by (intro simulates_step) auto
      moreover have "sv_slots s1 = sv_slots (y_sv y)" using Inr by (auto simp: queue_handshake_def elim!: and_then_InrE)
      ultimately show ?thesis using Inr True p m(2,3) by (intro exI [of _ m]) simp
    qed
  qed
qed

lemma result_loop_simulated:
  "EResult env \<in> E \<Longrightarrow> \<exists>m. simulates E y m
     \<and> self_pipe_loop (dispatch_result env) k (in_pipe (y_res y)) (y_sv y) = and_then m (\<lambda>y1. Inr (False, y_sv y1))"
proof (induction k arbitrary: y)
  case 0
  then show ?case by (intro exI [of _ "Inr y"]) (simp add: simulates_refl)
next
  case (Suc k)
  show ?case
  proof (cases "sv_running (y_sv y) \<and> y_res y \<noteq> []")
    case False
    then show ?thesis by (intro exI [of _ "Inr y"]) (auto simp: simulates_refl)
  next
    case True
    then obtain r rest where p: "y_res y = r # rest" by (cases "y_res y") auto
    show ?thesis
    proof (cases "dispatch_result env r (y_sv y)")
      case (Inl f)
      then have "simulates E y (Inl f)"
        using simulates_step [of "EResult env" E y Inr] Suc.prems p by simp
      then show ?thesis using Inl True p by (intro exI [of _ "Inl f"]) simp
    next
      case (Inr s1)
      let ?y1 = "y\<lparr>y_sv := s1, y_res := rest\<rparr>"
      obtain m where m: "simulates E ?y1 m"
        "self_pipe_loop (dispatch_result env) k (in_pipe rest) s1 = and_then m (\<lambda>y1. Inr (False, y_sv y1))"
        using Suc.IH [OF Suc.prems, of ?y1] by auto
      have "simulates E y (and_then (sys_do (EResult env) y) (\<lambda>y1. m))"
        using Inr p m(1) Suc.prems by (intro simulates_step) auto
      then show ?thesis using Inr True p m(2) by (intro exI [of _ m]) simp
    qed
  qed
qed

text \<open>The loop over the clients does not look at the slots in its state but at those it has in hand.\<close>

definition with_slots :: "PollSlots \<Rightarrow> 'l server \<Rightarrow> 'l server" where
  "with_slots S s = s\<lparr>sv_slots := S\<rparr>"

lemma visit_slot_frame:
  "visit_slot env x (with_slots S s) = and_then (visit_slot env x s) (\<lambda>(b, s1). Inr (b, with_slots S s1))"
  by (auto simp: visit_slot_def with_slots_def and_then_assoc split_beta intro!: and_then_cong)

lemma drop_slot_client_frame:
  "drop_slot_client env x (with_slots S s) = and_then (drop_slot_client env x s) (\<lambda>s1. Inr (with_slots S s1))"
  by (auto simp: drop_slot_client_def remove_client_def emit_def with_slots_def and_then_assoc split_beta
      intro!: and_then_cong split: option.split)

text \<open>The body of the loop is the event of the visit.\<close>

lemma visit_step_body:
  assumes "y_sv y = with_slots S s" and "2 \<le> i" and "i < ps_count S"
  shows "sys_do (EVisit env i) y =
    and_then (slot S i) (\<lambda>x. and_then (visit_slot env x s) (\<lambda>(to_remove, s1).
      if to_remove then and_then (server_remove_pollslots (p_fd (fst x)) S) (\<lambda>S1.
        and_then (drop_slot_client env x s1) (\<lambda>s2. Inr (y\<lparr>y_sv := with_slots S1 s2\<rparr>)))
      else Inr (y\<lparr>y_sv := with_slots S s1\<rparr>)))"
proof -
  have sl: "sv_slots (with_slots S s) = S" by (simp add: with_slots_def)
  have un: "and_then (unpoll fd (with_slots S s1)) (drop_slot_client env x)
      = and_then (server_remove_pollslots fd S) (\<lambda>S1. and_then (drop_slot_client env x s1) (\<lambda>s2. Inr (with_slots S1 s2)))"
    for fd x and s1 :: "'a server"
  proof -
    have "(with_slots S s1)\<lparr>sv_slots := S1\<rparr> = with_slots S1 s1" "sv_slots (with_slots S s1) = S" for S1
      by (simp_all add: with_slots_def)
    then show ?thesis by (simp add: unpoll_def and_then_assoc drop_slot_client_frame)
  qed
  show ?thesis
    using assms
    by (simp add: visit_step_def sl visit_slot_frame and_then_assoc case_prod_unfold un if_distrib [of "\<lambda>m. and_then m g" for g] cong: if_cong)
qed

lemma client_loop_simulated:
  fixes y :: "'l system"
  assumes "\<And>j. EVisit env j \<in> E" and "2 \<le> i" and "y_sv y = with_slots S s"
  shows "simulates E y (and_then (slot_loop sv_running (visit_slot env) (drop_slot_client env) i S s)
    (\<lambda>(S', s'). Inr (y\<lparr>y_sv := with_slots S' s'\<rparr>)))"
  using assms(2,3)
proof (induction "sv_running :: 'l server \<Rightarrow> bool" "visit_slot env" "drop_slot_client env" i S s arbitrary: y rule: slot_loop.induct)
  case (1 i S s)
  let ?loop = "slot_loop sv_running (visit_slot env) (drop_slot_client env)"
  note unfold = slot_loop.simps [of sv_running "visit_slot env" "drop_slot_client env" i S s]
  show ?case
  proof (cases "sv_running s \<and> i < ps_count S")
    case False
    then have "?loop i S s = Inr (S, s)" by (subst unfold) auto
    moreover have "y\<lparr>y_sv := with_slots S s\<rparr> = y" using 1(4) by simp
    ultimately show ?thesis by (simp add: simulates_refl)
  next
    case True
    note body = visit_step_body [OF 1(4,3), of env]
    have E: "EVisit env i \<in> E" by (rule assms(1))
    consider f where "slot S i = Inl f" | x f where "slot S i = Inr x" "visit_slot env x s = Inl f"
      | (stays) x s1 where "slot S i = Inr x" "visit_slot env x s = Inr (False, s1)"
      | (goes) x s1 where "slot S i = Inr x" "visit_slot env x s = Inr (True, s1)"
    proof (cases "slot S i")
      case x: (Inr x)
      show thesis
      proof (cases "visit_slot env x s")
        case (Inr p)
        then show thesis using x that(3,4) by (cases p; cases "fst p") auto
      qed (use x that(2) in blast)
    qed (use that(1) in blast)
    then show ?thesis
    proof cases
      case stays
      have "simulates E (y\<lparr>y_sv := with_slots S s1\<rparr>) (and_then (?loop (Suc i) S s1)
          (\<lambda>(S', s'). Inr ((y\<lparr>y_sv := with_slots S s1\<rparr>)\<lparr>y_sv := with_slots S' s'\<rparr>)))"
        using 1(1) [OF True stays(1,2) refl, of "y\<lparr>y_sv := with_slots S s1\<rparr>"] 1(3) by simp
      moreover have "sys_do (EVisit env i) y = Inr (y\<lparr>y_sv := with_slots S s1\<rparr>)" using stays True body by simp
      moreover have "?loop i S s = ?loop (Suc i) S s1" using stays True by (subst unfold) simp
      ultimately show ?thesis using simulates_next [OF _ E] by simp
    next
      case goes
      consider f where "server_remove_pollslots (p_fd (fst x)) S = Inl f"
        | S1 f where "server_remove_pollslots (p_fd (fst x)) S = Inr S1" "drop_slot_client env x s1 = Inl f"
        | (dropped) S1 s2 where "server_remove_pollslots (p_fd (fst x)) S = Inr S1" "drop_slot_client env x s1 = Inr s2"
        by (metis sum.exhaust)
      then show ?thesis
      proof cases
        case dropped
        have "simulates E (y\<lparr>y_sv := with_slots S1 s2\<rparr>) (and_then (?loop i S1 s2)
            (\<lambda>(S', s'). Inr ((y\<lparr>y_sv := with_slots S1 s2\<rparr>)\<lparr>y_sv := with_slots S' s'\<rparr>)))"
          using 1(2) [OF True goes(1,2) refl _ dropped, of "y\<lparr>y_sv := with_slots S1 s2\<rparr>"] 1(3) by simp
        moreover have "sys_do (EVisit env i) y = Inr (y\<lparr>y_sv := with_slots S1 s2\<rparr>)" using goes dropped True body by simp
        moreover have "?loop i S s = ?loop i S1 s2" using goes dropped True by (subst unfold) simp
        ultimately show ?thesis using simulates_next [OF _ E] by simp
      qed (use goes True body in \<open>auto simp: unfold intro!: simulates_fault [OF _ E]\<close>)
    qed (use True body in \<open>auto simp: unfold intro!: simulates_fault [OF _ E]\<close>)
  qed
qed

text \<open>A turn after \<open>poll\<close> has returned, in three parts.\<close>

lemma main_turn_simulated:
  assumes wf: "slots_wf (sv_slots (y_sv y))" and two: "2 \<le> ps_count (sv_slots (y_sv y))"
    and E: "{EPoll ready, EHandshake env, EResult env} \<union> range (EVisit env) \<subseteq> E"
  shows "\<exists>m. simulates E y m \<and> main_turn env (Polled ready) (in_pipe (y_hsk y)) (in_pipe (y_res y)) (y_sv y)
    = and_then m (\<lambda>y1. Inr (Next, y_sv y1))"
proof -
  let ?S = "set_revents ready (sv_slots (y_sv y))"
  let ?y0 = "y\<lparr>y_sv := (y_sv y)\<lparr>sv_slots := ?S\<rparr>\<rparr>"
  have start: "sys_do (EPoll ready) y = Inr ?y0" by simp
  have poll: "simulates E ?y0 m \<Longrightarrow> simulates E y m" for m using simulates_next [OF start, of E m] E by simp
  have wf0: "slots_wf ?S" "2 \<le> ps_count ?S"
    using slots_set_revents(1) [OF wf] two by (simp_all add: set_revents_def)
  have sl: "slot ?S 0 = Inr (slots ?S ! 0)" "slot ?S 1 = Inr (slots ?S ! 1)" using slot_wf [OF wf0(1)] wf0(2) by simp_all
  obtain h c0 r c1 where hr: "slots ?S ! 0 = (h, c0)" "slots ?S ! 1 = (r, c1)" by fastforce
  let ?p1 = "if p_revents h AND POLLIN \<noteq> 0
             then self_pipe_loop (queue_handshake env) HSK_MAX_PER_WAKE (in_pipe (y_hsk y)) (y_sv ?y0) else Inr (False, y_sv ?y0)"
  obtain m1 where m1: "simulates E ?y0 m1" "?p1 = and_then m1 (\<lambda>y1. Inr (False, y_sv y1))"
    "\<forall>y1. m1 = Inr y1 \<longrightarrow> y_res y1 = y_res y \<and> sv_slots (y_sv y1) = ?S"
  proof (cases "p_revents h AND POLLIN \<noteq> 0")
    case True
    then show thesis
      using handshake_loop_simulated [of env E ?y0 HSK_MAX_PER_WAKE] E by (auto intro: that)
  next
    case False
    then show thesis by (intro that [of "Inr ?y0"]) (simp_all add: simulates_refl)
  qed
  have turn: "main_turn env (Polled ready) (in_pipe (y_hsk y)) (in_pipe (y_res y)) (y_sv y)
      = and_then m1 (\<lambda>y1. and_then (if p_revents r AND POLLIN \<noteq> 0
            then self_pipe_loop (dispatch_result env) RPC_MAX_PER_WAKE (in_pipe (y_res y)) (y_sv y1) else Inr (False, y_sv y1))
          (\<lambda>(stop2, s2). if stop2 then Inr (Next, s2) else and_then (client_requests env s2) (\<lambda>s3. Inr (Next, s3))))"
  proof -
    have "main_turn env (Polled ready) (in_pipe (y_hsk y)) (in_pipe (y_res y)) (y_sv y)
        = and_then ?p1 (\<lambda>(stop1, s1). if stop1 then Inr (Next, s1) else and_then (slot (sv_slots s1) 1) (\<lambda>(rpc, c1).
            and_then (if p_revents rpc AND POLLIN \<noteq> 0
                then self_pipe_loop (dispatch_result env) RPC_MAX_PER_WAKE (in_pipe (y_res y)) s1 else Inr (False, s1))
              (\<lambda>(stop2, s2). if stop2 then Inr (Next, s2) else and_then (client_requests env s2) (\<lambda>s3. Inr (Next, s3)))))"
      using sl hr by (simp add: main_turn_def Let_def)
    then show ?thesis unfolding m1(2) using m1(3) sl hr by (cases m1) simp_all
  qed
  show ?thesis
  proof (cases m1)
    case (Inl f)
    then show ?thesis using poll [OF m1(1)] turn by (intro exI [of _ "Inl f"]) simp
  next
    case (Inr y1)
    let ?p2 = "if p_revents r AND POLLIN \<noteq> 0
             then self_pipe_loop (dispatch_result env) RPC_MAX_PER_WAKE (in_pipe (y_res y)) (y_sv y1) else Inr (False, y_sv y1)"
    have res: "y_res y1 = y_res y" using m1(3) Inr by simp
    obtain m2 where m2: "simulates E y1 m2" "?p2 = and_then m2 (\<lambda>y2. Inr (False, y_sv y2))"
    proof (cases "p_revents r AND POLLIN \<noteq> 0")
      case True
      then show thesis using result_loop_simulated [of env E y1 RPC_MAX_PER_WAKE] E res that by auto
    next
      case False
      then show thesis by (intro that [of "Inr y1"]) (simp_all add: simulates_refl)
    qed
    let ?m = "and_then m1 (\<lambda>y1. and_then m2 (\<lambda>y2. and_then
      (slot_loop sv_running (visit_slot env) (drop_slot_client env) 2 (sv_slots (y_sv y2)) (y_sv y2))
        (\<lambda>(S', s'). Inr (y2\<lparr>y_sv := with_slots S' s'\<rparr>))))"
    have "simulates E y2 (and_then
      (slot_loop sv_running (visit_slot env) (drop_slot_client env) 2 (sv_slots (y_sv y2)) (y_sv y2))
        (\<lambda>(S', s'). Inr (y2\<lparr>y_sv := with_slots S' s'\<rparr>)))" for y2
      using E by (intro client_loop_simulated) (auto simp: with_slots_def)
    then have "simulates E y ?m"
      using m1(1) m2(1) Inr by (intro poll simulates_then) auto
    moreover have "and_then ?m (\<lambda>y1. Inr (Next, y_sv y1))
        = main_turn env (Polled ready) (in_pipe (y_hsk y)) (in_pipe (y_res y)) (y_sv y)"
      unfolding turn Inr using m2(2)
      by (auto simp: client_requests_def and_then_assoc with_slots_def case_prod_unfold intro!: and_then_cong)
    ultimately show ?thesis by (intro exI [of _ ?m]) simp
  qed
qed



end
