(* ===== verification/Client.thy ===== *)
theory Client
  imports Startup Auth "HOL-Library.Multiset"
begin

text \<open>
  The client, function by function: \<open>client/src/c_helper.c\<close> (arguments, signals, handshake, login),
  \<open>sender.c\<close> (a typed line becomes a request) and \<open>receiver.c\<close> (a reply becomes a line of output).
  \<open>ClientRun\<close> composes them into the two threads of \<open>animate_client.c\<close>.
\<close>

section \<open>State\<close>

datatype ConnectStage = IDLE | SYN_SENT | CONNECTED | DISCONNECTED | TIMED_OUT

datatype client_handler = Sigusr2Handler | AlarmHandler | ClientShutdown

text \<open>What the process does to the world, in order.\<close>

datatype client_act =
    Alarm nat | Syn int | Opened int string | Closed int | Sent string | Printed string
  | Complained ErrType | Perror string

text \<open>
  The globals of the client. \<open>cl_read\<close> and \<open>cl_write\<close> are the two cells of \<open>C_FDS\<close>; \<open>cl_stdin\<close> is what is left to read of the
  standard input, \<open>cl_from\<close> what the kernel will answer to the reads from the server's pipe; a signal without a handler
  has its default action, which ends the process.
\<close>

record client =
  cl_server :: int
  cl_stage :: ConnectStage
  cl_logged_in :: bool
  cl_retval :: ErrType
  cl_read :: int
  cl_write :: int
  cl_handlers :: "signal \<rightharpoonup> client_handler"
  cl_stdin :: string
  cl_from :: "rd_event list"
  cl_trace :: "client_act list"

definition act :: "client_act list \<Rightarrow> client \<Rightarrow> client" where
  "act as c = c\<lparr>cl_trace := cl_trace c @ as\<rparr>"

text \<open>A function that may block for ever, be killed by a signal, or meet a fault.\<close>

datatype 'a outcome = Waiting | Killed signal | Faulted fault | Returned 'a

fun proceed :: "'a outcome \<Rightarrow> ('a \<Rightarrow> 'b outcome) \<Rightarrow> 'b outcome" where
  "proceed Waiting f = Waiting"
| "proceed (Killed s) f = Killed s"
| "proceed (Faulted e) f = Faulted e"
| "proceed (Returned x) f = f x"

definition checked :: "'a res \<Rightarrow> 'a outcome" where
  "checked m = (case m of Inl e \<Rightarrow> Faulted e | Inr x \<Rightarrow> Returned x)"

lemma checked_simps [simp]: "checked (Inr x) = Returned x" "checked (Inl e) = Faulted e"
  by (simp_all add: checked_def)

lemma proceed_cong [fundef_cong]:
  "m = m' \<Longrightarrow> (\<And>x. m' = Returned x \<Longrightarrow> f x = g x) \<Longrightarrow> proceed m f = proceed m' g"
  by (cases m') auto

lemma proceed_eq_Returned: "proceed m f = Returned y \<longleftrightarrow> (\<exists>x. m = Returned x \<and> f x = Returned y)"
  by (cases m) auto

section \<open>Arguments and signals\<close>

text \<open>\<open>argv\<close> without the name of the program. An error is printed with the usage, stored in \<open>retval\<close> and returned.\<close>

definition complain :: "ErrType \<Rightarrow> client \<Rightarrow> ErrType \<times> client" where
  "complain e c = (e, act [Complained e] (c\<lparr>cl_retval := e\<rparr>))"

definition set_serverpid :: "string list \<Rightarrow> client \<Rightarrow> ErrType \<times> client" where
  "set_serverpid args c = (case args of
     [] \<Rightarrow> complain TOO_FEW c
   | [a] \<Rightarrow>
       let c1 = c\<lparr>cl_server := atoi a\<rparr>
       in if cl_server c1 \<le> 0 then complain INV_ARG c1 else (SUCCESS, c1)
   | _ \<Rightarrow> complain TOO_MANY c)"

definition client_setup_signals :: "(signal \<Rightarrow> bool) \<Rightarrow> client \<Rightarrow> ErrType \<times> client" where
  "client_setup_signals accepted c =
     (let (e, hs) = install accepted
          [(SIGUSR2, Sigusr2Handler), (SIGALRM, AlarmHandler), (SIGINT, ClientShutdown), (SIGTERM, ClientShutdown),
           (SIGQUIT, ClientShutdown), (SIGHUP, ClientShutdown)] (cl_handlers c)
      in if e \<noteq> SUCCESS then complain e (c\<lparr>cl_handlers := hs\<rparr>) else (SUCCESS, c\<lparr>cl_handlers := hs\<rparr>))"

fun handler_stage :: "client_handler \<Rightarrow> ConnectStage" where
  "handler_stage Sigusr2Handler = CONNECTED"
| "handler_stage AlarmHandler = TIMED_OUT"
| "handler_stage ClientShutdown = DISCONNECTED"

text \<open>The delivery of signals, one after another.\<close>

fun deliver_all :: "signal list \<Rightarrow> client \<Rightarrow> client outcome" where
  "deliver_all [] c = Returned c"
| "deliver_all (s # ss) c = (case cl_handlers c s of
     None \<Rightarrow> Killed s
   | Some h \<Rightarrow> deliver_all ss (c\<lparr>cl_stage := handler_stage h\<rparr>))"

definition reset_alarm_handler :: "bool \<Rightarrow> client \<Rightarrow> client" where
  "reset_alarm_handler accepted c =
     (if accepted then c\<lparr>cl_handlers := (cl_handlers c)(SIGALRM := None)\<rparr>
      else act [Perror ''Failed to reset alarm handler''] c)"

section \<open>Handshake\<close>

text \<open>
  The answers of the system: whether \<open>kill\<close> succeeds, the signals handled by each \<open>sigsuspend\<close>, those still pending
  when the old mask is restored, and for each \<open>open\<close> the signals that arrive while it waits and its result.
\<close>

record connect_env =
  cn_pid :: int
  cn_kill :: bool
  cn_wakes :: "signal list list"
  cn_pending :: "signal list"
  cn_read :: "signal list \<times> int option"
  cn_write :: "signal list \<times> int option"
  cn_reset :: bool

fun await :: "signal list list \<Rightarrow> client \<Rightarrow> client outcome" where
  "await [] c = (if cl_stage c = SYN_SENT then Waiting else Returned c)"
| "await (w # ws) c = (if cl_stage c = SYN_SENT then proceed (deliver_all w c) (await ws) else Returned c)"

definition hsk_fail :: "client \<Rightarrow> ErrType \<times> client" where
  "hsk_fail c = complain PIPE_FAIL (c\<lparr>cl_stage := DISCONNECTED\<rparr>)"

text \<open>The two FIFOs of this process, the server's end first; the alarm is not cancelled when one cannot be opened.\<close>

definition open_fifos :: "connect_env \<Rightarrow> client \<Rightarrow> (ErrType \<times> client) outcome" where
  "open_fifos env c =
     proceed (deliver_all (fst (cn_read env)) (act [Alarm 1] c)) (\<lambda>c1.
       case snd (cn_read env) of
         None \<Rightarrow> Returned (hsk_fail c1)
       | Some r \<Rightarrow>
           let c2 = act [Opened r (set_name S2C (cn_pid env))] (c1\<lparr>cl_read := r\<rparr>)
           in proceed (deliver_all (fst (cn_write env)) c2) (\<lambda>c3.
                case snd (cn_write env) of
                  None \<Rightarrow> Returned (hsk_fail (act [Closed (cl_read c3)] c3))
                | Some w \<Rightarrow>
                    Returned (SUCCESS, reset_alarm_handler (cn_reset env)
                      (act [Opened w (set_name C2S (cn_pid env)), Alarm 0] (c3\<lparr>cl_write := w\<rparr>)))))"

definition perform_handshake :: "connect_env \<Rightarrow> client \<Rightarrow> (ErrType \<times> client) outcome" where
  "perform_handshake env c =
     (let c1 = act [Alarm 1, Syn (cl_server c)] (c\<lparr>cl_stage := SYN_SENT\<rparr>)
      in if \<not> cn_kill env then
           proceed (deliver_all (cn_pending env) (act [Perror ''Failed to signal server'', Alarm 0] c1)) (\<lambda>c2.
             Returned (SIG_FAIL, c2\<lparr>cl_retval := SIG_FAIL\<rparr>))
         else
           proceed (await (cn_wakes env) c1) (\<lambda>c2.
           proceed (deliver_all (cn_pending env) (act [Alarm 0] c2)) (\<lambda>c3.
             if cl_stage c3 = TIMED_OUT then Returned (complain TIMEDOUT c3) else open_fifos env c3)))"

section \<open>Requests\<close>

text \<open>\<open>write_block_pipe\<close>, whose code is ignored; a pipe that nobody reads raises \<open>SIGPIPE\<close> first.\<close>

definition send_all :: "string \<Rightarrow> wr_event list \<Rightarrow> client \<Rightarrow> client outcome" where
  "send_all buf evs c = (case write_block_pipe buf evs of
     None \<Rightarrow> Waiting
   | Some (r, n, es) \<Rightarrow>
       let c1 = act [Sent (take n buf)] c
       in if r = PIPE_CLOSED then deliver_all [SIGPIPE] c1 else Returned c1)"

definition strip_newline :: "string \<Rightarrow> string" where
  "strip_newline line = (if 0 < length line \<and> line ! (length line - 1) = NL then take (length line - 1) line else line)"

text \<open>
  How one \<open>fgets\<close> on the standard input ends: interrupted by signals, so that it returns the null pointer, or with the next
  characters, when \<open>wevs\<close> are the answers to the writes and \<open>sigs\<close> the signals before the reply.
\<close>

datatype answer = Broken "signal list" | Typed "wr_event list" "signal list"

text \<open>The reply to a login, and what follows from it.\<close>

definition login_reply :: "string \<Rightarrow> client \<Rightarrow> client outcome" where
  "login_reply input c = (case read_until_delim MAX_RPC_BUF_LEN NL (cl_from c) of
     None \<Rightarrow> Waiting
   | Some (r, s, rest) \<Rightarrow>
       let c1 = c\<lparr>cl_from := rest\<rparr>; reply = c_str s
       in if r \<noteq> SUCCESS then Returned (act [Printed (''Server disconnected'' @ [NL])] c1)
          else if strncmp_eq reply ''Reject'' 6 then
            Returned (act [Printed (reply @ [NL])] (c1\<lparr>cl_stage := DISCONNECTED\<rparr>))
          else Returned (act [Printed (''Welcome '' @ drop 6 input @ ''. Your balance is '' @ show_int (fst (strtol reply)) @ [NL])]
                 (c1\<lparr>cl_logged_in := True\<rparr>)))"

fun authorise :: "answer list \<Rightarrow> client \<Rightarrow> client outcome" where
  "authorise [] c = (if cl_stage c = CONNECTED \<and> \<not> cl_logged_in c then Waiting else Returned c)"
| "authorise (a # answers) c =
     (if cl_stage c = CONNECTED \<and> \<not> cl_logged_in c then
        (case a of
           Broken sigs \<Rightarrow> deliver_all sigs c
         | Typed wevs sigs \<Rightarrow>
             (case c_fgets MAX_RPC_BUF_LEN (cl_stdin c) of
                None \<Rightarrow> Returned c
              | Some (chunk, stdin) \<Rightarrow>
                  let c1 = c\<lparr>cl_stdin := stdin\<rparr>
                  in proceed (checked (sanitise_whitespace (strip_newline (c_str chunk) @ [NUL]))) (\<lambda>buf.
                       let input = c_str buf
                       in if input = [] then authorise answers c1
                          else if \<not> strncmp_eq input ''Login '' 6 then
                            authorise answers (act [Printed (''Not logged in'' @ [NL])] c1)
                          else proceed (send_all (snprintf (MAX_RPC_BUF_LEN + 1) (input @ [NL])) wevs c1) (\<lambda>c2.
                               proceed (deliver_all sigs c2) (login_reply input)))))
      else Returned c)"

text \<open>One line of the standard input: \<open>- 1\<close> at its end, 0 after "Disconnect", 1 otherwise.\<close>

definition send_user_input :: "answer \<Rightarrow> client \<Rightarrow> (int \<times> client) outcome" where
  "send_user_input a c = (case a of
     Broken sigs \<Rightarrow> proceed (deliver_all sigs c) (\<lambda>c1. Returned (- 1, c1))
   | Typed wevs sigs \<Rightarrow>
       (case c_fgets MAX_RPC_BUF_LEN (cl_stdin c) of
          None \<Rightarrow> Returned (- 1, c)
        | Some (chunk, stdin) \<Rightarrow>
            let c1 = c\<lparr>cl_stdin := stdin\<rparr>
            in proceed (checked (sanitise_whitespace (c_str chunk @ [NUL]))) (\<lambda>buf.
                 let out = c_str buf
                 in if out = [] then Returned (1, c1)
                    else if out = ''Disconnect'' then
                      proceed (send_all (''Disconnect'' @ [NL]) wevs c1) (\<lambda>c2. Returned (0, c2))
                    else proceed (send_all (snprintf MAX_RPC_BUF_LEN (out @ [NL])) wevs c1) (\<lambda>c2. Returned (1, c2)))))"

section \<open>Replies\<close>

text \<open>What is printed for the numbers of a reply.\<close>

fun display :: "int list \<Rightarrow> string list" where
  "display [a] =
     (if a = - 1 then [''RPC Failed'' @ [NL]]
      else if a = - 2 then [''Value error'' @ [NL]]
      else if a = - 3 then [''Internal error'' @ [NL]]
      else if a = 0 then [''Success'' @ [NL]]
      else [show_int a @ [NL]])"
| "display [a, b] =
     (if a = 0 \<and> b = - 1 then [''Data write failed'' @ [NL]]
      else if a = 0 then [''Success '' @ show_int b @ [NL]]
      else [show_int a @ SPC # show_int b @ [NL]])"
| "display [a, b, c] =
     (if a = 0 \<and> b = 0 \<and> c = - 1 then [''Movie write failed'' @ [NL]]
      else if a = 0 \<and> b = 0 \<and> c = 0 then [''Success'' @ [NL]]
      else [show_int a @ SPC # show_int b @ SPC # show_int c @ [NL]])"
| "display _ = []"

text \<open>\<open>True\<close> is the return value 1.\<close>

definition recv_server_reply :: "client \<Rightarrow> (bool \<times> client) outcome" where
  "recv_server_reply c = (case read_until_delim MAX_RPC_BUF_LEN NL (cl_from c) of
     None \<Rightarrow> Waiting
   | Some (err, s, rest) \<Rightarrow>
       let c1 = c\<lparr>cl_from := rest\<rparr>
       in if err = PIPE_EMPTY then Returned (True, c1)
          else if err = PIPE_CLOSED \<or> err = PIPE_READ_FAIL then Returned (False, c1)
          else if err \<noteq> SUCCESS then Returned (True, c1)
          else proceed (checked (sanitise_whitespace (c_str s @ [NUL]))) (\<lambda>out.
                 Returned (True, act (map Printed (display (sscanf_d 3 (c_str out)))) c1)))"

section \<open>Input lines\<close>

lemma no_nul_strip [simp]: "no_nul s \<Longrightarrow> no_nul (strip_newline s)"
  by (auto simp: no_nul_def strip_newline_def list_all_iff dest: in_set_takeD)

text \<open>The buffers are cleaned without a fault, whatever was typed or received.\<close>

lemma checked_sanitise:
  assumes "no_nul s"
  obtains buf where "checked (sanitise_whitespace (s @ [NUL])) = Returned buf" and "c_str buf = normal s"
  using sanitise_normal [OF assms, of "[]"] assms by force

lemma words_snoc_space: "c_isspace c \<Longrightarrow> words cur (s @ [c]) = words cur s"
  by (induction cur s rule: words.induct) auto

lemma normal_strip [simp]: "normal (strip_newline s) = normal s"
proof (cases "s = [] \<or> s ! (length s - 1) \<noteq> NL")
  case False
  then have "s = take (length s - 1) s @ [NL]"
    by (metis append_butlast_last_id butlast_conv_take last_conv_nth)
  then have "normal s = normal (take (length s - 1) s)"
    using words_snoc_space [of NL "[]" "take (length s - 1) s"] by (simp add: normal_def)
  with False show ?thesis by (simp add: strip_newline_def)
qed (auto simp: strip_newline_def)

text \<open>A normalised line has no newline.\<close>

lemma newline_not_in_unwords: "list_all is_word ws \<Longrightarrow> NL \<notin> set (unwords ws)"
proof (induction ws)
  case (Cons w ws)
  moreover have "NL \<notin> set w" using Cons.prems by (auto simp: is_word_def list_all_iff)
  ultimately show ?case by (auto simp: unwords_cons)
qed simp

lemma newline_not_in_normal: "NL \<notin> set (normal s)"
  unfolding normal_def by (rule newline_not_in_unwords) (rule words_is_word, simp)

lemma length_c_str: "length (c_str s) \<le> length s"
  by (simp add: c_str_def length_takeWhile_le)

lemma chunk_bound: "c_fgets MAX_RPC_BUF_LEN s = Some (l, r) \<Longrightarrow> length (normal (c_str l)) \<le> 127"
  using c_fgets_Some [of MAX_RPC_BUF_LEN s l r] length_normal [of "c_str l"] length_c_str [of l]
  by (simp add: MAX_RPC_BUF_LEN_def)

section \<open>What the other side reads\<close>

lemma write_all: "write_block_pipe buf evs = Some (SUCCESS, n, es) \<Longrightarrow> take n buf = buf"
  using write_block_loop_result [of 0 buf evs SUCCESS n es] by (simp add: write_block_pipe_def)

lemma send_all_ok: "write_block_pipe buf evs = Some (SUCCESS, n, es) \<Longrightarrow> send_all buf evs c = Returned (act [Sent buf] c)"
  using write_all [of buf evs n es] by (simp add: send_all_def)

lemma line_read:
  assumes "avail revs = m @ NL # rest" and "NL \<notin> set m" and "length m < 127"
  shows "\<exists>es. read_until_delim MAX_RPC_BUF_LEN NL revs = Some (SUCCESS, m, es) \<and> avail es = rest"
  using read_delim_loop_found [OF assms(1,2), of "[]" MAX_RPC_BUF_LEN] assms(3)
  by (simp add: read_until_delim_def MAX_RPC_BUF_LEN_def)

text \<open>A request of 127 characters loses its newline, but it fills the buffer of the reader, who does not need it then.\<close>

lemma request_read:
  assumes "avail revs = snprintf MAX_RPC_BUF_LEN (m @ [NL]) @ rest" and "NL \<notin> set m" and "length m \<le> 127"
  shows "\<exists>es. read_until_delim MAX_RPC_BUF_LEN NL revs = Some (SUCCESS, m, es) \<and> avail es = rest"
proof (cases "length m = 127")
  case True
  with assms(1) have "avail revs = m @ rest" by (simp add: snprintf_def MAX_RPC_BUF_LEN_def)
  from read_delim_loop_full [OF this assms(2), of "[]" MAX_RPC_BUF_LEN] True show ?thesis
    by (simp add: read_until_delim_def MAX_RPC_BUF_LEN_def)
next
  case False
  with assms have "avail revs = m @ NL # rest" "length m < 127" by (simp_all add: snprintf_def MAX_RPC_BUF_LEN_def)
  with line_read assms(2) show ?thesis by blast
qed

lemma send_user_input_rpc:
  assumes "c_fgets MAX_RPC_BUF_LEN (cl_stdin c) = Some (chunk, stdin)"
    and "normal (c_str chunk) \<noteq> []" and "normal (c_str chunk) \<noteq> ''Disconnect''"
    and "write_block_pipe (snprintf MAX_RPC_BUF_LEN (normal (c_str chunk) @ [NL])) wevs = Some (SUCCESS, n, wes)"
  shows "send_user_input (Typed wevs sigs) c
     = Returned (1, act [Sent (snprintf MAX_RPC_BUF_LEN (normal (c_str chunk) @ [NL]))] (c\<lparr>cl_stdin := stdin\<rparr>))"
proof -
  obtain buf where "checked (sanitise_whitespace (c_str chunk @ [NUL])) = Returned buf" "c_str buf = normal (c_str chunk)"
    using checked_sanitise [of "c_str chunk"] by auto
  with assms show ?thesis by (simp add: send_user_input_def send_all_ok)
qed

text \<open>The numbers a reply shows, and how a scanner that stops at a newline reads them.\<close>

definition reply_fields :: "int \<Rightarrow> int \<Rightarrow> int \<Rightarrow> int list" where
  "reply_fields a b c = (if c \<noteq> INT_MIN then [a, b, c] else if b \<noteq> INT_MIN then [a, b] else [a])"

fun show_ints :: "int list \<Rightarrow> string" where
  "show_ints [] = []"
| "show_ints [a] = show_int a"
| "show_ints (a # as) = show_int a @ SPC # show_ints as"

definition is_int :: "int \<Rightarrow> bool" where
  "is_int i \<longleftrightarrow> INT_MIN \<le> i \<and> i \<le> INT_MAX"

lemma scan_d_skip: "c_isspace c \<Longrightarrow> scan_d (c # s) = scan_d s"
  by (simp add: scan_d_def)

lemma sscanf_d_space: "c_isspace c \<Longrightarrow> sscanf_d n (c # s) = sscanf_d n s"
  by (cases n) (simp_all add: scan_d_skip)

lemma sscanf_d_Nil: "sscanf_d n [] = []"
  by (cases n) (simp_all add: scan_d_def scan_num_def scan_sign_def)

lemma sscanf_d_show_ints:
  "list_all is_int as \<Longrightarrow> length as \<le> n \<Longrightarrow> sscanf_d n (show_ints as) = as"
proof (induction as arbitrary: n rule: show_ints.induct)
  case (2 a)
  then show ?case using scan_d_show_int [of a "[]"] by (cases n) (auto simp: is_int_def sscanf_d_Nil)
next
  case (3 a b bs)
  then obtain k where "n = Suc k" by (cases n) auto
  with 3 show ?case using scan_d_show_int [of a "SPC # show_ints (b # bs)"]
    by (auto simp: is_int_def sscanf_d_space)
qed (simp add: sscanf_d_Nil)

lemma show_ints_unwords: "show_ints as = unwords (map show_int as)"
  by (induction as rule: show_ints.induct) auto

lemma show_ints_words: "words [] (show_ints as) = map show_int as"
  unfolding show_ints_unwords by (rule words_unwords) (auto simp: list_all_iff show_int_word)

lemma show_ints_normal: "normal (show_ints as) = show_ints as"
  using show_ints_words [of as] by (simp add: normal_def show_ints_unwords)

lemma no_nul_show_ints: "no_nul (show_ints as)"
  by (induction as rule: show_ints.induct) (use show_int_word(2) in \<open>auto simp: no_nul_def\<close>)

lemma c_str_no_nul: "no_nul s \<Longrightarrow> c_str s = s"
  using takeWhile_all_append [of "\<lambda>c. c \<noteq> NUL" s "[]"] by (simp add: c_str_def no_nul_def)

lemma newline_not_in_show_ints: "NL \<notin> set (show_ints as)"
  using newline_not_in_normal [of "show_ints as"] by (simp add: show_ints_normal)

lemma length_show_ints: "list_all is_int as \<Longrightarrow> length (show_ints as) \<le> 12 * length as"
  by (induction as rule: show_ints.induct) (auto simp: is_int_def dest: length_show_int)

text \<open>The text of a reply is never cut.\<close>

lemma reply_text_fields:
  assumes "is_int a" "is_int b" "is_int c"
  shows "reply_text a b c = show_ints (reply_fields a b c) @ [NL]" (is "_ = ?t")
proof -
  have "length (show_ints (reply_fields a b c)) \<le> 36"
    using length_show_ints [of "reply_fields a b c"] assms by (auto simp: reply_fields_def split: if_splits)
  then have "snprintf MAX_RPC_BUF_LEN ?t = ?t" by (intro snprintf_id) (simp add: MAX_RPC_BUF_LEN_def)
  then show ?thesis by (auto simp: reply_text_def reply_fields_def split: if_splits)
qed

lemma recv_reply:
  assumes ints: "is_int a" "is_int b" "is_int c"
    and wire: "avail (cl_from s) = reply_text a b c @ rest"
  shows "\<exists>es. recv_server_reply s
        = Returned (True, act (map Printed (display (reply_fields a b c))) (s\<lparr>cl_from := es\<rparr>)) \<and> avail es = rest"
proof -
  let ?as = "reply_fields a b c"
  have len: "length (show_ints ?as) < 127" and all: "list_all is_int ?as" and n: "length ?as \<le> 3"
    using length_show_ints [of ?as] ints by (auto simp: reply_fields_def split: if_splits)
  obtain es where es: "read_until_delim MAX_RPC_BUF_LEN NL (cl_from s) = Some (SUCCESS, show_ints ?as, es)" "avail es = rest"
    using line_read [of "cl_from s" "show_ints ?as" rest] wire reply_text_fields [OF ints] newline_not_in_show_ints len by auto
  obtain buf where "checked (sanitise_whitespace (show_ints ?as @ [NUL])) = Returned buf" "c_str buf = show_ints ?as"
    using checked_sanitise [OF no_nul_show_ints, of ?as] by (auto simp: show_ints_normal)
  then have "recv_server_reply s = Returned (True, act (map Printed (display ?as)) (s\<lparr>cl_from := es\<rparr>))"
    using es sscanf_d_show_ints [OF all n] by (simp add: recv_server_reply_def c_str_no_nul [OF no_nul_show_ints])
  with es(2) show ?thesis by blast
qed

text \<open>A login reply of the server: the balance, or a rejection.\<close>

lemma length_show_long:
  assumes "LONG_MIN \<le> i" and "i \<le> LONG_MAX"
  shows "length (show_int i) \<le> 20"
proof -
  have "nat \<bar>i\<bar> < 10 ^ 19" using assms by (simp add: int_limits)
  then have "length (show_nat (nat \<bar>i\<bar>)) \<le> 19" by (intro length_show_nat) simp_all
  then show ?thesis by (auto simp: show_int_def split: if_splits)
qed

lemma login_reply_line:
  assumes "avail (cl_from c) = m @ NL # rest" and "NL \<notin> set m" and "no_nul m" and "length m < 127"
  shows "\<exists>es. avail es = rest \<and> login_reply input c =
    (if strncmp_eq m ''Reject'' 6 then Returned (act [Printed (m @ [NL])] (c\<lparr>cl_from := es, cl_stage := DISCONNECTED\<rparr>))
     else Returned (act [Printed (''Welcome '' @ drop 6 input @ ''. Your balance is '' @ show_int (fst (strtol m)) @ [NL])]
            (c\<lparr>cl_from := es, cl_logged_in := True\<rparr>)))"
  using line_read [OF assms(1,2,4)] by (auto simp: login_reply_def c_str_no_nul [OF assms(3)])

lemma login_reply_balance:
  assumes "LONG_MIN \<le> b" and "b \<le> LONG_MAX" and "avail (cl_from c) = snprintf 64 (show_int b @ [NL]) @ rest"
  shows "\<exists>es. avail es = rest \<and> login_reply input c =
    Returned (act [Printed (''Welcome '' @ drop 6 input @ ''. Your balance is '' @ show_int b @ [NL])]
      (c\<lparr>cl_from := es, cl_logged_in := True\<rparr>))"
proof -
  have len: "length (show_int b) \<le> 20" by (rule length_show_long) fact+
  then have "avail (cl_from c) = show_int b @ NL # rest" using assms(3) by (simp add: snprintf_def)
  moreover have "NL \<notin> set (show_int b)" using show_int_word [of b] by (auto simp: is_word_def list_all_iff)
  moreover have "\<not> strncmp_eq (show_int b) ''Reject'' 6"
  proof -
    have "hd (show_int b) \<noteq> CHR ''R''" using show_nat_hd_digit [of "nat b"]
      by (auto simp: show_int_def c_isdigit_def)
    then show ?thesis by (cases "show_int b") (auto simp: strncmp_eq_def)
  qed
  ultimately show ?thesis
    using login_reply_line [of c "show_int b" rest input] len show_int_word(2) [of b] strtol_show_int [OF assms(1,2), of "[]"]
    by auto
qed

lemma login_reply_reject:
  assumes "msg \<in> {MSG_REJECT_BALANCE, MSG_REJECT_UNAUTHORISED}" and "avail (cl_from c) = msg @ rest"
  shows "\<exists>es. avail es = rest \<and> login_reply input c =
    Returned (act [Printed msg] (c\<lparr>cl_from := es, cl_stage := DISCONNECTED\<rparr>))"
proof -
  obtain m where m: "msg = m @ [NL]" "NL \<notin> set m" "no_nul m" "length m < 127" "strncmp_eq m ''Reject'' 6"
    using assms(1)
    by (auto simp: MSG_REJECT_BALANCE_def MSG_REJECT_UNAUTHORISED_def no_nul_def strncmp_eq_def)
  with login_reply_line [of c m rest input] assms(2) show ?thesis by simp
qed

section \<open>What the functions leave in the trace\<close>

lemma act_simps [simp]:
  "cl_server (act as c) = cl_server c" "cl_stage (act as c) = cl_stage c" "cl_logged_in (act as c) = cl_logged_in c"
  "cl_retval (act as c) = cl_retval c" "cl_read (act as c) = cl_read c" "cl_write (act as c) = cl_write c"
  "cl_handlers (act as c) = cl_handlers c" "cl_stdin (act as c) = cl_stdin c" "cl_from (act as c) = cl_from c"
  "cl_trace (act as c) = cl_trace c @ as"
  by (simp_all add: act_def)

text \<open>Signals change nothing but the stage.\<close>

definition quiet :: "client \<Rightarrow> client \<Rightarrow> bool" where
  "quiet c c' \<longleftrightarrow> (\<exists>st. c' = c\<lparr>cl_stage := st\<rparr>)"

lemma quiet_refl [simp]: "quiet c c"
  by (auto simp: quiet_def intro: exI [of _ "cl_stage c"])

lemma quiet_trans: "quiet c d \<Longrightarrow> quiet d e \<Longrightarrow> quiet c e"
  by (auto simp: quiet_def)

lemma quiet_fields:
  "quiet c c' \<Longrightarrow> cl_server c' = cl_server c \<and> cl_logged_in c' = cl_logged_in c \<and> cl_retval c' = cl_retval c
     \<and> cl_read c' = cl_read c \<and> cl_write c' = cl_write c \<and> cl_handlers c' = cl_handlers c \<and> cl_stdin c' = cl_stdin c
     \<and> cl_from c' = cl_from c \<and> cl_trace c' = cl_trace c"
  by (auto simp: quiet_def)

lemma deliver_all_quiet: "deliver_all ss c = Returned c' \<Longrightarrow> quiet c c'"
proof (induction ss arbitrary: c)
  case (Cons s ss)
  then obtain h where "quiet (c\<lparr>cl_stage := handler_stage h\<rparr>) c'" by (auto split: option.splits)
  then show ?case by (auto simp: quiet_def)
qed simp

lemma deliver_all_handled: "\<forall>s \<in> set ss. cl_handlers c s \<noteq> None \<Longrightarrow> \<exists>c'. deliver_all ss c = Returned c'"
  by (induction ss arbitrary: c) auto

lemma deliver_all_outcome: "deliver_all ss c \<noteq> Waiting" "deliver_all ss c \<noteq> Faulted e"
  by (induction ss arbitrary: c) (auto split: option.splits)

text \<open>The descriptors the process holds.\<close>

fun hold :: "client_act \<Rightarrow> int multiset \<Rightarrow> int multiset" where
  "hold (Opened fd name) M = add_mset fd M"
| "hold (Closed fd) M = M - {#fd#}"
| "hold _ M = M"

definition held :: "client \<Rightarrow> int multiset" where
  "held c = fold hold (cl_trace c) {#}"

lemma held_act [simp]: "held (act as c) = fold hold as (held c)"
  by (simp add: held_def)

lemma held_update [simp]:
  "held (c\<lparr>cl_stage := st\<rparr>) = held c" "held (c\<lparr>cl_read := r\<rparr>) = held c" "held (c\<lparr>cl_write := r\<rparr>) = held c"
  "held (c\<lparr>cl_retval := e\<rparr>) = held c" "held (c\<lparr>cl_handlers := hs\<rparr>) = held c" "held (c\<lparr>cl_logged_in := b\<rparr>) = held c"
  "held (c\<lparr>cl_stdin := i\<rparr>) = held c" "held (c\<lparr>cl_from := f\<rparr>) = held c"
  by (simp_all add: held_def)

lemma held_reset [simp]: "held (reset_alarm_handler b c) = held c"
  by (simp add: reset_alarm_handler_def)

lemma held_quiet: "quiet c c' \<Longrightarrow> held c' = held c"
  by (auto simp: quiet_def)

lemma await_quiet: "await ws c = Returned c' \<Longrightarrow> quiet c c' \<and> cl_stage c' \<noteq> SYN_SENT"
proof (induction ws arbitrary: c)
  case (Cons w ws)
  show ?case
  proof (cases "cl_stage c = SYN_SENT")
    case True
    with Cons.prems obtain d where "deliver_all w c = Returned d" "await ws d = Returned c'"
      by (auto simp: proceed_eq_Returned)
    with Cons.IH deliver_all_quiet quiet_trans show ?thesis by blast
  qed (use Cons.prems in auto)
qed (auto split: if_splits)

text \<open>Every handler leaves the stage in which the client waits.\<close>

lemma deliver_all_stage: "deliver_all ss c = Returned c' \<Longrightarrow> ss \<noteq> [] \<Longrightarrow> cl_stage c' \<noteq> SYN_SENT"
proof (induction ss arbitrary: c)
  case (Cons s ss)
  then obtain h where h: "deliver_all ss (c\<lparr>cl_stage := handler_stage h\<rparr>) = Returned c'" by (auto split: option.splits)
  have "handler_stage h \<noteq> SYN_SENT" by (cases h) auto
  with h Cons.IH show ?case by (cases "ss = []") auto
qed simp

lemma await_ends:
  "\<exists>w \<in> set ws. w \<noteq> [] \<Longrightarrow> \<forall>s \<in> set (concat ws). cl_handlers c s \<noteq> None \<Longrightarrow> \<exists>c'. await ws c = Returned c'"
proof (induction ws arbitrary: c)
  case (Cons w ws)
  from Cons.prems(2) obtain d where d: "deliver_all w c = Returned d" using deliver_all_handled [of w c] by auto
  have hs: "cl_handlers d = cl_handlers c" using deliver_all_quiet [OF d] by (auto simp: quiet_def)
  show ?case
  proof (cases "w = []")
    case True
    with d hs Cons.IH [of d] Cons.prems show ?thesis by auto
  next
    case False
    with deliver_all_stage [OF d] have "await ws d = Returned d" by (cases ws) auto
    with d show ?thesis by simp
  qed
qed simp

lemma open_fifos_result:
  assumes "open_fifos env c = Returned (r, c')"
  shows "r = SUCCESS \<and> snd (cn_read env) = Some (cl_read c') \<and> snd (cn_write env) = Some (cl_write c')
        \<and> held c' = add_mset (cl_write c') (add_mset (cl_read c') (held c)) \<and> cl_retval c' = cl_retval c
    \<or> r = PIPE_FAIL \<and> cl_stage c' = DISCONNECTED \<and> held c' = held c \<and> cl_retval c' = r"
proof -
  from assms obtain c1 where c1: "deliver_all (fst (cn_read env)) (act [Alarm 1] c) = Returned c1"
    by (auto simp: open_fifos_def proceed_eq_Returned)
  note q1 = deliver_all_quiet [OF c1]
  show ?thesis
  proof (cases "snd (cn_read env)")
    case None
    with assms c1 held_quiet [OF q1] show ?thesis by (auto simp: open_fifos_def hsk_fail_def complain_def)
  next
    case (Some fd)
    let ?c2 = "act [Opened fd (set_name S2C (cn_pid env))] (c1\<lparr>cl_read := fd\<rparr>)"
    from assms c1 Some obtain c3 where c3: "deliver_all (fst (cn_write env)) ?c2 = Returned c3"
      by (auto simp: open_fifos_def proceed_eq_Returned Let_def)
    note q3 = deliver_all_quiet [OF c3]
    have held3: "held c3 = add_mset fd (held c)" and f3: "cl_read c3 = fd" "cl_retval c3 = cl_retval c"
      using held_quiet [OF q1] held_quiet [OF q3] quiet_fields [OF q1] quiet_fields [OF q3] by simp_all
    show ?thesis
    proof (cases "snd (cn_write env)")
      case None
      with assms c1 Some c3 held3 f3 show ?thesis
        by (auto simp: open_fifos_def hsk_fail_def complain_def Let_def)
    next
      case (Some w)
      with assms c1 c3 \<open>snd (cn_read env) = Some fd\<close> held3 f3 show ?thesis
        by (auto simp: open_fifos_def Let_def reset_alarm_handler_def)
    qed
  qed
qed

lemma handshake_cases:
  assumes "perform_handshake env c = Returned (r, c')"
  obtains "\<not> cn_kill env" "r = SIG_FAIL" "cl_retval c' = r" "held c' = held c"
  | "cn_kill env" "r = TIMEDOUT" "cl_stage c' = TIMED_OUT" "cl_retval c' = r" "held c' = held c"
  | d where "cn_kill env" "open_fifos env d = Returned (r, c')" "held d = held c" "cl_retval d = cl_retval c"
proof (cases "cn_kill env")
  case False
  with assms obtain c2 where
    c2: "deliver_all (cn_pending env) (act [Perror ''Failed to signal server'', Alarm 0]
           (act [Alarm 1, Syn (cl_server c)] (c\<lparr>cl_stage := SYN_SENT\<rparr>))) = Returned c2"
    and r: "r = SIG_FAIL" "c' = c2\<lparr>cl_retval := SIG_FAIL\<rparr>"
    by (auto simp: perform_handshake_def proceed_eq_Returned Let_def)
  with False that(1) held_quiet [OF deliver_all_quiet [OF c2]] show ?thesis by simp
next
  case True
  let ?c1 = "act [Alarm 1, Syn (cl_server c)] (c\<lparr>cl_stage := SYN_SENT\<rparr>)"
  from assms True obtain c2 c3 where c2: "await (cn_wakes env) ?c1 = Returned c2"
    and c3: "deliver_all (cn_pending env) (act [Alarm 0] c2) = Returned c3"
    and last: "(if cl_stage c3 = TIMED_OUT then Returned (complain TIMEDOUT c3) else open_fifos env c3) = Returned (r, c')"
    by (auto simp: perform_handshake_def proceed_eq_Returned Let_def)
  have q2: "quiet ?c1 c2" using await_quiet [OF c2] ..
  note q3 = deliver_all_quiet [OF c3]
  have "held c3 = held c" "cl_retval c3 = cl_retval c"
    using held_quiet [OF q2] held_quiet [OF q3] quiet_fields [OF q2] quiet_fields [OF q3] by simp_all
  with last True that(2,3) show ?thesis by (auto simp: complain_def split: if_splits)
qed

lemma open_fifos_returns:
  assumes "\<forall>s \<in> set (fst (cn_read env)) \<union> set (fst (cn_write env)). cl_handlers c s \<noteq> None"
  shows "\<exists>r c'. open_fifos env c = Returned (r, c')"
proof -
  obtain c1 where c1: "deliver_all (fst (cn_read env)) (act [Alarm 1] c) = Returned c1"
    using deliver_all_handled [of _ "act [Alarm 1] c"] assms by force
  have hs: "cl_handlers c1 = cl_handlers c" using quiet_fields [OF deliver_all_quiet [OF c1]] by simp
  show ?thesis
  proof (cases "snd (cn_read env)")
    case (Some fd)
    then obtain c3 where "deliver_all (fst (cn_write env)) (act [Opened fd (set_name S2C (cn_pid env))] (c1\<lparr>cl_read := fd\<rparr>))
        = Returned c3"
      using deliver_all_handled [of _ "act [Opened fd (set_name S2C (cn_pid env))] (c1\<lparr>cl_read := fd\<rparr>)"] assms hs by force
    with c1 Some show ?thesis by (auto simp: open_fifos_def Let_def split: option.split)
  qed (use c1 in \<open>auto simp: open_fifos_def hsk_fail_def complain_def\<close>)
qed

text \<open>What the handshake returns.\<close>

lemma handshake_held:
  assumes "perform_handshake env c = Returned (r, c')"
  shows "r \<in> {SUCCESS, SIG_FAIL, TIMEDOUT, PIPE_FAIL}
    \<and> (r = SIG_FAIL \<longleftrightarrow> \<not> cn_kill env)
    \<and> cl_retval c' = (if r = SUCCESS then cl_retval c else r)
    \<and> held c' = (if r = SUCCESS then {#cl_read c', cl_write c'#} + held c else held c)
    \<and> (r = SUCCESS \<longrightarrow> snd (cn_read env) = Some (cl_read c') \<and> snd (cn_write env) = Some (cl_write c'))
    \<and> (r = TIMEDOUT \<longrightarrow> cl_stage c' = TIMED_OUT) \<and> (r = PIPE_FAIL \<longrightarrow> cl_stage c' = DISCONNECTED)"
  using assms
proof (rule handshake_cases, goal_cases)
  case (3 d)
  with open_fifos_result [OF 3(2)] show ?case by (auto simp: add_mset_commute)
qed auto

section \<open>The requests of a login\<close>

definition sent :: "client \<Rightarrow> string list" where
  "sent c = concat (map (\<lambda>a. case a of Sent m \<Rightarrow> [m] | _ \<Rightarrow> []) (cl_trace c))"

lemma sent_act [simp]: "sent (act as c) = sent c @ concat (map (\<lambda>a. case a of Sent m \<Rightarrow> [m] | _ \<Rightarrow> []) as)"
  by (simp add: sent_def)

lemma sent_update [simp]:
  "sent (c\<lparr>cl_stage := st\<rparr>) = sent c" "sent (c\<lparr>cl_logged_in := b\<rparr>) = sent c"
  "sent (c\<lparr>cl_stdin := i\<rparr>) = sent c" "sent (c\<lparr>cl_from := f\<rparr>) = sent c"
  by (simp_all add: sent_def)

lemma sent_quiet: "quiet c c' \<Longrightarrow> sent c' = sent c"
  by (auto simp: quiet_def)

text \<open>What goes out is the beginning of one line, of at most \<open>n\<close> characters, that starts with \<open>p\<close>.\<close>

definition line_part :: "string \<Rightarrow> nat \<Rightarrow> string \<Rightarrow> bool" where
  "line_part p n msg \<longleftrightarrow> (\<exists>k m. msg = take k (p @ m @ [NL]) \<and> NL \<notin> set (p @ m) \<and> length msg \<le> n)"

lemma send_all_sent:
  assumes "send_all buf evs c = Returned c'"
  shows "\<exists>n. sent c' = sent c @ [take n buf] \<and> cl_logged_in c' = cl_logged_in c \<and> cl_stdin c' = cl_stdin c
    \<and> cl_from c' = cl_from c \<and> cl_handlers c' = cl_handlers c"
proof -
  obtain r n es where w: "write_block_pipe buf evs = Some (r, n, es)"
    using assms by (cases "write_block_pipe buf evs") (auto simp: send_all_def)
  show ?thesis
  proof (cases "r = PIPE_CLOSED")
    case True
    with assms w have "deliver_all [SIGPIPE] (act [Sent (take n buf)] c) = Returned c'"
      by (simp only: send_all_def option.case prod.case Let_def simp_thms if_True)
    from deliver_all_quiet [OF this] sent_quiet [OF deliver_all_quiet [OF this]] quiet_fields show ?thesis by fastforce
  next
    case False
    with assms w show ?thesis by (auto simp: send_all_def)
  qed
qed

lemma login_reply_sent: "login_reply input c = Returned c' \<Longrightarrow> sent c' = sent c"
  by (auto simp: login_reply_def Let_def split: option.splits if_splits)

lemma prefix_normal_line:
  assumes "strncmp_eq input ''Login '' 6" and "input = normal s" and "length input \<le> 127"
  shows "line_part ''Login '' 128 (take n (snprintf (MAX_RPC_BUF_LEN + 1) (input @ [NL])))"
proof -
  obtain m where "input = ''Login '' @ m" using assms(1) by (auto simp: strncmp_eq_prefix prefix_def)
  then show ?thesis using assms newline_not_in_normal [of s]
    by (auto simp: line_part_def snprintf_def MAX_RPC_BUF_LEN_def intro!: exI [of _ n] exI [of _ m])
qed

lemma authorise_sent:
  "authorise answers c = Returned c' \<Longrightarrow> \<not> cl_logged_in c \<Longrightarrow>
   sent c' = sent c \<and> \<not> cl_logged_in c'
   \<or> (\<exists>m. sent c' = sent c @ [m] \<and> line_part ''Login '' 128 m)"
proof (induction answers arbitrary: c)
  case Nil
  then show ?case by (auto split: if_splits)
next
  case (Cons a answers)
  show ?case
  proof (cases "cl_stage c = CONNECTED")
    case False
    with Cons.prems show ?thesis by simp
  next
    case True
    note step = Cons.prems(1) [unfolded authorise.simps, simplified True Cons.prems(2) simp_thms if_True]
    show ?thesis
    proof (cases a)
      case (Broken sigs)
      with step have q: "quiet c c'" by (auto dest: deliver_all_quiet)
      from sent_quiet [OF q] quiet_fields [OF q] Cons.prems(2) show ?thesis by simp
    next
      case (Typed wevs sigs)
      show ?thesis
      proof (cases "c_fgets MAX_RPC_BUF_LEN (cl_stdin c)")
        case None
        with step Typed Cons.prems(2) show ?thesis by simp
      next
        case (Some lr)
        then obtain chunk stdin where f: "c_fgets MAX_RPC_BUF_LEN (cl_stdin c) = Some (chunk, stdin)" by (cases lr) auto
        let ?c1 = "c\<lparr>cl_stdin := stdin\<rparr>" and ?m = "normal (c_str chunk)"
        obtain buf where buf: "checked (sanitise_whitespace (strip_newline (c_str chunk) @ [NUL])) = Returned buf" "c_str buf = ?m"
          using checked_sanitise [of "strip_newline (c_str chunk)"] by auto
        note step1 = step [unfolded Typed f option.case answer.case prod.case Let_def buf proceed.simps]
        consider (skip) d where "authorise answers d = Returned c'" "\<not> cl_logged_in d" "sent d = sent c"
          | (login) "strncmp_eq ?m ''Login '' 6"
              "proceed (send_all (snprintf (MAX_RPC_BUF_LEN + 1) (?m @ [NL])) wevs ?c1) (\<lambda>c2.
                 proceed (deliver_all sigs c2) (login_reply ?m)) = Returned c'"
          using step1 Cons.prems(2) that(1) [of ?c1] that(1) [of "act [Printed (''Not logged in'' @ [NL])] ?c1"]
          by (auto split: if_splits)
        then show ?thesis
        proof cases
          case skip
          with Cons.IH [of d] show ?thesis by simp
        next
          case login
          then obtain c2 c3 where s: "send_all (snprintf (MAX_RPC_BUF_LEN + 1) (?m @ [NL])) wevs ?c1 = Returned c2"
            and d: "deliver_all sigs c2 = Returned c3" and r: "login_reply ?m c3 = Returned c'"
            by (auto simp: proceed_eq_Returned)
          from send_all_sent [OF s] sent_quiet [OF deliver_all_quiet [OF d]] login_reply_sent [OF r]
          obtain n where "sent c' = sent c @ [take n (snprintf (MAX_RPC_BUF_LEN + 1) (?m @ [NL]))]" by auto
          with prefix_normal_line [OF login(1) refl chunk_bound [OF f]] show ?thesis by blast
        qed
      qed
    qed
  qed
qed

section \<open>Properties\<close>

text \<open>The client at the start of its \<open>main\<close>, and the handlers its set-up installs.\<close>

definition fresh_client :: "string \<Rightarrow> rd_event list \<Rightarrow> client" where
  "fresh_client stdin from = \<lparr>cl_server = 0, cl_stage = IDLE, cl_logged_in = False, cl_retval = SUCCESS, cl_read = 0,
     cl_write = 0, cl_handlers = Map.empty, cl_stdin = stdin, cl_from = from, cl_trace = []\<rparr>"

definition ready_client :: "int \<Rightarrow> string \<Rightarrow> rd_event list \<Rightarrow> client" where
  "ready_client server stdin from =
     snd (client_setup_signals (\<lambda>s. True) ((fresh_client stdin from)\<lparr>cl_server := server\<rparr>))"

lemma ready_client_simps [simp]:
  "cl_stdin (ready_client p i f) = i" "cl_from (ready_client p i f) = f" "cl_stage (ready_client p i f) = IDLE"
  "cl_retval (ready_client p i f) = SUCCESS" "cl_trace (ready_client p i f) = []" "\<not> cl_logged_in (ready_client p i f)"
  "cl_handlers (ready_client p i f) = [SIGUSR2 \<mapsto> Sigusr2Handler, SIGALRM \<mapsto> AlarmHandler, SIGINT \<mapsto> ClientShutdown,
     SIGTERM \<mapsto> ClientShutdown, SIGQUIT \<mapsto> ClientShutdown, SIGHUP \<mapsto> ClientShutdown]"
  by (simp_all add: ready_client_def client_setup_signals_def fresh_client_def)

text \<open>C21: the request round trip. A line typed by the user, cut to 127 characters by \<open>fgets\<close>, is sent as its words separated by single
  spaces; the server's reader, however the kernel cuts the bytes, gets exactly that text as one line, and what is sent later stays
  in the pipe. This holds for a line of 127 characters too, whose newline does not fit the buffer of the client.\<close>

theorem request_roundtrip:
  assumes "c_fgets MAX_RPC_BUF_LEN (cl_stdin c) = Some (chunk, stdin)"
    and "normal (c_str chunk) \<noteq> []" and "normal (c_str chunk) \<noteq> ''Disconnect''"
    and "write_block_pipe (snprintf MAX_RPC_BUF_LEN (normal (c_str chunk) @ [NL])) wevs = Some (SUCCESS, n, wes)"
    and "avail revs = snprintf MAX_RPC_BUF_LEN (normal (c_str chunk) @ [NL]) @ later"
  shows "\<exists>c' es. send_user_input (Typed wevs sigs) c = Returned (1, c')
    \<and> cl_trace c' = cl_trace c @ [Sent (snprintf MAX_RPC_BUF_LEN (normal (c_str chunk) @ [NL]))]
    \<and> read_until_delim MAX_RPC_BUF_LEN NL revs = Some (SUCCESS, normal (c_str chunk), es) \<and> avail es = later"
  using send_user_input_rpc [OF assms(1-4)] request_read [OF assms(5) newline_not_in_normal chunk_bound [OF assms(1)]]
  by auto

theorem request_roundtrip_witness:
  "\<exists>c' es. send_user_input (Typed [Accept 3, WrErr EINTR, Accept 200] [])
        (ready_client 7 (replicate 63 (CHR ''x'') @ [SPC] @ replicate 80 (CHR ''y'')) []) = Returned (1, c')
    \<and> cl_trace c' = [Sent (replicate 63 (CHR ''x'') @ [SPC] @ replicate 63 (CHR ''y''))]
    \<and> read_until_delim 128 NL [Data (replicate 63 (CHR ''x'')), Data ([SPC] @ replicate 63 (CHR ''y'')), Data ''next'']
        = Some (SUCCESS, replicate 63 (CHR ''x'') @ [SPC] @ replicate 63 (CHR ''y''), es)
    \<and> avail es = ''next''"
proof -
  let ?typed = "replicate 63 (CHR ''x'') @ [SPC] @ replicate 80 (CHR ''y'')"
  let ?line = "replicate 63 (CHR ''x'') @ [SPC] @ replicate 63 (CHR ''y'')"
  have g: "c_fgets MAX_RPC_BUF_LEN ?typed = Some (?line, replicate 17 (CHR ''y''))" by code_simp
  have n: "normal (c_str ?line) = ?line" by code_simp
  have ne: "?line \<noteq> ''Disconnect''" by code_simp
  have m: "snprintf MAX_RPC_BUF_LEN (?line @ [NL]) = ?line" by code_simp
  have w: "write_block_pipe ?line [Accept 3, WrErr EINTR, Accept 200] = Some (SUCCESS, 127, [])"
    by (simp add: write_block_pipe_def write_block_loop.simps)
  show ?thesis
    using request_roundtrip [of "ready_client 7 ?typed []" ?line "replicate 17 (CHR ''y'')" "[Accept 3, WrErr EINTR, Accept 200]" 127 "[]"
        "[Data (replicate 63 (CHR ''x'')), Data ([SPC] @ replicate 63 (CHR ''y'')), Data ''next'']" "''next''" "[]"] g n m w ne
    by (simp add: MAX_RPC_BUF_LEN_def)
qed

text \<open>the reply round trip. The text the server prints for three numbers of type \<open>int\<close>, any of the last two of which may be the mark \<open>INT_MIN\<close> of an
  absent field, is never cut, and the receiver of the client reads back exactly the numbers that are present, and shows their
  meaning; what follows stays in the pipe.\<close>

theorem reply_roundtrip:
  assumes "is_int a" "is_int b" "is_int c" and "avail (cl_from s) = reply_text a b c @ later"
  shows "\<exists>es. recv_server_reply s
      = Returned (True, act (map Printed (display (reply_fields a b c))) (s\<lparr>cl_from := es\<rparr>)) \<and> avail es = later"
  using assms by (rule recv_reply)

theorem reply_roundtrip_witness:
  "\<exists>es. recv_server_reply (ready_client 7 [] [Data ''0 '', RdErr EINTR, Data (''5'' @ [NL] @ ''-'')])
     = Returned (True, act [Printed (''Success 5'' @ [NL])] ((ready_client 7 [] [Data ''0 '', RdErr EINTR, Data (''5'' @ [NL] @ ''-'')])\<lparr>cl_from := es\<rparr>))
     \<and> avail es = ''-''"
proof -
  have r: "reply_text 0 5 INT_MIN = ''0 5'' @ [NL]" by code_simp
  have d: "display (reply_fields 0 5 INT_MIN) = [''Success 5'' @ [NL]]" by code_simp
  have i: "is_int 0" "is_int 5" "is_int INT_MIN" by (simp_all add: is_int_def int_limits)
  show ?thesis
    using reply_roundtrip [OF i, of "ready_client 7 [] [Data ''0 '', RdErr EINTR, Data (''5'' @ [NL] @ ''-'')]" "''-''"] r d by simp
qed

text \<open>the login round trip. The balance the server sends to a user it accepts, any value of type \<open>long\<close>, is the balance the client welcomes
  the user with, and the client is logged in; the two rejections of the server are printed as they are and end the connection.\<close>

theorem login_roundtrip:
  assumes "LONG_MIN \<le> b" and "b \<le> LONG_MAX" and "avail (cl_from c) = snprintf 64 (show_int b @ [NL]) @ later"
    and "msg \<in> {MSG_REJECT_BALANCE, MSG_REJECT_UNAUTHORISED}" and "avail (cl_from d) = msg @ later"
  shows "(\<exists>es. avail es = later \<and> login_reply (''Login '' @ u) c =
      Returned (act [Printed (''Welcome '' @ u @ ''. Your balance is '' @ show_int b @ [NL])] (c\<lparr>cl_from := es, cl_logged_in := True\<rparr>)))
    \<and> (\<exists>es. avail es = later \<and> login_reply (''Login '' @ u) d =
      Returned (act [Printed msg] (d\<lparr>cl_from := es, cl_stage := DISCONNECTED\<rparr>)))"
  using login_reply_balance [OF assms(1-3), of "''Login '' @ u"] login_reply_reject [OF assms(4,5), of "''Login '' @ u"] by simp

theorem login_roundtrip_witness:
  "(\<exists>es. avail es = [] \<and> login_reply (''Login '' @ ''ann'') (ready_client 7 [] [Data (''-12'' @ [NL])]) =
      Returned (act [Printed (''Welcome ann. Your balance is -12'' @ [NL])]
        ((ready_client 7 [] [Data (''-12'' @ [NL])])\<lparr>cl_from := es, cl_logged_in := True\<rparr>)))"
proof -
  have s: "show_int (- 12) = ''-12''" by code_simp
  show ?thesis
    using login_roundtrip [of "- 12" "ready_client 7 [] [Data (''-12'' @ [NL])]" "[]" MSG_REJECT_BALANCE "ready_client 7 [] [Data MSG_REJECT_BALANCE]" "''ann''"]
    by (simp add: s int_limits snprintf_def)
qed

text \<open>C18: the handshake. It returns one of four codes; \<open>SIG_FAIL\<close> exactly when the server cannot be signalled; any other failure is stored in
  \<open>retval\<close>; on success the process holds the two ends it opened and nothing else new, and on a failure it holds no
  descriptor it did not hold before.\<close>

theorem handshake_outcome:
  assumes "perform_handshake env c = Returned (r, c')"
  shows "r \<in> {SUCCESS, SIG_FAIL, TIMEDOUT, PIPE_FAIL}
    \<and> (r = SIG_FAIL \<longleftrightarrow> \<not> cn_kill env)
    \<and> cl_retval c' = (if r = SUCCESS then cl_retval c else r)
    \<and> held c' = (if r = SUCCESS then {#cl_read c', cl_write c'#} + held c else held c)
    \<and> (r = SUCCESS \<longrightarrow> snd (cn_read env) = Some (cl_read c') \<and> snd (cn_write env) = Some (cl_write c'))
    \<and> (r = TIMEDOUT \<longrightarrow> cl_stage c' = TIMED_OUT) \<and> (r = PIPE_FAIL \<longrightarrow> cl_stage c' = DISCONNECTED)"
  using assms by (rule handshake_held)

text \<open>An undisturbed handshake: the server answers, both FIFOs open; and one in which the second FIFO is missing.\<close>

definition answered :: "int option \<Rightarrow> connect_env" where
  "answered w = \<lparr>cn_pid = 42, cn_kill = True, cn_wakes = [[SIGUSR2]], cn_pending = [], cn_read = ([], Some 3), cn_write = ([], w),
     cn_reset = True\<rparr>"

theorem handshake_outcome_witness:
  "(\<exists>c'. perform_handshake (answered (Some 4)) (ready_client 7 [] []) = Returned (SUCCESS, c') \<and> held c' = {#3, 4#})
   \<and> (\<exists>c'. perform_handshake (answered None) (ready_client 7 [] []) = Returned (PIPE_FAIL, c') \<and> held c' = {#})"
proof -
  let ?c = "ready_client 7 [] []"
  have h0: "held ?c = {#}" by (simp add: held_def)
  obtain c1 where c1: "perform_handshake (answered (Some 4)) ?c = Returned (SUCCESS, c1)"
    by (simp add: perform_handshake_def answered_def open_fifos_def)
  obtain c2 where c2: "perform_handshake (answered None) ?c = Returned (PIPE_FAIL, c2)"
    by (simp add: perform_handshake_def answered_def open_fifos_def hsk_fail_def complain_def)
  show ?thesis
    using handshake_outcome [OF c1] handshake_outcome [OF c2] c1 c2 h0 by (auto simp: answered_def)
qed



text \<open>a user who interrupts the handshake does not end it. The stage is then \<open>DISCONNECTED\<close>, which is not tested, so the client goes on to open the
  FIFOs: it either reports that the pipes failed, with their exit status, or succeeds and leaves without having logged in.\<close>

theorem interrupted_handshake_goes_on:
  assumes "cl_handlers c SIGINT = Some ClientShutdown"
    and "cn_kill env" "cn_wakes env = [SIGINT] # ws" "cn_pending env = []" "fst (cn_read env) = []" "fst (cn_write env) = []"
  shows "\<exists>r c'. perform_handshake env c = Returned (r, c') \<and> cl_stage c' = DISCONNECTED
    \<and> r = (if snd (cn_read env) = None \<or> snd (cn_write env) = None then PIPE_FAIL else SUCCESS)"
proof -
  have a: "await (cn_wakes env) (act [Alarm 1, Syn (cl_server c)] (c\<lparr>cl_stage := SYN_SENT\<rparr>))
      = Returned ((act [Alarm 1, Syn (cl_server c)] (c\<lparr>cl_stage := SYN_SENT\<rparr>))\<lparr>cl_stage := DISCONNECTED\<rparr>)"
    using assms(1,3) by (cases ws) simp_all
  show ?thesis
    using assms(2-) unfolding perform_handshake_def Let_def a
    by (auto simp: open_fifos_def hsk_fail_def complain_def Let_def reset_alarm_handler_def split: option.split)
qed

theorem interrupted_handshake_goes_on_witness:
  "\<exists>r c'. perform_handshake (answered None\<lparr>cn_wakes := [[SIGINT]]\<rparr>) (ready_client 7 [] []) = Returned (r, c')
     \<and> cl_stage c' = DISCONNECTED \<and> r = PIPE_FAIL"
  using interrupted_handshake_goes_on [of "ready_client 7 [] []" "answered None\<lparr>cn_wakes := [[SIGINT]]\<rparr>" "[]"]
  by (simp add: answered_def)

text \<open>before the login at most one request is sent, whatever is typed; it is (the beginning of) one line that starts with "Login " and has
  at most 128 characters, and a client is never logged in without having sent one.\<close>

theorem login_sends_one_line:
  assumes "authorise answers c = Returned c'" and "\<not> cl_logged_in c"
  shows "sent c' = sent c \<and> \<not> cl_logged_in c' \<or> (\<exists>m. sent c' = sent c @ [m] \<and> line_part ''Login '' 128 m)"
  using assms by (rule authorise_sent)

text \<open>A user who asks for help, types blanks, and logs in.\<close>

definition at_prompt :: client where
  "at_prompt = (ready_client 7 (''help'' @ [NL, SPC, NL] @ '' Login  ann'' @ [NL]) [Data (''5'' @ [NL])])\<lparr>cl_stage := CONNECTED\<rparr>"

theorem login_sends_one_line_witness:
  "\<exists>c'. authorise [Typed [] [], Typed [] [], Typed [Accept 99] []] at_prompt = Returned c'
     \<and> \<not> cl_logged_in at_prompt \<and> cl_logged_in c' \<and> (\<exists>m. sent c' = sent at_prompt @ [m] \<and> line_part ''Login '' 128 m)"
proof -
  have f: "c_fgets 128 (''help'' @ [NL, SPC, NL] @ '' Login  ann'' @ [NL]) = Some (''help'' @ [NL], [SPC, NL] @ '' Login  ann'' @ [NL])"
    "c_fgets 128 ([SPC, NL] @ '' Login  ann'' @ [NL]) = Some ([SPC, NL], '' Login  ann'' @ [NL])"
    "c_fgets 128 ('' Login  ann'' @ [NL]) = Some ('' Login  ann'' @ [NL], [])"
    by code_simp+
  have s: "sanitise_whitespace (strip_newline (c_str (''help'' @ [NL])) @ [NUL]) = Inr (''help'' @ [NUL])"
    "sanitise_whitespace (strip_newline (c_str [SPC, NL]) @ [NUL]) = Inr [NUL, NUL]"
    "sanitise_whitespace (strip_newline (c_str ('' Login  ann'' @ [NL])) @ [NUL]) = Inr (''Login ann'' @ [NUL, CHR ''n'', NUL])"
    by code_simp+
  have c: "c_str (''help'' @ [NUL]) = ''help''" "c_str [NUL, NUL] = []" "c_str (''Login ann'' @ [NUL, CHR ''n'', NUL]) = ''Login ann''"
    by code_simp+
  have "case authorise [Typed [] [], Typed [] [], Typed [Accept 99] []] at_prompt of
      Returned c' \<Rightarrow> cl_logged_in c' | _ \<Rightarrow> False"
    using f s c
    by (simp add: at_prompt_def MAX_RPC_BUF_LEN_def strncmp_eq_def snprintf_def send_all_def write_block_pipe_def
        write_block_loop.simps login_reply_def read_until_delim_def read_delim_loop.simps c_str_def)
  then obtain c' where r: "authorise [Typed [] [], Typed [] [], Typed [Accept 99] []] at_prompt = Returned c'"
    and l: "cl_logged_in c'" by (auto split: outcome.splits)
  have n: "\<not> cl_logged_in at_prompt" by (simp add: at_prompt_def)
  from login_sends_one_line [OF r n] r l n show ?thesis by auto
qed

end
