(* ===== verification/ClientRun.thy ===== *)
theory ClientRun
  imports Client
begin

text \<open>
  The client as a whole: \<open>main\<close> of \<open>animate_client.c\<close>, which after the login shares \<open>CONNECTION_STATE\<close> and \<open>LOGGED_IN\<close> with
  the thread of \<open>receiver.c\<close>. A run is a sequence of events, in any order the scheduler chooses: signals, the test of the
  loop of \<open>main\<close>, one line of input, one reply, the join.
\<close>

section \<open>State and start\<close>

text \<open>\<open>Leaving\<close>: after the label \<open>teardown\<close>, with the pipes closed, where \<open>main\<close> waits for the receiver if it was started.\<close>

datatype main_at = Testing | Reading | Leaving | Exited int
datatype recv_at = Unborn | Receiving | Gone

record client_run =
  rn_client :: client
  rn_main :: main_at
  rn_recv :: recv_at

record client_env =
  ce_signals :: "signal \<Rightarrow> bool"
  ce_hsk :: connect_env
  ce_answers :: "answer list"
  ce_spawn :: bool

definition leave :: "bool \<Rightarrow> recv_at \<Rightarrow> client \<Rightarrow> client_run" where
  "leave pipes_opened recv c =
     \<lparr>rn_client = (if pipes_opened then act [Closed (cl_read c), Closed (cl_write c)] c else c), rn_main = Leaving, rn_recv = recv\<rparr>"

definition client_main :: "client_env \<Rightarrow> string list \<Rightarrow> client \<Rightarrow> client_run outcome" where
  "client_main env args c =
     (let (e0, c0) = set_serverpid args c
      in if e0 \<noteq> SUCCESS then Returned (leave False Unborn c0)
         else
           let (e1, c1) = client_setup_signals (ce_signals env) c0
           in if e1 \<noteq> SUCCESS then Returned (leave False Unborn c1)
              else
                proceed (perform_handshake (ce_hsk env) c1) (\<lambda>(e2, c2).
                  if e2 \<noteq> SUCCESS then Returned (leave False Unborn c2)
                  else
                    proceed (authorise (ce_answers env) c2) (\<lambda>c3.
                      if \<not> cl_logged_in c3 then Returned (leave True Unborn c3)
                      else if \<not> ce_spawn env then Returned (leave True Unborn c3)
                      else Returned \<lparr>rn_client = c3, rn_main = Testing, rn_recv = Receiving\<rparr>)))"

section \<open>The two threads\<close>

datatype client_event = Signals "signal list" | MainTest | MainInput answer | Receive | Join

definition disconnect :: "client \<Rightarrow> client" where
  "disconnect c = c\<lparr>cl_stage := DISCONNECTED, cl_logged_in := False\<rparr>"

definition receiver_turn :: "client_run \<Rightarrow> client_run outcome" where
  "receiver_turn r = proceed (recv_server_reply (rn_client r)) (\<lambda>(alive, c).
     if \<not> alive then Returned (r\<lparr>rn_client := disconnect c, rn_recv := Gone\<rparr>)
     else Returned (r\<lparr>rn_client := c\<rparr>))"

definition loop_test :: "client_run \<Rightarrow> client_run" where
  "loop_test r =
     (if cl_stage (rn_client r) = CONNECTED \<and> cl_logged_in (rn_client r) then r\<lparr>rn_main := Reading\<rparr>
      else leave True (rn_recv r) (rn_client r))"

definition loop_body :: "answer \<Rightarrow> client_run \<Rightarrow> client_run outcome" where
  "loop_body a r = proceed (send_user_input a (rn_client r)) (\<lambda>(send, c).
     if send = - 1 \<or> send = 0 then Returned (leave True (rn_recv r) (disconnect c))
     else Returned (r\<lparr>rn_client := c, rn_main := Testing\<rparr>))"

text \<open>An event of a thread that is not at the place the event is about does nothing.\<close>

definition client_step :: "client_event \<Rightarrow> client_run \<Rightarrow> client_run outcome" where
  "client_step e r = (case e of
     Signals ss \<Rightarrow> proceed (deliver_all ss (rn_client r)) (\<lambda>c. Returned (r\<lparr>rn_client := c\<rparr>))
   | MainTest \<Rightarrow> if rn_main r = Testing then Returned (loop_test r) else Returned r
   | MainInput a \<Rightarrow> if rn_main r = Reading then loop_body a r else Returned r
   | Receive \<Rightarrow> if rn_recv r = Receiving then receiver_turn r else Returned r
   | Join \<Rightarrow> if rn_main r = Leaving \<and> rn_recv r \<noteq> Receiving
             then Returned (r\<lparr>rn_main := Exited (exit_status (cl_retval (rn_client r)))\<rparr>) else Returned r)"

fun client_steps :: "client_event list \<Rightarrow> client_run \<Rightarrow> client_run outcome" where
  "client_steps [] r = Returned r"
| "client_steps (e # es) r = proceed (client_step e r) (client_steps es)"

definition client_process ::
  "client_env \<Rightarrow> string list \<Rightarrow> string \<Rightarrow> rd_event list \<Rightarrow> client_event list \<Rightarrow> client_run outcome" where
  "client_process env args stdin from es = proceed (client_main env args (fresh_client stdin from)) (client_steps es)"

section \<open>No fault\<close>

definition sound :: "'a outcome \<Rightarrow> bool" where
  "sound m = (case m of Faulted e \<Rightarrow> False | _ \<Rightarrow> True)"

named_theorems sound_rules "calls that meet no fault"

lemma sound_simps [simp]: "sound Waiting" "sound (Killed s)" "sound (Returned x)" "\<not> sound (Faulted e)"
  by (simp_all add: sound_def)

lemma sound_proceed [sound_rules]: "sound m \<Longrightarrow> (\<And>x. m = Returned x \<Longrightarrow> sound (f x)) \<Longrightarrow> sound (proceed m f)"
  by (cases m) auto

lemma sound_deliver [sound_rules]: "sound (deliver_all ss c)"
  by (induction ss arbitrary: c) (auto split: option.split)

lemma sound_await [sound_rules]: "sound (await ws c)"
  by (induction ws arbitrary: c) (auto intro!: sound_rules)

lemma sound_send [sound_rules]: "sound (send_all buf evs c)"
  unfolding send_all_def Let_def by (auto simp del: deliver_all.simps intro!: sound_rules split: option.split)

lemma sound_sanitise [sound_rules]: "no_nul s \<Longrightarrow> sound (checked (sanitise_whitespace (s @ [NUL])))"
  by (erule checked_sanitise [of s]) simp

lemma sound_handshake [sound_rules]: "sound (perform_handshake env c)"
  unfolding perform_handshake_def open_fifos_def Let_def
  by (auto intro!: sound_rules split: option.split)

lemma sound_login_reply [sound_rules]: "sound (login_reply input c)"
  by (auto simp: login_reply_def Let_def split: option.split)

lemma sound_authorise [sound_rules]: "sound (authorise answers c)"
proof (induction answers arbitrary: c)
  case (Cons a answers)
  then show ?case by (cases a) (auto simp: Let_def intro!: sound_rules split: option.split)
qed simp

lemma sound_send_user_input [sound_rules]: "sound (send_user_input a c)"
  unfolding send_user_input_def Let_def by (auto intro!: sound_rules split: answer.split option.split)

lemma sound_recv_server_reply [sound_rules]: "sound (recv_server_reply c)"
  unfolding recv_server_reply_def Let_def by (auto intro!: sound_rules split: option.split)

lemma sound_step [sound_rules]: "sound (client_step ev r)"
  unfolding client_step_def loop_body_def receiver_turn_def
  by (auto intro!: sound_rules split: client_event.split)

lemma sound_steps [sound_rules]: "sound (client_steps es r)"
  by (induction es arbitrary: r) (auto intro!: sound_rules)

lemma sound_main [sound_rules]: "sound (client_main env args c)"
  unfolding client_main_def Let_def by (auto intro!: sound_rules split: prod.split)

section \<open>What a conversation leaves alone\<close>

definition chat :: "client \<Rightarrow> client \<Rightarrow> bool" where
  "chat c c' \<longleftrightarrow> held c' = held c \<and> cl_read c' = cl_read c \<and> cl_write c' = cl_write c \<and> cl_retval c' = cl_retval c
     \<and> cl_handlers c' = cl_handlers c"

named_theorems chat_rules "calls that neither open nor close a pipe"

lemma chat_refl [simp]: "chat c c"
  by (simp add: chat_def)

lemma chat_trans: "chat c d \<Longrightarrow> chat d e \<Longrightarrow> chat c e"
  by (simp add: chat_def)

lemma fold_hold_printed [simp]: "fold hold (map Printed ps) M = M"
  by (induction ps arbitrary: M) auto

lemma concat_sent_printed [simp]:
  "concat (map (\<lambda>a. case a of Sent m \<Rightarrow> [m] | _ \<Rightarrow> []) (map Printed ps)) = []"
  by (induction ps) auto

lemma chat_simps [simp]:
  "chat c (d\<lparr>cl_stage := st\<rparr>) = chat c d" "chat c (d\<lparr>cl_logged_in := b\<rparr>) = chat c d"
  "chat c (d\<lparr>cl_stdin := i\<rparr>) = chat c d" "chat c (d\<lparr>cl_from := f\<rparr>) = chat c d"
  "chat c (act [Printed p] d) = chat c d" "chat c (act (map Printed ps) d) = chat c d" "chat c (act [Sent m] d) = chat c d"
  by (simp_all add: chat_def)

lemma chat_quiet: "quiet c c' \<Longrightarrow> chat c c'"
  by (auto simp: quiet_def)

lemma chat_deliver: "deliver_all ss c = Returned c' \<Longrightarrow> chat c c'"
  by (rule chat_quiet) (rule deliver_all_quiet)

lemma chat_send: "send_all buf evs c = Returned c' \<Longrightarrow> chat c c'"
proof -
  assume s: "send_all buf evs c = Returned c'"
  then obtain r n es where w: "write_block_pipe buf evs = Some (r, n, es)"
    by (cases "write_block_pipe buf evs") (auto simp: send_all_def)
  show ?thesis
  proof (cases "r = PIPE_CLOSED")
    case True
    with s w have "deliver_all [SIGPIPE] (act [Sent (take n buf)] c) = Returned c'"
      by (simp only: send_all_def option.case prod.case Let_def simp_thms if_True)
    from chat_deliver [OF this] show ?thesis by (simp add: chat_def)
  next
    case False
    with s w show ?thesis by (auto simp: send_all_def)
  qed
qed

lemma chat_login_reply: "login_reply input c = Returned c' \<Longrightarrow> chat c c'"
  by (auto simp: login_reply_def Let_def split: option.splits if_splits)

lemma chat_authorise: "authorise answers c = Returned c' \<Longrightarrow> chat c c'"
proof (induction answers arbitrary: c)
  case Nil
  then show ?case by (auto split: if_splits)
next
  case (Cons a answers)
  have IH: "authorise answers d = Returned c' \<Longrightarrow> chat c d \<Longrightarrow> chat c c'" for d
    using Cons.IH chat_trans by blast
  show ?case
  proof (cases a)
    case (Broken sigs)
    with Cons.prems show ?thesis by (auto split: if_splits dest: chat_deliver)
  next
    case (Typed wevs sigs)
    have login: "send_all buf wevs (c\<lparr>cl_stdin := i\<rparr>) = Returned c2 \<Longrightarrow> deliver_all sigs c2 = Returned c3 \<Longrightarrow>
        login_reply input c3 = Returned c' \<Longrightarrow> chat c c'" for buf i c2 c3 input
      using chat_send [of buf wevs "c\<lparr>cl_stdin := i\<rparr>" c2] chat_deliver [of sigs c2 c3] chat_login_reply [of input c3 c']
      by (auto simp: chat_def)
    from Cons.prems Typed show ?thesis
      by (auto simp: proceed_eq_Returned Let_def split: if_splits option.splits prod.splits
          intro: IH login)
  qed
qed

lemma chat_send_user_input: "send_user_input a c = Returned (k, c') \<Longrightarrow> chat c c'"
  by (auto simp: send_user_input_def Let_def proceed_eq_Returned split: answer.splits option.splits prod.splits if_splits
      dest!: chat_send chat_deliver) (auto simp: chat_def)

lemma chat_recv: "recv_server_reply c = Returned (b, c') \<Longrightarrow> chat c c' \<and> sent c' = sent c"
  by (auto simp: recv_server_reply_def Let_def proceed_eq_Returned split: option.splits prod.splits if_splits)

lemma line_part_take: "NL \<notin> set m \<Longrightarrow> line_part [] 127 (take n (snprintf MAX_RPC_BUF_LEN (m @ [NL])))"
  unfolding line_part_def
  by (intro exI [of _ "min n 127"] exI [of _ m])
    (simp add: snprintf_def MAX_RPC_BUF_LEN_def min.commute del: take_append length_append)

lemma disconnect_line: "snprintf MAX_RPC_BUF_LEN (''Disconnect'' @ [NL]) = ''Disconnect'' @ [NL]"
  by (simp add: snprintf_def MAX_RPC_BUF_LEN_def)

lemma send_user_input_sent:
  assumes "send_user_input a c = Returned (k, c')"
  shows "\<exists>ms. sent c' = sent c @ ms \<and> list_all (line_part [] 127) ms"
proof -
  have one: "\<exists>ms. sent c' = sent c @ ms \<and> list_all (line_part [] 127) ms"
    if "send_all (snprintf MAX_RPC_BUF_LEN (m @ [NL])) wevs (c\<lparr>cl_stdin := i\<rparr>) = Returned c'" "NL \<notin> set m" for m wevs i
    using send_all_sent [OF that(1)] line_part_take [OF that(2)] by fastforce
  show ?thesis
  proof (cases a)
    case (Broken sigs)
    with assms show ?thesis
      by (auto simp: send_user_input_def proceed_eq_Returned dest!: deliver_all_quiet dest: sent_quiet)
  next
    case (Typed wevs sigs)
    show ?thesis
    proof (cases "c_fgets MAX_RPC_BUF_LEN (cl_stdin c)")
      case None
      with assms Typed show ?thesis by (simp add: send_user_input_def)
    next
      case (Some lr)
      then obtain chunk i where f: "c_fgets MAX_RPC_BUF_LEN (cl_stdin c) = Some (chunk, i)" by (cases lr) auto
      let ?m = "normal (c_str chunk)"
      obtain buf where buf: "checked (sanitise_whitespace (c_str chunk @ [NUL])) = Returned buf" "c_str buf = ?m"
        using checked_sanitise [of "c_str chunk"] by auto
      from assms Typed f buf consider "c' = c\<lparr>cl_stdin := i\<rparr>"
        | "send_all (''Disconnect'' @ [NL]) wevs (c\<lparr>cl_stdin := i\<rparr>) = Returned c'"
        | "send_all (snprintf MAX_RPC_BUF_LEN (?m @ [NL])) wevs (c\<lparr>cl_stdin := i\<rparr>) = Returned c'"
        by (auto simp: send_user_input_def proceed_eq_Returned Let_def split: if_splits)
      then show ?thesis
      proof cases
        case 2
        from one [of "''Disconnect''", unfolded disconnect_line, OF 2] show ?thesis by simp
      next
        case 3
        then show ?thesis by (rule one) (rule newline_not_in_normal)
      qed simp
    qed
  qed
qed

section \<open>The invariant of a run\<close>

definition protocol :: "client \<Rightarrow> bool" where
  "protocol c = (case sent c of [] \<Rightarrow> True | m # ms \<Rightarrow> line_part ''Login '' 128 m \<and> list_all (line_part [] 127) ms)"

definition run_inv :: "client_run \<Rightarrow> bool" where
  "run_inv r = (let c = rn_client r in protocol c \<and> (case rn_main r of
       Leaving \<Rightarrow> held c = {#}
     | Exited k \<Rightarrow> held c = {#} \<and> k = exit_status (cl_retval c) \<and> rn_recv r \<noteq> Receiving
     | _ \<Rightarrow> held c = {#cl_read c, cl_write c#} \<and> cl_retval c = SUCCESS \<and> sent c \<noteq> [] \<and> rn_recv r \<noteq> Unborn))"

lemma protocol_more:
  "protocol c \<Longrightarrow> sent c \<noteq> [] \<Longrightarrow> sent c' = sent c @ ms \<Longrightarrow> list_all (line_part [] 127) ms \<Longrightarrow> protocol c'"
  by (auto simp: protocol_def neq_Nil_conv)

lemma protocol_same: "protocol c \<Longrightarrow> sent c' = sent c \<Longrightarrow> protocol c'"
  by (simp add: protocol_def)

lemma run_inv_leave:
  assumes "protocol c" and "held c = {#cl_read c, cl_write c#}"
  shows "run_inv (leave True recv c)"
  using assms by (auto simp: run_inv_def leave_def protocol_def)

lemma disconnect_simps [simp]:
  "sent (disconnect c) = sent c" "held (disconnect c) = held c" "cl_retval (disconnect c) = cl_retval c"
  "cl_read (disconnect c) = cl_read c" "cl_write (disconnect c) = cl_write c" "protocol (disconnect c) = protocol c"
  by (simp_all add: disconnect_def protocol_def)

lemma run_inv_same:
  assumes "run_inv r" and "chat (rn_client r) c" and "sent c = sent (rn_client r)" and "recv = rn_recv r \<or> recv = Gone"
  shows "run_inv (r\<lparr>rn_client := c, rn_recv := recv\<rparr>)"
  using assms by (auto simp: run_inv_def chat_def protocol_def Let_def split: main_at.splits)

lemma run_inv_same_client:
  "run_inv r \<Longrightarrow> chat (rn_client r) c \<Longrightarrow> sent c = sent (rn_client r) \<Longrightarrow> run_inv (r\<lparr>rn_client := c\<rparr>)"
  using run_inv_same [of r c "rn_recv r"] by simp

lemma chat_disconnect [simp]: "chat c (disconnect d) = chat c d"
  by (simp add: disconnect_def)

lemma run_inv_step:
  assumes "run_inv r" and "client_step e r = Returned r'"
  shows "run_inv r'"
proof (cases e)
  case (Signals ss)
  with assms(2) obtain c where c: "deliver_all ss (rn_client r) = Returned c" "r' = r\<lparr>rn_client := c\<rparr>"
    by (auto simp: client_step_def proceed_eq_Returned)
  with run_inv_same_client [OF assms(1) chat_deliver [OF c(1)]] sent_quiet [OF deliver_all_quiet [OF c(1)]] show ?thesis by simp
next
  case MainTest
  with assms show ?thesis
    by (auto simp: client_step_def loop_test_def run_inv_def Let_def intro!: run_inv_leave [unfolded run_inv_def Let_def] split: if_splits)
next
  case (MainInput a)
  show ?thesis
  proof (cases "rn_main r = Reading")
    case True
    with assms MainInput obtain k c where s: "send_user_input a (rn_client r) = Returned (k, c)"
      and r': "r' = (if k = - 1 \<or> k = 0 then leave True (rn_recv r) (disconnect c) else r\<lparr>rn_client := c, rn_main := Testing\<rparr>)"
      by (auto simp: client_step_def loop_body_def proceed_eq_Returned split: if_splits)
    from chat_send_user_input [OF s] have ch: "chat (rn_client r) c" .
    from send_user_input_sent [OF s] assms(1) True
    have p: "protocol c" "sent c \<noteq> []" by (auto simp: run_inv_def Let_def intro: protocol_more)
    from assms(1) True ch have h: "held c = {#cl_read c, cl_write c#}" "cl_retval c = SUCCESS" "rn_recv r \<noteq> Unborn"
      by (auto simp: run_inv_def Let_def chat_def)
    show ?thesis using r' p h run_inv_leave [of "disconnect c" "rn_recv r"] by (auto simp: run_inv_def Let_def)
  qed (use assms MainInput in \<open>auto simp: client_step_def\<close>)
next
  case Receive
  show ?thesis
  proof (cases "rn_recv r = Receiving")
    case True
    with assms Receive obtain alive c where s: "recv_server_reply (rn_client r) = Returned (alive, c)"
      and r': "r' = (if \<not> alive then r\<lparr>rn_client := disconnect c, rn_recv := Gone\<rparr> else r\<lparr>rn_client := c\<rparr>)"
      by (auto simp: client_step_def receiver_turn_def proceed_eq_Returned split: if_splits)
    from chat_recv [OF s] r' run_inv_same [OF assms(1), of "disconnect c" Gone] run_inv_same_client [OF assms(1), of c]
    show ?thesis by (auto simp: disconnect_def split: if_splits)
  qed (use assms Receive in \<open>auto simp: client_step_def\<close>)
next
  case Join
  with assms show ?thesis by (auto simp: client_step_def run_inv_def Let_def protocol_def split: if_splits)
qed

text \<open>The two threads are a transition system with this invariant; a run that blocks or is killed has no next state.\<close>

definition client_next :: "client_event \<Rightarrow> client_run \<Rightarrow> client_run option" where
  "client_next e r = (case client_step e r of Returned r' \<Rightarrow> Some r' | _ \<Rightarrow> None)"

lemma client_next_Some [simp]: "client_next e r = Some r' \<longleftrightarrow> client_step e r = Returned r'"
  by (auto simp: client_next_def split: outcome.split)

interpretation cl_threads: transitions "\<lambda>e r. True" client_next run_inv
  by unfold_locales (auto intro: run_inv_step)

lemma client_steps_run: "client_steps es r = Returned r' \<Longrightarrow> run_of client_next es r = Some r'"
  by (induction es arbitrary: r) (auto simp: proceed_eq_Returned client_next_def)

lemma all_guarded: "guarded (\<lambda>e r. True) step es s"
  by (induction es arbitrary: s) (auto split: option.split)

lemma run_inv_steps: "client_steps es r = Returned r' \<Longrightarrow> run_inv r \<Longrightarrow> run_inv r'"
  by (rule cl_threads.run_keeps [OF _ all_guarded client_steps_run])

lemma sent_keep [simp]:
  "sent (c\<lparr>cl_read := x\<rparr>) = sent c" "sent (c\<lparr>cl_write := x\<rparr>) = sent c" "sent (c\<lparr>cl_retval := e\<rparr>) = sent c"
  "sent (c\<lparr>cl_handlers := hs\<rparr>) = sent c" "sent (c\<lparr>cl_server := x\<rparr>) = sent c" "held (c\<lparr>cl_server := x\<rparr>) = held c"
  by (simp_all add: sent_def held_def)

lemma reset_silent [simp]: "sent (reset_alarm_handler b c) = sent c" "cl_logged_in (reset_alarm_handler b c) = cl_logged_in c"
  by (simp_all add: reset_alarm_handler_def)

lemma signals_silent:
  "deliver_all ss c = Returned c' \<Longrightarrow> sent c' = sent c \<and> cl_logged_in c' = cl_logged_in c"
  "await ws c = Returned c' \<Longrightarrow> sent c' = sent c \<and> cl_logged_in c' = cl_logged_in c"
  by (auto dest!: deliver_all_quiet await_quiet simp: sent_quiet quiet_fields)

lemma open_fifos_silent:
  "open_fifos env c = Returned (r, c') \<Longrightarrow> sent c' = sent c \<and> cl_logged_in c' = cl_logged_in c"
  by (cases "snd (cn_read env)"; cases "snd (cn_write env)")
    (auto simp: open_fifos_def hsk_fail_def complain_def Let_def proceed_eq_Returned dest!: signals_silent)

lemma handshake_silent:
  "perform_handshake env c = Returned (r, c') \<Longrightarrow> sent c' = sent c \<and> cl_logged_in c' = cl_logged_in c"
  by (auto simp: perform_handshake_def complain_def Let_def proceed_eq_Returned split: if_splits
      dest!: signals_silent open_fifos_silent)

lemma set_serverpid_inv:
  "set_serverpid args c = (e, c') \<Longrightarrow> sent c' = sent c \<and> held c' = held c \<and> cl_logged_in c' = cl_logged_in c
     \<and> cl_retval c' = (if e = SUCCESS then cl_retval c else e)"
  by (auto simp: set_serverpid_def complain_def Let_def split: list.splits if_splits)

lemma setup_signals_inv:
  "client_setup_signals accepted c = (e, c') \<Longrightarrow> sent c' = sent c \<and> held c' = held c \<and> cl_logged_in c' = cl_logged_in c
     \<and> cl_retval c' = (if e = SUCCESS then cl_retval c else e)"
  by (auto simp: client_setup_signals_def complain_def Let_def split: prod.splits if_splits)

lemma run_inv_main:
  assumes "client_main env args c = Returned r" and "sent c = []" and "held c = {#}" and "\<not> cl_logged_in c" and "cl_retval c = SUCCESS"
  shows "run_inv r"
proof -
  obtain e0 c0 where 0: "set_serverpid args c = (e0, c0)" by fastforce
  obtain e1 c1 where 1: "client_setup_signals (ce_signals env) c0 = (e1, c1)" by fastforce
  note i0 = set_serverpid_inv [OF 0] and i1 = setup_signals_inv [OF 1]
  have none: "run_inv (leave False Unborn d)" if "sent d = []" "held d = {#}" for d
    using that by (simp add: run_inv_def leave_def protocol_def)
  show ?thesis
  proof (cases "e0 = SUCCESS \<and> e1 = SUCCESS")
    case False
    with assms 0 1 i0 i1 none [of c0] none [of c1] show ?thesis by (auto simp: client_main_def Let_def split: if_splits)
  next
    case True
    then obtain e2 c2 where 2: "perform_handshake (ce_hsk env) c1 = Returned (e2, c2)"
      and rest: "(if e2 \<noteq> SUCCESS then Returned (leave False Unborn c2)
         else proceed (authorise (ce_answers env) c2) (\<lambda>c3.
           if \<not> cl_logged_in c3 then Returned (leave True Unborn c3)
           else if \<not> ce_spawn env then Returned (leave True Unborn c3)
           else Returned \<lparr>rn_client = c3, rn_main = Testing, rn_recv = Receiving\<rparr>)) = Returned r"
      using assms(1) 0 1 by (auto simp: client_main_def Let_def proceed_eq_Returned)
    note h = handshake_held [OF 2] and s2 = handshake_silent [OF 2]
    have s: "sent c2 = []" "\<not> cl_logged_in c2" using s2 i0 i1 assms True by simp_all
    show ?thesis
    proof (cases "e2 = SUCCESS")
      case False
      with h rest s i0 i1 assms none [of c2] show ?thesis by (auto split: if_splits)
    next
      case True
      with rest obtain c3 where 3: "authorise (ce_answers env) c2 = Returned c3"
        and r: "r = (if \<not> cl_logged_in c3 \<or> \<not> ce_spawn env then leave True Unborn c3
                     else \<lparr>rn_client = c3, rn_main = Testing, rn_recv = Receiving\<rparr>)"
        by (auto simp: proceed_eq_Returned split: if_splits)
      have h3: "held c3 = {#cl_read c3, cl_write c3#}" "cl_retval c3 = SUCCESS"
        using chat_authorise [OF 3] h True i0 i1 assms \<open>e0 = SUCCESS \<and> e1 = SUCCESS\<close> by (auto simp: chat_def)
      have "sent c3 = [] \<and> \<not> cl_logged_in c3 \<or> (\<exists>m. sent c3 = [m] \<and> line_part ''Login '' 128 m)"
        using authorise_sent [OF 3 s(2)] s(1) by simp
      then have "protocol c3" "cl_logged_in c3 \<Longrightarrow> sent c3 \<noteq> []" by (auto simp: protocol_def)
      with r h3 run_inv_leave [of c3 Unborn] show ?thesis by (auto simp: run_inv_def)
    qed
  qed
qed

lemma fresh_simps [simp]: "sent (fresh_client i f) = []" "held (fresh_client i f) = {#}" "\<not> cl_logged_in (fresh_client i f)"
  "cl_retval (fresh_client i f) = SUCCESS"
  by (simp_all add: fresh_client_def sent_def held_def)

lemma run_inv_process: "client_process env args i f es = Returned r \<Longrightarrow> run_inv r"
  by (auto simp: client_process_def proceed_eq_Returned dest: run_inv_main run_inv_steps)

section \<open>The end of a run\<close>

text \<open>The kernel takes a whole line at once.\<close>

definition taken :: answer where
  "taken = Typed [Accept 128] []"

lemma send_all_taken: "buf \<noteq> [] \<Longrightarrow> length buf \<le> 128 \<Longrightarrow> send_all buf [Accept 128] c = Returned (act [Sent buf] c)"
  by (rule send_all_ok [of _ _ "length buf" "[]"])
    (simp add: write_block_pipe_def write_block_loop.simps [of 0] write_block_loop.simps [of "length buf"] min_def)

lemma send_user_input_taken:
  "\<exists>k c'. send_user_input taken c = Returned (k, c') \<and> cl_from c' = cl_from c
     \<and> (k = - 1 \<or> k = 0 \<or> k = 1 \<and> length (cl_stdin c') < length (cl_stdin c))"
proof (cases "c_fgets MAX_RPC_BUF_LEN (cl_stdin c)")
  case None
  then show ?thesis by (simp add: send_user_input_def taken_def)
next
  case (Some lr)
  then obtain chunk i where f: "c_fgets MAX_RPC_BUF_LEN (cl_stdin c) = Some (chunk, i)" by (cases lr) auto
  then have less: "length i < length (cl_stdin c)" using c_fgets_Some [OF f] by (simp add: MAX_RPC_BUF_LEN_def)
  obtain buf where "checked (sanitise_whitespace (c_str chunk @ [NUL])) = Returned buf"
    using checked_sanitise [of "c_str chunk"] by auto
  moreover have "snprintf MAX_RPC_BUF_LEN (s @ [NL]) \<noteq> []" for s by (simp add: snprintf_def MAX_RPC_BUF_LEN_def)
  moreover have "length (snprintf MAX_RPC_BUF_LEN (s @ [NL])) \<le> 128" for s by (simp add: snprintf_def MAX_RPC_BUF_LEN_def)
  ultimately show ?thesis
    using f less send_all_taken [of "''Disconnect'' @ [NL]"]
    by (auto simp: send_user_input_def taken_def Let_def send_all_taken)
qed

definition rounds :: "nat \<Rightarrow> client_event list" where
  "rounds n = concat (replicate n [MainTest, MainInput taken])"

lemma client_steps_append: "client_steps (es @ fs) r = proceed (client_steps es r) (client_steps fs)"
proof (induction es arbitrary: r)
  case (Cons e es)
  then show ?case by (cases "client_step e r") auto
qed simp

lemma rounds_done: "rn_main r = Leaving \<Longrightarrow> client_steps (rounds n) r = Returned r"
  by (induction n) (simp_all add: rounds_def client_step_def)

lemma one_round:
  assumes "rn_main r = Testing"
  shows "\<exists>r'. client_steps [MainTest, MainInput taken] r = Returned r' \<and> rn_recv r' = rn_recv r
     \<and> cl_from (rn_client r') = cl_from (rn_client r)
     \<and> (rn_main r' = Leaving \<or> rn_main r' = Testing \<and> length (cl_stdin (rn_client r')) < length (cl_stdin (rn_client r)))"
proof -
  obtain k c where "send_user_input taken (rn_client r) = Returned (k, c)" "cl_from c = cl_from (rn_client r)"
    "k = - 1 \<or> k = 0 \<or> k = 1 \<and> length (cl_stdin c) < length (cl_stdin (rn_client r))"
    using send_user_input_taken by blast
  then show ?thesis
    using assms by (auto simp: client_step_def loop_test_def loop_body_def leave_def disconnect_def)
qed

lemma rounds_leave:
  "rn_main r = Testing \<Longrightarrow> length (cl_stdin (rn_client r)) < n \<Longrightarrow>
   \<exists>r'. client_steps (rounds n) r = Returned r' \<and> rn_main r' = Leaving \<and> rn_recv r' = rn_recv r
     \<and> cl_from (rn_client r') = cl_from (rn_client r)"
proof (induction n arbitrary: r)
  case (Suc n)
  from one_round [OF Suc.prems(1)] obtain r1 where r1: "client_steps [MainTest, MainInput taken] r = Returned r1"
    "rn_recv r1 = rn_recv r" "cl_from (rn_client r1) = cl_from (rn_client r)"
    "rn_main r1 = Leaving \<or> rn_main r1 = Testing \<and> length (cl_stdin (rn_client r1)) < length (cl_stdin (rn_client r))"
    by blast
  have step: "client_steps (rounds (Suc n)) r = client_steps (rounds n) r1"
    using client_steps_append [of "[MainTest, MainInput taken]" "rounds n" r] r1(1) by (simp add: rounds_def)
  from r1(4) show ?case
  proof
    assume "rn_main r1 = Leaving"
    with step r1 rounds_done show ?thesis by auto
  next
    assume "rn_main r1 = Testing \<and> length (cl_stdin (rn_client r1)) < length (cl_stdin (rn_client r))"
    with Suc.IH [of r1] Suc.prems(2) step r1(2,3) show ?thesis by auto
  qed
qed simp

lemma receiver_eof:
  assumes "rn_recv r = Receiving" and "cl_from (rn_client r) = Eof # rest"
  shows "client_step Receive r = Returned (r\<lparr>rn_client := disconnect ((rn_client r)\<lparr>cl_from := rest\<rparr>), rn_recv := Gone\<rparr>)"
proof -
  have "read_until_delim MAX_RPC_BUF_LEN NL (Eof # rest) = Some (PIPE_CLOSED, [], rest)"
    by (simp add: read_until_delim_def read_delim_loop.simps MAX_RPC_BUF_LEN_def)
  with assms show ?thesis by (simp add: client_step_def receiver_turn_def recv_server_reply_def)
qed

lemma send_all_refused: "buf \<noteq> [] \<Longrightarrow> cl_handlers c SIGPIPE = None \<Longrightarrow> send_all buf (WrErr EPIPE # wevs) c = Killed SIGPIPE"
  by (simp add: send_all_def write_block_pipe_def write_block_loop.simps)

section \<open>Properties\<close>


text \<open>A whole session: the handshake, a login, the end of the input, the end of the server's pipe.\<close>

definition sample_env :: client_env where
  "sample_env = \<lparr>ce_signals = (\<lambda>s. True), ce_hsk = answered (Some 4), ce_answers = [Typed [Accept 99] []], ce_spawn = True\<rparr>"

lemma sample_process:
  "\<exists>r. client_process sample_env [''7''] (''Login ann'' @ [NL]) [Data (''5'' @ [NL]), Eof]
        [MainTest, MainInput taken, Receive, Join] = Returned r \<and> rn_main r = Exited 0 \<and> sent (rn_client r) = [''Login ann'' @ [NL]]"
proof -
  have a: "atoi ''7'' = 7" by code_simp
  have f: "c_fgets 128 (''Login ann'' @ [NL]) = Some (''Login ann'' @ [NL], [])" by code_simp
  have s: "sanitise_whitespace (strip_newline (c_str (''Login ann'' @ [NL])) @ [NUL]) = Inr (''Login ann'' @ [NUL])" by code_simp
  have c: "c_str (''Login ann'' @ [NUL]) = ''Login ann''" by code_simp
  show ?thesis
    using a f s c
    by (simp add: client_process_def client_main_def set_serverpid_def client_setup_signals_def fresh_client_def sample_env_def
        perform_handshake_def answered_def open_fifos_def reset_alarm_handler_def strncmp_eq_def snprintf_def send_all_def
        write_block_pipe_def write_block_loop.simps login_reply_def read_until_delim_def read_delim_loop.simps c_str_def
        client_step_def loop_test_def loop_body_def receiver_turn_def send_user_input_def recv_server_reply_def taken_def
        c_fgets_def [of _ "[]"] leave_def disconnect_def exit_status_def MAX_RPC_BUF_LEN_def sent_def act_def)
qed

text \<open>C16: the protocol of a client. In every run, the first thing it sends to the server is (the beginning of) one line that starts with "Login " and has
  at most 128 characters; everything it sends later is (the beginning of) one line each, of at most 127 characters.\<close>

theorem client_protocol:
  assumes "client_process env args stdin from es = Returned r"
  shows "case sent (rn_client r) of [] \<Rightarrow> True | m # ms \<Rightarrow> line_part ''Login '' 128 m \<and> list_all (line_part [] 127) ms"
  using run_inv_process [OF assms] by (simp add: run_inv_def protocol_def Let_def)

theorem client_protocol_witness:
  "\<exists>r. client_process sample_env [''7''] (''Login ann'' @ [NL]) [Data (''5'' @ [NL]), Eof]
        [MainTest, MainInput taken, Receive, Join] = Returned r
     \<and> sent (rn_client r) = [''Login ann'' @ [NL]] \<and> line_part ''Login '' 128 (''Login ann'' @ [NL])"
proof -
  obtain r where r: "client_process sample_env [''7''] (''Login ann'' @ [NL]) [Data (''5'' @ [NL]), Eof]
        [MainTest, MainInput taken, Receive, Join] = Returned r" "sent (rn_client r) = [''Login ann'' @ [NL]]"
    using sample_process by blast
  from client_protocol [OF r(1)] r show ?thesis by auto
qed

text \<open>C17: descriptors and exit status. While the main thread is in its loop the client holds exactly the two ends of the handshake; once it is past
  the label \<open>teardown\<close>, on every path, it holds none. It ends only when the receiver has, and its status is that of the code stored by the
  failed step of the start, so it is 0 whenever the loop was reached: also after a write error or when the server has gone.\<close>

theorem client_closes_its_pipes:
  assumes "client_process env args stdin from es = Returned r"
  shows "case rn_main r of
      Leaving \<Rightarrow> held (rn_client r) = {#}
    | Exited k \<Rightarrow> held (rn_client r) = {#} \<and> k = exit_status (cl_retval (rn_client r)) \<and> rn_recv r \<noteq> Receiving
    | _ \<Rightarrow> held (rn_client r) = {#cl_read (rn_client r), cl_write (rn_client r)#} \<and> cl_retval (rn_client r) = SUCCESS"
  using run_inv_process [OF assms] by (simp add: run_inv_def Let_def split: main_at.splits)

theorem client_closes_its_pipes_witness:
  "\<exists>r. client_process sample_env [''7''] (''Login ann'' @ [NL]) [Data (''5'' @ [NL]), Eof]
        [MainTest, MainInput taken, Receive, Join] = Returned r
     \<and> rn_main r = Exited 0 \<and> held (rn_client r) = {#} \<and> rn_recv r \<noteq> Receiving"
proof -
  obtain r where r: "client_process sample_env [''7''] (''Login ann'' @ [NL]) [Data (''5'' @ [NL]), Eof]
        [MainTest, MainInput taken, Receive, Join] = Returned r" "rn_main r = Exited 0"
    using sample_process by blast
  from client_closes_its_pipes [OF r(1)] r show ?thesis by auto
qed


text \<open>A client in its loop, with a line left to read.\<close>

definition in_loop :: "main_at \<Rightarrow> client_run" where
  "in_loop at = \<lparr>rn_client = (ready_client 7 (''generate 0'' @ [NL]) [Eof])\<lparr>cl_stage := CONNECTED, cl_logged_in := True\<rparr>,
     rn_main = at, rn_recv = Receiving\<rparr>"


text \<open>C39: the line typed after the server has gone kills the client. The receiver sees the end of the pipe and clears the flags, but the main thread
  is already inside \<open>fgets\<close>: the next line that is not blank is written to a pipe that nobody reads, and \<open>SIGPIPE\<close>, which the
  client does not handle, ends the process before the teardown.\<close>

theorem line_after_server_gone:
  assumes "rn_main r = Reading" and "rn_recv r = Receiving" and "cl_from (rn_client r) = Eof # rest"
    and "cl_handlers (rn_client r) SIGPIPE = None"
    and "c_fgets MAX_RPC_BUF_LEN (cl_stdin (rn_client r)) = Some (chunk, stdin)" and "normal (c_str chunk) \<noteq> []"
  shows "client_steps [Receive, MainInput (Typed (WrErr EPIPE # wevs) sigs)] r = Killed SIGPIPE"
proof -
  obtain buf where buf: "checked (sanitise_whitespace (c_str chunk @ [NUL])) = Returned buf" "c_str buf = normal (c_str chunk)"
    using checked_sanitise [of "c_str chunk"] by auto
  have ne: "snprintf MAX_RPC_BUF_LEN (s @ [NL]) \<noteq> []" for s by (simp add: snprintf_def MAX_RPC_BUF_LEN_def)
  show ?thesis
    using assms buf receiver_eof [OF assms(2,3)] ne
    by (simp add: client_step_def [of "MainInput x" for x] loop_body_def send_user_input_def disconnect_def send_all_refused Let_def)
qed

theorem line_after_server_gone_witness:
  "client_steps [Receive, MainInput (Typed [WrErr EPIPE] [])] (in_loop Reading) = Killed SIGPIPE"
proof (rule line_after_server_gone)
  show "c_fgets MAX_RPC_BUF_LEN (cl_stdin (rn_client (in_loop Reading))) = Some (''generate 0'' @ [NL], [])"
    unfolding in_loop_def by (simp add: c_fgets_def MAX_RPC_BUF_LEN_def)
  show "normal (c_str (''generate 0'' @ [NL])) \<noteq> []" by code_simp
qed (simp_all add: in_loop_def)

end
