(* ===== verification/EndToEnd.thy ===== *)
theory EndToEnd
  imports ClientRun Turns Races
begin

text \<open>
  The client and the server together: what one side writes is what the other one acts upon.
\<close>

section \<open>Requests\<close>

lemma parse_command_args:
  assumes "command_task c cmd = Some (type, args)"
  shows "length args \<le> length cmd"
proof -
  have "parse_command cmd = Login args \<or> parse_command cmd = Rpc type args"
    using assms by (auto simp: command_task_def split: command.splits if_splits)
  then show ?thesis by (auto simp: parse_command_def split: if_splits option.splits)
qed

text \<open>C6: from the keyboard to the queue. A line typed by a user, sent by the client and read by the server, however the kernel cuts the bytes, queues exactly
  one task for that client, of the type its first word names and with all its arguments, behind the tasks already queued; the
  server's loop goes on with what was sent later.\<close>

theorem typed_request_is_queued:
  assumes typed: "c_fgets MAX_RPC_BUF_LEN (cl_stdin u) = Some (chunk, stdin)"
      "normal (c_str chunk) \<noteq> []" "normal (c_str chunk) \<noteq> ''Disconnect''"
    and sent: "write_block_pipe (snprintf MAX_RPC_BUF_LEN (normal (c_str chunk) @ [NL])) wevs = Some (SUCCESS, n, wes)"
    and wire: "avail revs = snprintf MAX_RPC_BUF_LEN (normal (c_str chunk) @ [NL]) @ later"
    and client: "cr_mem R a = Some c" "\<not> dead c" "command_task c (normal (c_str chunk)) = Some (type, args)"
    and queue: "tq_inv q" "malloc (tq_mem q) = Some b" "malloc_ok (tq_mem q) b"
  shows "\<exists>u' es q'. send_user_input (Typed wevs sigs) u = Returned (1, u')
    \<and> request_loop malloc (Some a) (Suc k) revs (R, q, rv) = request_loop malloc (Some a) k es (acquired a c R, q', rv)
    \<and> avail es = later \<and> tq_list q' = tq_list q @ [(type, ClientPtr (Some a), Request args)]"
proof -
  let ?m = "normal (c_str chunk)"
  have len: "length ?m \<le> 127" by (rule chunk_bound [OF typed(1)])
  obtain es where es: "read_until_delim MAX_RPC_BUF_LEN NL revs = Some (SUCCESS, ?m, es)" "avail es = later"
    using request_read [OF wire newline_not_in_normal len] by blast
  obtain q' where q': "handle_command malloc a ?m (R, q, rv) = Inr (False, acquired a c R, q', rv)"
    "tq_list q' = tq_list q @ [(type, ClientPtr (Some a), Request (take 127 args))]"
    using command_queued [where malloc = malloc, OF client(1,2) queue, of ?m rv] client(3) by auto
  have "take 127 args = args" using parse_command_args [OF client(3)] len by simp
  then show ?thesis
    using send_user_input_rpc [OF typed sent] es q' c_str_no_nul [of ?m] by auto
qed

text \<open>The client with the address 1 and the pid 100, in a server with two clients and an empty queue.\<close>

definition user_100 :: ActiveClient where
  "user_100 = (new_client 100 10 11 None)\<lparr>c_prev := Some 2\<rparr>"

lemma user_100_simps: "cr_mem two_clients 1 = Some user_100" "\<not> dead user_100" "refcount user_100 = 1" "s2c_fd user_100 = 11"
  by (simp_all add: user_100_def two_clients_def new_client_def)

theorem typed_request_is_queued_witness:
  "\<exists>u' es q'. send_user_input (Typed [Accept 99] []) (ready_client 7 ('' place_sprite  0 1'' @ [NL]) []) = Returned (1, u')
    \<and> request_loop (\<lambda>m. Some 16) (Some 1) 5 [Data ''place'', RdErr EINTR, Data (''_sprite 0 1'' @ [NL])] (two_clients, task_init, SUCCESS)
      = request_loop (\<lambda>m. Some 16) (Some 1) 4 es (acquired 1 user_100 two_clients, q', SUCCESS)
    \<and> avail es = [] \<and> tq_list q' = [(PLACE_SPRITE, ClientPtr (Some 1), Request ''0 1'')]"
proof -
  let ?line = "'' place_sprite  0 1'' @ [NL]"
  let ?m = "''place_sprite 0 1''"
  have g: "c_fgets MAX_RPC_BUF_LEN (cl_stdin (ready_client 7 ?line [])) = Some (?line, [])"
    by (simp add: c_fgets_def MAX_RPC_BUF_LEN_def)
  have n: "normal (c_str ?line) = ?m" by code_simp
  have p: "snprintf MAX_RPC_BUF_LEN (?m @ [NL]) = ?m @ [NL]" by code_simp
  have w: "write_block_pipe (snprintf MAX_RPC_BUF_LEN (normal (c_str ?line) @ [NL])) [Accept 99] = Some (SUCCESS, 17, [])"
    unfolding n p by (simp add: write_block_pipe_def write_block_loop.simps)
  have "parse_command ?m = Rpc PLACE_SPRITE ''0 1''" by (simp add: parse_command_def rpc_table_def)
  then have t: "command_task user_100 (normal (c_str ?line)) = Some (PLACE_SPRITE, ''0 1'')"
    unfolding n by (simp add: command_task_def)
  have q: "malloc_ok (tq_mem task_init) 16" by (simp add: malloc_ok_def valid_addr_def task_init_def)
  have r: "avail [Data ''place'', RdErr EINTR, Data (''_sprite 0 1'' @ [NL])] = snprintf MAX_RPC_BUF_LEN (normal (c_str ?line) @ [NL]) @ []"
    unfolding n p by simp
  have five: "(5 :: nat) = Suc 4" by simp
  have l: "tq_list task_init = []" using tq_inv_init by simp
  show ?thesis unfolding five
    using typed_request_is_queued [OF g _ _ w r user_100_simps(1,2) t tq_inv_init(1), of "\<lambda>m. Some 16" 16 "[]" 4 SUCCESS] q n l by simp
qed

section \<open>Replies\<close>

lemma release_connected:
  assumes "cr_mem (sv_reg s) a = Some c" and "\<not> dead c" and "refcount c \<noteq> 0"
  shows "release_client a s = Inr (s\<lparr>sv_reg := (sv_reg s)\<lparr>cr_mem := (cr_mem (sv_reg s))(a \<mapsto> c\<lparr>refcount := refcount c - 1\<rparr>)\<rparr>\<rparr>)"
  using assms by (simp add: release_client_def creg_release_client_def emit_def Let_def)

text \<open>C7: from the worker to the screen. For a connected client the main thread answers the result of a call with one write to that client's pipe, gives
  back the reference of the task, and the client shows the meaning of exactly the numbers the worker has returned.\<close>

theorem reply_is_shown:
  assumes "cr_mem (sv_reg s) a = Some c" and "\<not> dead c" and "refcount c \<noteq> 0"
    and "is_int x" "is_int y" "is_int z"
    and "avail (cl_from u) = msg @ later" and "msg = reply_text x y z"
  shows "\<exists>s' es. dispatch_result env (ResRpc a x y z) s = Inr s' \<and> sv_out s' = sv_out s @ [WriteTo (s2c_fd c) msg]
    \<and> cr_mem (sv_reg s') a = Some (c\<lparr>refcount := refcount c - 1\<rparr>)
    \<and> recv_server_reply u = Returned (True, act (map Printed (display (reply_fields x y z))) (u\<lparr>cl_from := es\<rparr>))
    \<and> avail es = later"
  using release_connected [OF assms(1-3)] recv_reply [OF assms(4-6), of u later] assms(7,8)
  by (auto simp: dispatch_result_def on_rpc_done_def client_field_def emit_def)

text \<open>The server of this client.\<close>

definition two_users :: "lib_call list server" where
  "two_users = (initial_server [] no_slots True SUCCESS)\<lparr>sv_reg := two_clients\<rparr>"

lemma two_users_simps: "cr_mem (sv_reg two_users) 1 = Some user_100" "sv_out two_users = []" "refcount user_100 \<noteq> 0"
  using user_100_simps by (simp_all add: two_users_def initial_server_def)

theorem reply_is_shown_witness:
  "\<exists>s' es. dispatch_result log_main (ResRpc 1 0 5 INT_MIN) two_users = Inr s' \<and> sv_out s' = [WriteTo 11 (''0 5'' @ [NL])]
    \<and> cr_mem (sv_reg s') 1 = Some (user_100\<lparr>refcount := 0\<rparr>)
    \<and> recv_server_reply (ready_client 7 [] [Data ''0 '', Data (''5'' @ [NL])])
        = Returned (True, act [Printed (''Success 5'' @ [NL])] (ready_client 7 [] [Data ''0 '', Data (''5'' @ [NL])]\<lparr>cl_from := es\<rparr>))
    \<and> avail es = []"
proof -
  have r: "reply_text 0 5 INT_MIN = ''0 5'' @ [NL]" by code_simp
  have d: "display (reply_fields 0 5 INT_MIN) = [''Success 5'' @ [NL]]" by code_simp
  have i: "is_int 0" "is_int 5" "is_int INT_MIN" by (simp_all add: is_int_def int_limits)
  show ?thesis
    using reply_is_shown [OF two_users_simps(1) user_100_simps(2) two_users_simps(3) i,
        of "ready_client 7 [] [Data ''0 '', Data (''5'' @ [NL])]" "reply_text 0 5 INT_MIN" "[]" log_main] r d
    by (simp add: two_users_simps user_100_simps)
qed

text \<open>C22: both sides agree on a login. When the main thread handles the acceptance of a connected client, it marks the client as logged in under the first 31
  characters of the name and sends the balance; the client that reads this is logged in, and is told that balance.\<close>

theorem login_agreement:
  assumes "cr_mem (sv_reg s) a = Some c" and "\<not> dead c" and "refcount c \<noteq> 0"
    and "LONG_MIN \<le> balance" and "balance \<le> LONG_MAX"
    and "avail (cl_from u) = msg @ later" and "msg = snprintf 64 (show_int balance @ [NL])"
  shows "\<exists>s' c' es. dispatch_result env (ResAuthOk a name balance) s = Inr s'
    \<and> sv_out s' = sv_out s @ [WriteTo (s2c_fd c) msg]
    \<and> cr_mem (sv_reg s') a = Some c' \<and> logged_in c' \<and> username c' = Some (take 31 name)
    \<and> login_reply (''Login '' @ name) u = Returned (act [Printed (''Welcome '' @ name @ ''. Your balance is '' @ show_int balance @ [NL])]
        (u\<lparr>cl_from := es, cl_logged_in := True\<rparr>)) \<and> avail es = later"
  using release_connected [OF assms(1-3)] login_reply_balance [OF assms(4,5), of u later "''Login '' @ name"] assms(1,6,7)
  by (auto simp: dispatch_result_def on_auth_ok_def client_field_def set_client_def upd_client_def emit_def strncpy0_def MAX_USERNAME_LEN_def)

theorem login_agreement_witness:
  "\<exists>s' c' es. dispatch_result log_main (ResAuthOk 1 ''ann'' (- 12)) two_users = Inr s' \<and> sv_out s' = [WriteTo 11 (''-12'' @ [NL])]
    \<and> cr_mem (sv_reg s') 1 = Some c' \<and> logged_in c' \<and> username c' = Some ''ann''
    \<and> login_reply (''Login '' @ ''ann'') (ready_client 7 [] [Data (''-12'' @ [NL])])
        = Returned (act [Printed (''Welcome ann. Your balance is -12'' @ [NL])]
            (ready_client 7 [] [Data (''-12'' @ [NL])]\<lparr>cl_from := es, cl_logged_in := True\<rparr>)) \<and> avail es = []"
proof -
  have s: "show_int (- 12) = ''-12''" by code_simp
  have b: "LONG_MIN \<le> - 12" "- 12 \<le> LONG_MAX" by (simp_all add: int_limits)
  show ?thesis
    using login_agreement [OF two_users_simps(1) user_100_simps(2) two_users_simps(3) b,
        of "ready_client 7 [] [Data (''-12'' @ [NL])]" "''-12'' @ [NL]" "[]" log_main "''ann''"]
    by (simp add: two_users_simps user_100_simps s snprintf_def)
qed

end
