(* ===== verification/Spec2Isabelle.thy ===== *)
theory Spec2Isabelle
  imports Errors Fifo Pipe Animate ObjectTable Task Registry PollSlots Auth Commands Handlers
    Server Startup Invariant System Session Races Turns Client ClientRun EndToEnd
begin

text \<open>
  A verification library for \<^verbatim>\<open>animate_server\<close>, a server that renders animations for clients on the same machine, and for
  its client.

  The program. A client sends \<open>SIGUSR1\<close> to the server; the signal handler writes its pid to a self pipe; the main thread queues a
  handshake task; a worker makes two FIFOs for the client, signals it, opens them and writes the result to a second self pipe; the main
  thread then puts the client into the registry and into the array it polls. From then on each line the client writes becomes a
  task that a worker executes on the shared tables of objects, and each result comes back through the second self pipe and
  is written to the client by the main thread. Clients are reference counted, since tasks and results point to them.

  Theories and sources (under \<^verbatim>\<open>src/\<close>):

  \<^item> \<open>Prelude\<close>, \<open>CLib\<close>: faults as values, arrays, memory blocks, machine integers of LP64, and the functions of the C library
    the program calls on strings.
  \<^item> \<open>Errors\<close>: \<^verbatim>\<open>misc/errors\<close>. \<open>Fifo\<close>, \<open>Pipe\<close>: \<^verbatim>\<open>misc/fifo.c\<close>, the names of the FIFOs, \<open>sanitise_whitespace\<close>, the loops around
    \<open>read\<close> and \<open>write\<close>. The kernel's side of a descriptor is a list of answers.
  \<^item> \<open>Animate\<close>: the rendering library is not in the repository; it is the record of functions \<open>'l animate\<close>, an argument of everything
    that calls it, and nothing is assumed of it but that a call returns.
  \<^item> \<open>ObjectTable\<close>: \<^verbatim>\<open>server/object_table.c\<close>, the three tables through the locale \<open>id_table\<close>. \<open>Task\<close>: \<^verbatim>\<open>server/task.c\<close>, the linked queue, refined to a list through the locale \<open>fifo\<close>.
    \<open>Registry\<close>: \<^verbatim>\<open>server/client_registry.c\<close>, the doubly linked list and the reference counts (locale \<open>ref_counted\<close>). \<open>PollSlots\<close>: the pipes and slots of
    \<^verbatim>\<open>server/s_helper.c\<close>. \<open>Auth\<close>: \<^verbatim>\<open>server/auth.c\<close>. \<open>Commands\<close>: \<^verbatim>\<open>server/commands.c\<close>.
  \<^item> \<open>Handlers\<close>: \<^verbatim>\<open>server/threadpool.c\<close>, each case of \<open>worker_routine\<close> as one definition.
  \<^item> \<open>Server\<close>: the loop of \<open>main\<close> in \<^verbatim>\<open>server/animate_server.c\<close>. \<open>Startup\<close>: what comes before and after it, the threads and the signals.
  \<^item> \<open>Invariant\<close>, \<open>System\<close>: the threads together. An event is what one thread does between taking and releasing the locks; \<open>reachable\<close>
    closes the started server under admissible events. \<open>Turns\<close> shows that the code's loops are sequences of these events,
    \<open>Session\<close> computes concrete runs, \<open>Races\<close> has what happens when an event is not admissible, or a request repeated.
  \<^item> \<open>Client\<close>: \<^verbatim>\<open>client/c_helper.c\<close>, \<^verbatim>\<open>sender.c\<close>, \<^verbatim>\<open>receiver.c\<close>. \<open>ClientRun\<close>: \<^verbatim>\<open>client/animate_client.c\<close>, both threads.
  \<^item> \<open>EndToEnd\<close>: what one side writes is what the other one acts upon.

  What the lemmas show. Per component: the functional behaviour of the operations on every branch, refinements (the whitespace loop to
  words, the queue to a list, the login to a map lookup), round trips (lines, numbers, requests, replies, objects), bounds, and absence of
  faults. For the server: an invariant ties references, list, slots, tasks and results together, every event keeps it, so
  that no admissible run faults. For the client: it sends one login line and then one line at a time, closes
  what it opens, and ends. Several theorems state defects: they are listed as findings beside this library.

  Faults, bounds and fuel. A null pointer, a freed block, an index past an array, a cell never written and a signed overflow are values of
  \<open>fault\<close>, so that "returns" is a statement. Loops are total functions with measures, except where the source may not return:
  \<open>task_destroy\<close> and the walks of linked lists return \<open>None\<close> for a cyclic list, and the loops around system calls return \<open>None\<close>
  (\<open>Waiting\<close> in the client) when the list of answers ends before the loop does; the lemmas state which lists are long enough. There is no
  other fuel.

  What an event may rely on (\<open>admissible\<close>): allocators return blocks not in use, tables find memory to grow, the line buffer has its size, a frame range
  does not end at the largest \<open>int\<close>, a counter has room, and a result is taken while its client is connected. The last is not
  guaranteed by the code: see \<open>Races\<close>.

  Not modelled: \<open>debug_log\<close> and the messages on the terminal of the server; the usage texts; the build; time (\<open>nanosleep\<close> is an event in
  a trace, the alarm of the client a signal that may come); the masks of signals, a handler runs between two steps or, in the client's
  handshake, where the code unblocks it. The operations under a mutex are atomic, and a worker's task is one step, although
  \<open>SHARE\<close> goes on to use the client it has found after it has released the lock. A write to a client is recorded as the text handed to \<open>write_block_pipe\<close>, whose own behaviour is in \<open>Pipe\<close>, and
  the self pipes carry whole records, since a record is shorter than \<open>PIPE_BUF\<close>. What the kernel would answer on a descriptor
  number that is closed and given out again is not told apart from the answers of its former use.
\<close>

end
